(* ===== verification/Prelude.thy ===== *)
theory Prelude
  imports Main "HOL-Library.Word" "HOL-Library.Multiset"
begin

unbundle bit_operations_syntax

text \<open>
  Shared vocabulary of the development: the machine-integer types, the result type of
  kernel code that may panic, and generic facts on bounded search, integer ranges and
  table updates that the component theories use.
\<close>

section \<open>Machine types\<close>

type_synonym u8 = "8 word"
type_synonym u16 = "16 word"
type_synonym u32 = "32 word"

text \<open>
  The largest \<^verbatim>\<open>int\<close> of C. A signed result above it is an overflow, which C leaves undefined:
  where a counter can get there, the model has a branch for it.
\<close>

definition INT_MAX :: int where "INT_MAX = 2147483647"

text \<open>The signed reading of a word.\<close>

lemma sint_u32: "sint (x :: u32) = (if uint x < 2 ^ 31 then uint x else uint x - 2 ^ 32)"
proof -
  have r: "0 \<le> uint x" "uint x < 2 ^ 32" using uint_lt2p [of x] by simp_all
  have b: "bit (uint x) 31 \<longleftrightarrow> 2 ^ 31 \<le> uint x"
  proof
    assume "bit (uint x) 31"
    then have "uint x div 2 ^ 31 \<noteq> 0" by (auto simp: bit_iff_odd)
    then show "2 ^ 31 \<le> uint x" using r by (smt (verit) div_pos_pos_trivial)
  next
    assume "2 ^ 31 \<le> uint x"
    then have "uint x div 2 ^ 31 = 1" using r by (intro int_div_pos_eq [where r = "uint x - 2 ^ 31"]) auto
    then show "bit (uint x) 31" by (simp add: bit_iff_odd)
  qed
  have "sint x = signed_take_bit 31 (uint x)" by (simp add: sint_uint)
  also have "\<dots> = take_bit 32 (uint x) - 2 ^ 32 * of_bool (bit (uint x) 31)"
    by (simp add: signed_take_bit_eq_take_bit_minus)
  also have "take_bit 32 (uint x) = uint x" using r by (simp add: take_bit_int_eq_self)
  finally show ?thesis using b by auto
qed

lemma unat_minus_u32: "\<not> 0 \<le> sint (x :: u32) \<Longrightarrow> int (unat (- x)) = - sint x"
proof -
  assume n: "\<not> 0 \<le> sint x"
  have "uint x < 2 ^ 32" using uint_lt2p [of x] by simp
  then have "uint x \<noteq> 0" "sint x = uint x - 2 ^ 32" using n sint_u32 [of x] by (auto split: if_splits)
  moreover have "uint (- x) = 2 ^ 32 - uint x"
    using \<open>uint x \<noteq> 0\<close> uint_lt2p [of x] by (simp add: uint_word_ariths zmod_zminus1_eq_if)
  ultimately show ?thesis by simp
qed

text \<open>How far a word is from wrapping around: the measure of loops that count upwards.\<close>

definition room :: "u32 \<Rightarrow> nat" where
  "room a = nat (2 ^ 32 - uint a)"

lemma room_less: "a < b \<Longrightarrow> room b < room a"
  using uint_lt2p [of a] by (simp add: room_def word_less_def)

section \<open>Kernel results\<close>

text \<open>
  A kernel routine either stops the machine (\<^verbatim>\<open>panic(msg)\<close>, which never returns, or a
  trap taken in kernel mode, which ends in \<^verbatim>\<open>panic("trap")\<close>) or returns. The first is
  \<open>Inl msg\<close>, the second \<open>Inr x\<close>.
\<close>

type_synonym 'a kres = "string + 'a"

definition and_then :: "'a kres \<Rightarrow> ('a \<Rightarrow> 'b kres) \<Rightarrow> 'b kres" where
  "and_then m f = (case m of Inl e \<Rightarrow> Inl e | Inr x \<Rightarrow> f x)"

lemma and_then_simps [simp]:
  "and_then (Inl e) f = Inl e"
  "and_then (Inr x) f = f x"
  by (simp_all add: and_then_def)

lemma and_then_Inr_iff: "and_then m f = Inr y \<longleftrightarrow> (\<exists>x. m = Inr x \<and> f x = Inr y)"
  by (cases m) auto

lemma and_then_Inl_iff:
  "and_then m f = Inl e \<longleftrightarrow> m = Inl e \<or> (\<exists>x. m = Inr x \<and> f x = Inl e)"
  by (cases m) auto

lemma and_then_assoc: "and_then (and_then m f) g = and_then m (\<lambda>x. and_then (f x) g)"
  by (cases m) auto

lemma and_then_cong [fundef_cong]:
  "m = n \<Longrightarrow> (\<And>x. n = Inr x \<Longrightarrow> f x = g x) \<Longrightarrow> and_then m f = and_then n g"
  by (cases n) auto

text \<open>A \<^verbatim>\<open>for\<close> loop whose body may panic.\<close>

fun foldk :: "('a \<Rightarrow> 's \<Rightarrow> 's kres) \<Rightarrow> 'a list \<Rightarrow> 's \<Rightarrow> 's kres" where
  "foldk f [] s = Inr s"
| "foldk f (x # xs) s = and_then (f x s) (foldk f xs)"

lemma foldk_append: "foldk f (xs @ ys) s = and_then (foldk f xs s) (foldk f ys)"
  by (induction xs arbitrary: s) (auto simp: and_then_assoc intro!: and_then_cong)

lemma foldk_invariant:
  assumes "foldk f xs s = Inr t" and "P s"
    and "\<And>x u v. x \<in> set xs \<Longrightarrow> P u \<Longrightarrow> f x u = Inr v \<Longrightarrow> P v"
  shows "P t"
  using assms
proof (induction xs arbitrary: s)
  case (Cons x xs)
  from Cons.prems(1) obtain u where "f x s = Inr u" "foldk f xs u = Inr t"
    by (auto simp: and_then_Inr_iff)
  with Cons show ?case by (metis list.set_intros)
qed simp

lemma foldk_total:
  assumes "P s" and "\<And>x u. x \<in> set xs \<Longrightarrow> P u \<Longrightarrow> \<exists>v. f x u = Inr v \<and> P v"
  shows "\<exists>t. foldk f xs s = Inr t \<and> P t"
  using assms
proof (induction xs arbitrary: s)
  case (Cons x xs)
  then obtain v where "f x s = Inr v" "P v" by (meson list.set_intros(1))
  with Cons show ?case by (metis and_then_simps(2) foldk.simps(2) list.set_intros(2))
qed simp

lemma foldk_id: "(\<And>x. x \<in> set xs \<Longrightarrow> f x s = Inr s) \<Longrightarrow> foldk f xs s = Inr s"
  by (induction xs) simp_all

section \<open>Bounded search\<close>

text \<open>
  \<open>find P [a..<b]\<close> is the loop \<^verbatim>\<open>for(i = a; i < b; i++) if(P(i)) goto found;\<close>.
\<close>

lemma find_upt_None_iff: "find P [a..<b] = None \<longleftrightarrow> (\<forall>i. a \<le> i \<and> i < b \<longrightarrow> \<not> P i)"
  by (auto simp: find_None_iff)

lemma find_upt_Some_iff:
  "find P [a..<b] = Some i \<longleftrightarrow> a \<le> i \<and> i < b \<and> P i \<and> (\<forall>j. a \<le> j \<and> j < i \<longrightarrow> \<not> P j)"
  (is "?l = ?r")
proof
  assume ?l
  then obtain k where k: "k < b - a" "P (a + k)" "i = a + k" "\<forall>j<k. \<not> P (a + j)"
    by (auto simp: find_Some_iff)
  have "\<not> P j" if "a \<le> j" "j < i" for j
    using k(3,4) that by (metis le_Suc_ex nat_add_left_cancel_less)
  with k show ?r by auto
next
  assume r: ?r
  then have "i - a < length [a..<b] \<and> P ([a..<b] ! (i - a)) \<and> i = [a..<b] ! (i - a)
      \<and> (\<forall>j<i - a. \<not> P ([a..<b] ! j))"
    by auto
  then show ?l unfolding find_Some_iff by blast
qed

section \<open>Loops over tables\<close>

text \<open>What no iteration changes, the loop does not change.\<close>

lemma fold_field: "(\<And>x s. g (f x s) = g s) \<Longrightarrow> g (fold f xs s) = g s"
  by (induction xs arbitrary: s) simp_all

lemma fold_keeps:
  "P s \<Longrightarrow> (\<And>x s. x \<in> set xs \<Longrightarrow> P s \<Longrightarrow> P (f x s)) \<Longrightarrow> P (fold f xs s)"
  by (induction xs arbitrary: s) simp_all

section \<open>Integer ranges\<close>

text \<open>\<open>[a..b]\<close> are the values of \<^verbatim>\<open>j\<close> in \<^verbatim>\<open>for(j = a; j <= b; j++)\<close>.\<close>

lemma find_upto_Some_iff:
  "find P [a..b] = Some m \<longleftrightarrow> a \<le> m \<and> m \<le> b \<and> P m \<and> (\<forall>j. a \<le> j \<and> j < m \<longrightarrow> \<not> P (j::int))"
  (is "?l = ?r")
proof
  assume ?l
  then obtain k where k: "k < nat (b - a + 1)" "P ([a..b] ! k)" "m = [a..b] ! k" "\<forall>j<k. \<not> P ([a..b] ! j)"
    by (auto simp: find_Some_iff)
  then have m: "m = a + int k" by (simp add: nth_upto)
  have "\<not> P j" if "a \<le> j" "j < m" for j
  proof -
    have "nat (j - a) < k" "[a..b] ! nat (j - a) = j" using that m k(1) by (auto simp: nth_upto)
    with k(4) show ?thesis by metis
  qed
  with k m show ?r by auto
next
  assume r: ?r
  have "nat (m - a) < length [a..b] \<and> P ([a..b] ! nat (m - a)) \<and> m = [a..b] ! nat (m - a)
      \<and> (\<forall>j<nat (m - a). \<not> P ([a..b] ! j))"
    using r by (auto simp: nth_upto)
  then show ?l unfolding find_Some_iff by blast
qed

lemma find_upto_None_iff: "find P [a..b] = None \<longleftrightarrow> (\<forall>j. a \<le> j \<and> j \<le> b \<longrightarrow> \<not> P (j::int))"
  by (auto simp: find_None_iff)

lemma map_upto_shift: "map (\<lambda>j. f (j - 1)) [a + 1..b] = map f [a..b - 1]"
  by (rule nth_equalityI) (auto simp: nth_upto intro!: arg_cong [where f = f])

lemma upto_split_at: "a \<le> m + 1 \<Longrightarrow> m \<le> b \<Longrightarrow> [a..b] = [a..m] @ [m + 1..(b::int)]"
  by (metis add_diff_cancel_right' upto_split1 upto_empty append_Nil2 append_Nil linorder_not_less
      order_antisym_conv zle_add1_eq_le zless_add1_eq)

text \<open>Removing the first occurrence, at a known place of a mapped range.\<close>

lemma remove1_map_upto:
  assumes "a \<le> m" "m \<le> b" "f m = x" "\<And>j. a \<le> j \<Longrightarrow> j < m \<Longrightarrow> f j \<noteq> x"
  shows "remove1 x (map f [a..b]) = map f [a..m - 1] @ map f [m + 1..b]"
proof -
  have "[a..b] = [a..m - 1] @ m # [m + 1..b]" by (rule upto_split3 [OF assms(1,2)])
  moreover have "x \<notin> set (map f [a..m - 1])" using assms(4) by fastforce
  ultimately show ?thesis using assms(3) by (simp add: remove1_append)
qed

lemma takeWhile_map_upto:
  assumes "a \<le> m" "m \<le> b" "f m = x" "\<And>j. a \<le> j \<Longrightarrow> j < m \<Longrightarrow> f j \<noteq> x"
  shows "takeWhile (\<lambda>y. y \<noteq> x) (map f [a..b] @ ys) = map f [a..m - 1]"
proof -
  have "[a..b] = [a..m - 1] @ m # [m + 1..b]" by (rule upto_split3 [OF assms(1,2)])
  moreover have "takeWhile (\<lambda>y. y \<noteq> x) (map f [a..m - 1] @ zs) = map f [a..m - 1] @ takeWhile (\<lambda>y. y \<noteq> x) zs" for zs
    using assms(4) by (intro takeWhile_append2) fastforce
  ultimately show ?thesis using assms(3) by simp
qed

end
