(* ===== verification/Printf.thy ===== *)
theory Printf
  imports Prelude
begin

text \<open>
  Formatted output: \<^verbatim>\<open>printint\<close> and \<^verbatim>\<open>cprintf\<close> of the kernel (\<^verbatim>\<open>console.c\<close>) and
  \<^verbatim>\<open>printint\<close> and \<^verbatim>\<open>printf\<close> of the user library (\<^verbatim>\<open>printf.c\<close>), as functions
  from a format string and its arguments to the characters written, and \<^verbatim>\<open>atoi\<close> of
  \<^verbatim>\<open>ulib.c\<close>, which reads decimal numbers back.

  A C string is the list of its characters before the terminating zero.
\<close>

section \<open>Numbers\<close>

text \<open>The \<^verbatim>\<open>do\<close> loop, which leaves the least digit first in \<^verbatim>\<open>buf\<close>.\<close>

function digit_loop :: "string \<Rightarrow> u32 \<Rightarrow> u32 \<Rightarrow> string" where
  "digit_loop digits base x =
     digits ! unat (x mod base) #
     (if 2 \<le> base \<and> x div base \<noteq> 0 then digit_loop digits base (x div base) else [])"
  by pat_completeness auto
termination
proof (relation "measure (\<lambda>(d, b, x). unat x)")
  fix base x :: u32
  assume a: "2 \<le> base \<and> x div base \<noteq> 0"
  then have "2 \<le> unat base" using word_le_nat_alt [of 2 base] by simp
  moreover have "x \<noteq> 0" using a by auto
  then have "unat x \<noteq> 0" by (simp add: unat_eq_zero)
  ultimately have "unat x div unat base < unat x" by simp
  then show "((digits, base, x div base), digits, base, x) \<in> measure (\<lambda>(d, b, x). unat x)"
    for digits :: string by (simp add: unat_div)
qed simp

declare digit_loop.simps [simp del]

definition printint :: "string \<Rightarrow> u32 \<Rightarrow> u32 \<Rightarrow> bool \<Rightarrow> string" where
  "printint digits xx base sign =
     (let neg = (sign \<and> sint xx < 0);
          x = (if neg then - xx else xx);
          buf = digit_loop digits base x @ (if neg then ''-'' else [])
      in rev buf)"

definition kernel_digits :: string where "kernel_digits = ''0123456789abcdef''"
definition user_digits :: string where "user_digits = ''0123456789ABCDEF''"

section \<open>Formats\<close>

text \<open>
  An argument is a word or a string pointer, \<open>None\<close> being the null pointer. A format that
  asks for an argument that is not there, or of the other kind, reads memory that is not
  ours to describe: the result is \<open>None\<close>.
\<close>

datatype parg = Num u32 | Str "string option"

definition print_str :: "string option \<Rightarrow> string" where
  "print_str s = (case s of None \<Rightarrow> ''(null)'' | Some t \<Rightarrow> t)"

fun cprintf_fmt :: "string \<Rightarrow> parg list \<Rightarrow> string option" where
  "cprintf_fmt [] args = Some []"
| "cprintf_fmt [c] args = Some (if c = CHR ''%'' then [] else [c])"
| "cprintf_fmt (c # d # fmt) args =
     (if c \<noteq> CHR ''%'' then map_option ((#) c) (cprintf_fmt (d # fmt) args)
      else if d = CHR ''d'' then
        (case args of Num n # args \<Rightarrow> map_option ((@) (printint kernel_digits n 10 True)) (cprintf_fmt fmt args) | _ \<Rightarrow> None)
      else if d = CHR ''x'' \<or> d = CHR ''p'' then
        (case args of Num n # args \<Rightarrow> map_option ((@) (printint kernel_digits n 16 False)) (cprintf_fmt fmt args) | _ \<Rightarrow> None)
      else if d = CHR ''s'' then
        (case args of Str s # args \<Rightarrow> map_option ((@) (print_str s)) (cprintf_fmt fmt args) | _ \<Rightarrow> None)
      else if d = CHR ''%'' then map_option ((#) (CHR ''%'')) (cprintf_fmt fmt args)
      else map_option ((@) [CHR ''%'', d]) (cprintf_fmt fmt args))"

text \<open>The user library keeps a state instead: \<open>st\<close> is \<^verbatim>\<open>state == '%'\<close>.\<close>

fun printf_loop :: "bool \<Rightarrow> string \<Rightarrow> parg list \<Rightarrow> string option" where
  "printf_loop st [] args = Some []"
| "printf_loop st (c # fmt) args =
     (if \<not> st then
        (if c = CHR ''%'' then printf_loop True fmt args
         else map_option ((#) c) (printf_loop False fmt args))
      else if c = CHR ''d'' then
        (case args of Num n # args \<Rightarrow> map_option ((@) (printint user_digits n 10 True)) (printf_loop False fmt args) | _ \<Rightarrow> None)
      else if c = CHR ''x'' \<or> c = CHR ''p'' then
        (case args of Num n # args \<Rightarrow> map_option ((@) (printint user_digits n 16 False)) (printf_loop False fmt args) | _ \<Rightarrow> None)
      else if c = CHR ''s'' then
        (case args of Str s # args \<Rightarrow> map_option ((@) (print_str s)) (printf_loop False fmt args) | _ \<Rightarrow> None)
      else if c = CHR ''c'' then
        (case args of Num n # args \<Rightarrow> map_option ((#) (char_of (unat n mod 256))) (printf_loop False fmt args) | _ \<Rightarrow> None)
      else if c = CHR ''%'' then map_option ((#) c) (printf_loop False fmt args)
      else map_option ((@) [CHR ''%'', c]) (printf_loop False fmt args))"

definition printf :: "string \<Rightarrow> parg list \<Rightarrow> string option" where
  "printf fmt args = printf_loop False fmt args"

section \<open>Reading numbers\<close>

text \<open>
  \<^verbatim>\<open>atoi\<close> accumulates in an \<^verbatim>\<open>int\<close>, by \<^verbatim>\<open>n*10 + *s++ - '0'\<close>, which is evaluated
  from the left. A sum above \<open>INT_MAX\<close> is a signed overflow: the result is \<open>None\<close>.
\<close>

fun atoi_loop :: "int \<Rightarrow> string \<Rightarrow> int option" where
  "atoi_loop n [] = Some n"
| "atoi_loop n (c # s) =
     (if 48 \<le> (of_char c :: nat) \<and> (of_char c :: nat) \<le> 57
      then if n * 10 + of_char c > INT_MAX then None else atoi_loop (n * 10 + of_char c - 48) s
      else Some n)"

definition atoi :: "string \<Rightarrow> int option" where
  "atoi s = atoi_loop 0 s"

section \<open>Facts about the digits\<close>

text \<open>The reference: the digits of a number, most significant first, and their value.\<close>

definition digit_val :: "char \<Rightarrow> nat" where
  "digit_val c = of_char c - 48"

fun dec_value :: "string \<Rightarrow> nat" where
  "dec_value [] = 0"
| "dec_value (c # s) = digit_val c * 10 ^ length s + dec_value s"

lemma decimal_digit:
  assumes "d < 10"
  shows "digit_val (kernel_digits ! d) = d" "48 \<le> (of_char (kernel_digits ! d) :: nat)" "(of_char (kernel_digits ! d) :: nat) \<le> 57"
    "user_digits ! d = kernel_digits ! d"
  using assms by (auto simp: digit_val_def kernel_digits_def user_digits_def less_Suc_eq numeral_eq_Suc)

lemma digit_loop_rec:
  assumes "2 \<le> base"
  shows "digit_loop ds base x = ds ! (unat x mod unat base) #
    (if unat x div unat base \<noteq> 0 then digit_loop ds base (x div base) else [])"
  using assms by (subst digit_loop.simps) (simp add: unat_mod unat_div word_unat_eq_iff)

text \<open>What every digit string satisfies, by the recursion of the loop.\<close>

lemma digit_loop_induct [case_names base step]:
  assumes "2 \<le> base"
    and "\<And>x. (unat x div unat base \<noteq> 0 \<Longrightarrow> P (x div base)) \<Longrightarrow> P x"
  shows "P (x :: u32)"
proof (induction "unat x" arbitrary: x rule: less_induct)
  case less
  have b: "2 \<le> unat base" using assms(1) word_le_nat_alt [of 2 base] by simp
  show ?case
  proof (rule assms(2))
    assume d: "unat x div unat base \<noteq> 0"
    then have "0 < unat x" by (cases "unat x") auto
    then have "unat (x div base) < unat x" using b by (simp add: unat_div)
    then show "P (x div base)" by (rule less)
  qed
qed

lemma digit_loop_value:
  "dec_value (rev (digit_loop kernel_digits 10 x)) = unat x"
proof (induction x rule: digit_loop_induct [of 10])
  case (step x)
  have snoc: "dec_value (s @ [c]) = dec_value s * 10 + digit_val c" for s c
    by (induction s) (simp_all add: algebra_simps)
  have "digit_val (kernel_digits ! (unat x mod 10)) = unat x mod 10" by (rule decimal_digit) simp
  then show ?case
    using step by (subst digit_loop_rec) (simp_all add: snoc unat_div)
qed simp

lemma digit_loop_decimal:
  "\<forall>c\<in>set (digit_loop kernel_digits 10 x). 48 \<le> (of_char c :: nat) \<and> (of_char c :: nat) \<le> 57"
proof (induction x rule: digit_loop_induct [of 10])
  case (step x)
  then show ?case
    using decimal_digit(2,3) [of "unat x mod 10"] by (subst digit_loop_rec) simp_all
qed simp

lemma digit_loop_user: "digit_loop user_digits 10 x = digit_loop kernel_digits 10 x"
proof (induction x rule: digit_loop_induct [of 10])
  case (step x)
  then show ?case
    using decimal_digit(4) [of "unat x mod 10"]
    by (subst (1 2) digit_loop_rec) simp_all
qed simp

lemma digit_loop_length:
  assumes "2 \<le> base"
  shows "unat x < unat base ^ n \<Longrightarrow> 0 < n \<Longrightarrow> length (digit_loop ds base x) \<le> n"
proof (induction n arbitrary: x)
  case (Suc n)
  have b: "2 \<le> unat base" using assms word_le_nat_alt [of 2 base] by simp
  show ?case
  proof (cases "unat x div unat base = 0")
    case True
    then show ?thesis using assms by (simp add: digit_loop_rec)
  next
    case False
    have lt: "unat (x div base) < unat base ^ n"
      using Suc.prems(1) b by (simp add: unat_div less_mult_imp_div_less mult.commute)
    moreover have "0 < n" using lt False by (cases n) (auto simp: unat_div)
    ultimately show ?thesis using Suc.IH [of "x div base"] False assms by (simp add: digit_loop_rec)
  qed
qed simp

text \<open>The last sum of \<^verbatim>\<open>atoi\<close> is the value of the string plus the code of zero, and no earlier one is larger.\<close>

lemma atoi_value:
  assumes "\<forall>c\<in>set s. 48 \<le> (of_char c :: nat) \<and> (of_char c :: nat) \<le> 57" "s \<noteq> []" "0 \<le> n"
  shows "atoi_loop n s =
    (if n * 10 ^ length s + int (dec_value s) + 48 \<le> INT_MAX then Some (n * 10 ^ length s + int (dec_value s)) else None)"
  using assms
proof (induction s arbitrary: n)
  case (Cons c s)
  define m where "m = n * 10 + int (digit_val c)"
  have c: "of_char c = int (digit_val c) + 48" using Cons.prems by (simp add: digit_val_def of_nat_diff of_nat_of_char)
  have m: "0 \<le> m" using Cons.prems by (simp add: m_def)
  have l: "n * 10 ^ length (c # s) + int (dec_value (c # s)) = m * 10 ^ length s + int (dec_value s)"
    by (simp add: m_def algebra_simps)
  have step: "atoi_loop n (c # s) = (if m + 48 > INT_MAX then None else atoi_loop m s)"
    using Cons.prems by (simp add: c m_def)
  show ?case
  proof (cases "s = []")
    case True
    then show ?thesis unfolding step l by auto
  next
    case False
    have "m * 1 \<le> m * 10 ^ length s" by (rule mult_left_mono) (use m in simp_all)
    then have "m \<le> m * 10 ^ length s + int (dec_value s)" by simp
    then show ?thesis unfolding step l using Cons.IH [of m] Cons.prems False m by auto
  qed
qed simp

lemma printint_user: "printint user_digits x 10 sign = printint kernel_digits x 10 sign"
  by (simp add: printint_def digit_loop_user)

lemma atoi_digits:
  "atoi (rev (digit_loop kernel_digits 10 x)) = (if int (unat x) \<le> INT_MAX - 48 then Some (int (unat x)) else None)"
proof -
  have "rev (digit_loop kernel_digits 10 x) \<noteq> []" by (subst digit_loop.simps) simp
  then show ?thesis
    using digit_loop_decimal [of x] atoi_value [of "rev (digit_loop kernel_digits 10 x)" 0] digit_loop_value [of x]
    by (simp add: atoi_def)
qed

section \<open>Correctness of the conversions\<close>

text \<open>C16: a number printed in decimal, by the kernel or by the user library, is read back by
  \<^verbatim>\<open>atoi\<close> if it lies between 0 and 2147483599; the 48 larger ones overflow the sum in
  \<^verbatim>\<open>atoi\<close> before the code of zero is subtracted. A negative number is printed as a minus
  sign, at which \<^verbatim>\<open>atoi\<close> stops with 0, and the digits of its absolute value (the least
  \<^verbatim>\<open>int\<close>, which has none, left aside).\<close>

theorem printint_atoi:
  "printint user_digits x 10 True = printint kernel_digits x 10 True
   \<and> (if 0 \<le> sint x
      then atoi (printint kernel_digits x 10 True) = (if sint x \<le> 2147483599 then Some (sint x) else None)
      else atoi (printint kernel_digits x 10 True) = Some 0
        \<and> (\<exists>ds. printint kernel_digits x 10 True = CHR ''-'' # ds
             \<and> (sint x = - 2147483648 \<or> atoi ds = (if - sint x \<le> 2147483599 then Some (- sint x) else None))))"
proof (cases "0 \<le> sint x")
  case True
  have "int (unat x) = sint x" using True sint_u32 [of x] uint_lt2p [of x] by (simp split: if_splits)
  then show ?thesis using True atoi_digits [of x] by (simp add: printint_def digit_loop_user INT_MAX_def)
next
  case False
  have "int (unat (- x)) = - sint x" using False by (rule unat_minus_u32)
  then show ?thesis using False atoi_digits [of "- x"]
    by (simp add: printint_def digit_loop_user INT_MAX_def) (simp add: atoi_def)
qed

text \<open>the characters \<^verbatim>\<open>printint\<close> collects always fit in its 16-byte buffer, for every
  word, in base 10 with a sign and in base 16.\<close>

theorem printint_fits: "length (printint ds x 10 sign) \<le> 11 \<and> length (printint ds x 16 False) \<le> 8"
proof -
  have "unat y < 10 ^ 10" "unat y < 16 ^ 8" for y :: u32 using unsigned_less [of y, where 'a = nat] by simp_all
  then have l: "length (digit_loop ds 10 y) \<le> 10" "length (digit_loop ds 16 y) \<le> 8" for y
    using digit_loop_length [of 10 y 10 ds] digit_loop_length [of 16 y 8 ds] by simp_all
  have "length (digit_loop ds 10 y) \<le> 11" for y using l(1) [of y] by simp
  then show ?thesis using l by (simp add: printint_def Let_def)
qed

text \<open>Formats that ask for no hexadecimal number (whose digits differ in case) and no single
  character (which only the user library knows).\<close>

fun plain_fmt :: "string \<Rightarrow> bool" where
  "plain_fmt (c # d # fmt) =
     (if c \<noteq> CHR ''%'' then plain_fmt (d # fmt) else d \<notin> set ''xpc'' \<and> plain_fmt fmt)"
| "plain_fmt fmt = True"

text \<open>the two formatted-print routines, the kernel's with its inner lookahead and the
  user library's with its state variable, write the same characters for every format
  without hexadecimal and character conversions, and fail to find an argument on the same
  inputs.\<close>

theorem printf_is_cprintf: "plain_fmt fmt \<Longrightarrow> printf fmt args = cprintf_fmt fmt args"
  unfolding printf_def
proof (induction fmt args rule: cprintf_fmt.induct)
  case (3 c d fmt args)
  then show ?case
    by (auto simp: printint_user split: list.splits parg.splits)
qed simp_all

theorem printf_is_cprintf_witness:
  "printf ''pid %d %s%%'' [Num 7, Str (Some ''sh'')] = cprintf_fmt ''pid %d %s%%'' [Num 7, Str (Some ''sh'')]"
  by (rule printf_is_cprintf) simp

end
