(* ===== verification/ProcDefs.thy ===== *)
theory ProcDefs
  imports Printf
begin

text \<open>
  The data of the process layer of \<^verbatim>\<open>xv6 modified\<close>: \<^verbatim>\<open>struct trapframe\<close>,
  \<^verbatim>\<open>struct context\<close>, \<^verbatim>\<open>enum procstate\<close>, \<^verbatim>\<open>struct proc\<close>, the per-CPU fields
  the scheduler uses and the global variables of \<^verbatim>\<open>proc.h\<close>, \<^verbatim>\<open>proc.c\<close>,
  \<^verbatim>\<open>trap.c\<close> and \<^verbatim>\<open>main.c\<close>.

  C arrays are total functions from indices, so that the storage next to an array is
  modelled too: \<open>ptable s 64\<close> is the memory one slot past \<^verbatim>\<open>ptable.proc\<close>, and
  \<open>queue s\<close> is indexed by the flat offset from \<^verbatim>\<open>&queue[0][0]\<close>, so that offset
  \<open>-1\<close> is the word just before the array. A \<^verbatim>\<open>struct proc*\<close> is a slot number, or
  \<open>None\<close> for the null pointer. A C \<^verbatim>\<open>int\<close> is an \<open>int\<close>: its overflow is undefined
  behaviour, so there is no wrap-around to model. For \<^verbatim>\<open>nextpid\<close> the overflow is a branch of
  \<^verbatim>\<open>allocproc\<close>; the accounting fields, which grow by one with each tick, are left without a
  bound. \<^verbatim>\<open>uint\<close> values are 32-bit words.
\<close>

section \<open>Constants\<close>

definition NPROC :: nat where "NPROC = 64"
definition NOFILE :: nat where "NOFILE = 16"
definition KSTACKSIZE :: u32 where "KSTACKSIZE = 4096"
definition PGSIZE :: u32 where "PGSIZE = 4096"
definition KERNBASE :: u32 where "KERNBASE = 0x80000000"
definition age :: int where "age = 18"

text \<open>The number of feedback queues: every \<^verbatim>\<open>[5]\<close> of \<^verbatim>\<open>proc.h\<close>.\<close>

definition NQUEUE :: nat where "NQUEUE = 5"

lemmas param_defs = NPROC_def NQUEUE_def NOFILE_def

section \<open>Scheduling policies\<close>

text \<open>The Makefile compiles exactly one scheduler: \<^verbatim>\<open>-D $(SCHEDULER)\<close>.\<close>

datatype policy = ROUND_ROBIN | FCFS | MLFQ | PBS

section \<open>Processes\<close>

datatype procstate = UNUSED | EMBRYO | SLEEPING | RUNNABLE | RUNNING | ZOMBIE

text \<open>
  A sleep channel is an address that the kernel only compares. The channels the sources
  use are the address of a process slot, the address of \<^verbatim>\<open>ticks\<close>, and the addresses of
  other kernel objects.
\<close>

datatype chan = ChanProc nat | ChanTicks | ChanAddr u32

record trapframe =
  tf_edi :: u32
  tf_esi :: u32
  tf_ebp :: u32
  tf_oesp :: u32
  tf_ebx :: u32
  tf_edx :: u32
  tf_ecx :: u32
  tf_eax :: u32
  tf_gs :: u16
  tf_fs :: u16
  tf_es :: u16
  tf_ds :: u16
  tf_trapno :: u32
  tf_err :: u32
  tf_eip :: u32
  tf_cs :: u16
  tf_eflags :: u32
  tf_esp :: u32
  tf_ss :: u16

text \<open>The size in bytes of \<^verbatim>\<open>struct trapframe\<close>, padding included.\<close>

definition sizeof_trapframe :: u32 where "sizeof_trapframe = 76"

definition zero_trapframe :: trapframe where
  "zero_trapframe = \<lparr>tf_edi = 0, tf_esi = 0, tf_ebp = 0, tf_oesp = 0, tf_ebx = 0, tf_edx = 0,
     tf_ecx = 0, tf_eax = 0, tf_gs = 0, tf_fs = 0, tf_es = 0, tf_ds = 0, tf_trapno = 0,
     tf_err = 0, tf_eip = 0, tf_cs = 0, tf_eflags = 0, tf_esp = 0, tf_ss = 0\<rparr>"

record kcontext =
  cx_edi :: u32
  cx_esi :: u32
  cx_ebx :: u32
  cx_ebp :: u32
  cx_eip :: u32

definition sizeof_context :: u32 where "sizeof_context = 20"

definition zero_context :: kcontext where
  "zero_context = \<lparr>cx_edi = 0, cx_esi = 0, cx_ebx = 0, cx_ebp = 0, cx_eip = 0\<rparr>"

text \<open>
  \<open>p_tf\<close> and \<open>p_context\<close> hold the structures that \<^verbatim>\<open>p->tf\<close> and
  \<^verbatim>\<open>p->context\<close> point to; \<open>p_tf_at\<close> and \<open>p_context_at\<close> are the pointers.
  \<open>p_ofile\<close> and \<open>p_cwd\<close> hold slots of the file table and of the inode cache.
\<close>

record proc =
  p_sz :: u32
  p_pgdir :: u32
  p_kstack :: u32
  p_state :: procstate
  p_pid :: int
  p_parent :: "nat option"
  p_tf_at :: u32
  p_tf :: trapframe
  p_context_at :: u32
  p_context :: kcontext
  p_chan :: "chan option"
  p_killed :: bool
  p_ofile :: "nat \<Rightarrow> nat option"
  p_cwd :: "nat option"
  p_name :: string
  ctime :: int
  runtime :: int
  etime :: int
  waittime :: int
  nrun :: int
  curtime :: int
  priority :: int
  qn :: int
  qnt :: "int \<Rightarrow> int"
  flagq :: int

section \<open>The state of the process layer\<close>

text \<open>
  The fields of \<^verbatim>\<open>struct cpu\<close> the scheduler uses: \<open>c_proc\<close> is \<^verbatim>\<open>c->proc\<close>, and
  \<open>c_scan\<close> is the slot at which that CPU's scheduler loop will continue its scan of the
  table (the scheduler's local variable \<^verbatim>\<open>p\<close>); \<open>c_esp0\<close> is the kernel stack pointer
  of the task state segment and \<open>c_cr3\<close> the page-table register.
\<close>

record cpu =
  c_proc :: "nat option"
  c_scan :: nat
  c_esp0 :: u32
  c_cr3 :: u32

text \<open>
  \<open>console\<close> collects what \<^verbatim>\<open>cprintf\<close> printed. \<open>env\<close> is the state of the layers
  below (page allocator, page tables, file table), which the process layer only reaches
  through their operations.
\<close>

record 'e kst =
  ptable :: "nat \<Rightarrow> proc"
  nextpid :: int
  initproc :: "nat option"
  ticks :: u32
  cpus :: "nat \<Rightarrow> cpu"
  ncpu :: nat
  qface :: "nat \<Rightarrow> int"
  qback :: "nat \<Rightarrow> int"
  qsz :: "nat \<Rightarrow> int"
  queue :: "int \<Rightarrow> nat option"
  slices :: "int \<Rightarrow> int"
  kpgdir :: u32
  console :: "string list"
  env :: 'e

definition upd_proc :: "nat \<Rightarrow> (proc \<Rightarrow> proc) \<Rightarrow> 'e kst \<Rightarrow> 'e kst" where
  "upd_proc p f s = s\<lparr>ptable := (ptable s)(p := f (ptable s p))\<rparr>"

definition upd_cpu :: "nat \<Rightarrow> (cpu \<Rightarrow> cpu) \<Rightarrow> 'e kst \<Rightarrow> 'e kst" where
  "upd_cpu c f s = s\<lparr>cpus := (cpus s)(c := f (cpus s c))\<rparr>"

definition cprintf :: "string \<Rightarrow> 'e kst \<Rightarrow> 'e kst" where
  "cprintf msg s = s\<lparr>console := console s @ [msg]\<rparr>"

text \<open>\<^verbatim>\<open>cprintf\<close> with arguments.\<close>

definition printk :: "string \<Rightarrow> parg list \<Rightarrow> 'e kst \<Rightarrow> 'e kst" where
  "printk fmt args s = cprintf (case cprintf_fmt fmt args of Some m \<Rightarrow> m | None \<Rightarrow> []) s"

lemma upd_proc_simps [simp]:
  "ptable (upd_proc p f s) = (ptable s)(p := f (ptable s p))"
  "nextpid (upd_proc p f s) = nextpid s"
  "initproc (upd_proc p f s) = initproc s"
  "ticks (upd_proc p f s) = ticks s"
  "cpus (upd_proc p f s) = cpus s"
  "ncpu (upd_proc p f s) = ncpu s"
  "qface (upd_proc p f s) = qface s"
  "qback (upd_proc p f s) = qback s"
  "qsz (upd_proc p f s) = qsz s"
  "queue (upd_proc p f s) = queue s"
  "slices (upd_proc p f s) = slices s"
  "kpgdir (upd_proc p f s) = kpgdir s"
  "console (upd_proc p f s) = console s"
  "env (upd_proc p f s) = env s"
  by (simp_all add: upd_proc_def)

lemma upd_cpu_simps [simp]:
  "ptable (upd_cpu c g s) = ptable s"
  "nextpid (upd_cpu c g s) = nextpid s"
  "initproc (upd_cpu c g s) = initproc s"
  "ticks (upd_cpu c g s) = ticks s"
  "cpus (upd_cpu c g s) = (cpus s)(c := g (cpus s c))"
  "ncpu (upd_cpu c g s) = ncpu s"
  "qface (upd_cpu c g s) = qface s"
  "qback (upd_cpu c g s) = qback s"
  "qsz (upd_cpu c g s) = qsz s"
  "queue (upd_cpu c g s) = queue s"
  "slices (upd_cpu c g s) = slices s"
  "kpgdir (upd_cpu c g s) = kpgdir s"
  "console (upd_cpu c g s) = console s"
  "env (upd_cpu c g s) = env s"
  by (simp_all add: upd_cpu_def)

lemma cprintf_simps [simp]:
  "ptable (cprintf m s) = ptable s"
  "nextpid (cprintf m s) = nextpid s"
  "initproc (cprintf m s) = initproc s"
  "ticks (cprintf m s) = ticks s"
  "cpus (cprintf m s) = cpus s"
  "ncpu (cprintf m s) = ncpu s"
  "qface (cprintf m s) = qface s"
  "qback (cprintf m s) = qback s"
  "qsz (cprintf m s) = qsz s"
  "queue (cprintf m s) = queue s"
  "slices (cprintf m s) = slices s"
  "kpgdir (cprintf m s) = kpgdir s"
  "console (cprintf m s) = console s @ [m]"
  "env (cprintf m s) = env s"
  by (simp_all add: cprintf_def)

section \<open>The state when the kernel is loaded\<close>

text \<open>Zeroed memory, and the initialised globals of \<^verbatim>\<open>proc.c\<close>.\<close>

definition zero_proc :: proc where
  "zero_proc = \<lparr>p_sz = 0, p_pgdir = 0, p_kstack = 0, p_state = UNUSED, p_pid = 0, p_parent = None,
     p_tf_at = 0, p_tf = zero_trapframe, p_context_at = 0, p_context = zero_context, p_chan = None,
     p_killed = False, p_ofile = (\<lambda>_. None), p_cwd = None, p_name = [], ctime = 0, runtime = 0,
     etime = 0, waittime = 0, nrun = 0, curtime = 0, priority = 0, qn = 0, qnt = (\<lambda>_. 0), flagq = 0\<rparr>"

definition load_kernel :: "nat \<Rightarrow> u32 \<Rightarrow> 'e \<Rightarrow> 'e kst" where
  "load_kernel n kpd e = \<lparr>ptable = (\<lambda>_. zero_proc), nextpid = 1, initproc = None, ticks = 0,
     cpus = (\<lambda>_. \<lparr>c_proc = None, c_scan = 0, c_esp0 = 0, c_cr3 = 0\<rparr>), ncpu = n,
     qface = (\<lambda>_. 0), qback = (\<lambda>_. 0), qsz = (\<lambda>_. 0), queue = (\<lambda>_. None), slices = (\<lambda>_. 0),
     kpgdir = kpd, console = [], env = e\<rparr>"

end
