(* ===== verification/Mlfq.thy ===== *)
theory Mlfq
  imports ProcDefs
begin

text \<open>
  The feedback queues of \<^verbatim>\<open>proc.c\<close>: \<^verbatim>\<open>push\<close>, \<^verbatim>\<open>pop\<close> and \<^verbatim>\<open>remove\<close> on the five
  ring buffers \<^verbatim>\<open>queue[5][64]\<close> with indices \<^verbatim>\<open>face\<close> (first) and \<^verbatim>\<open>back\<close> (last),
  both \<open>-1\<close> when a queue is empty, and the initialisation in \<^verbatim>\<open>main.c\<close>.

  \<open>ring s i\<close> reads the queue \<open>i\<close> as a list; the lemmas show that the three operations
  are append, head/tail and removal on that list, on every branch of the code.
\<close>

section \<open>The operations\<close>

text \<open>
  \<^verbatim>\<open>queue[i][j]\<close>. C lays the rows out contiguously, so \<^verbatim>\<open>queue[i][-1]\<close> is the storage
  of \<^verbatim>\<open>queue[i-1][63]\<close>.
\<close>

definition qslot :: "nat \<Rightarrow> int \<Rightarrow> int" where
  "qslot i j = int NPROC * int i + j"

definition qget :: "'e kst \<Rightarrow> nat \<Rightarrow> int \<Rightarrow> nat option" where
  "qget s i j = queue s (qslot i j)"

definition qset :: "nat \<Rightarrow> int \<Rightarrow> nat option \<Rightarrow> 'e kst \<Rightarrow> 'e kst" where
  "qset i j v s = s\<lparr>queue := (queue s)(qslot i j := v)\<rparr>"

definition set_face :: "nat \<Rightarrow> int \<Rightarrow> 'e kst \<Rightarrow> 'e kst" where
  "set_face i v s = s\<lparr>qface := (qface s)(i := v)\<rparr>"

definition set_back :: "nat \<Rightarrow> int \<Rightarrow> 'e kst \<Rightarrow> 'e kst" where
  "set_back i v s = s\<lparr>qback := (qback s)(i := v)\<rparr>"

definition add_qsz :: "nat \<Rightarrow> int \<Rightarrow> 'e kst \<Rightarrow> 'e kst" where
  "add_qsz i d s = s\<lparr>qsz := (qsz s)(i := qsz s i + d)\<rparr>"

text \<open>Lines 19 to 29 of \<^verbatim>\<open>main.c\<close>: the slices, and every queue empty.\<close>

definition init_slices :: "int \<Rightarrow> int" where
  "init_slices = (\<lambda>_. 0)(0 := 1, 1 := 2, 2 := 4, 3 := 8, 4 := 16)"

definition init_queue :: "nat \<Rightarrow> 'e kst \<Rightarrow> 'e kst" where
  "init_queue i s = s\<lparr>qface := (qface s)(i := -1), qsz := (qsz s)(i := 0), qback := (qback s)(i := -1)\<rparr>"

definition main_queues :: "'e kst \<Rightarrow> 'e kst" where
  "main_queues s = fold init_queue [0..<NQUEUE] (s\<lparr>slices := init_slices\<rparr>)"

text \<open>The membership scan of one queue in \<^verbatim>\<open>push\<close> (lines 878 to 898).\<close>

definition qscan :: "'e kst \<Rightarrow> nat \<Rightarrow> nat option \<Rightarrow> bool" where
  "qscan s i b =
     (if qface s i \<le> qback s i
      then list_ex (\<lambda>j. qget s i j = b) [qface s i..qback s i]
      else list_ex (\<lambda>j. qget s i j = b) [qface s i..int NPROC - 1]
         \<or> list_ex (\<lambda>j. qget s i j = b) [0..qback s i])"

text \<open>The tail of \<^verbatim>\<open>push\<close> from the label \<^verbatim>\<open>yono\<close>.\<close>

definition push_yono :: "nat \<Rightarrow> nat \<Rightarrow> 'e kst \<Rightarrow> 'e kst" where
  "push_yono a b s =
     (let s = upd_proc b (\<lambda>p. p\<lparr>curtime := 0, waittime := 0\<rparr>) s;
          s = (if qface s a = -1 then set_face a 0 s else s);
          s = set_back a ((qback s a + 1) mod int NPROC) s;
          s = add_qsz a 1 s
      in qset a (qback s a) (Some b) s)"

definition push :: "nat \<Rightarrow> nat \<Rightarrow> 'e kst \<Rightarrow> 'e kst" where
  "push a b s =
     (if qface s a = -1 then push_yono a b s
      else if list_ex (\<lambda>i. qscan s i (Some b)) [0..<NQUEUE] then s
      else if qface s a = qback s a + 1 \<or> qface s a = 0 \<and> qback s a = int NPROC - 1
      then cprintf ''queue full\<newline>'' s
      else push_yono a b s)"

definition pop :: "nat \<Rightarrow> 'e kst \<Rightarrow> nat option \<times> 'e kst" where
  "pop a s =
     (if qface s a = -1 then (None, cprintf ''can't pop from empty\<newline>'' s)
      else
        let p = qget s a (qface s a);
            s = add_qsz a (-1) s
        in if qface s a \<noteq> qback s a
           then (p, set_face a ((qface s a + 1) mod int NPROC) s)
           else (p, set_back a (-1) (set_face a (-1) s)))"

text \<open>\<^verbatim>\<open>for(j = m; j >= lo; j--) queue[i][j] = queue[i][j-1];\<close>\<close>

definition shift_up :: "nat \<Rightarrow> int \<Rightarrow> int \<Rightarrow> 'e kst \<Rightarrow> 'e kst" where
  "shift_up i m lo s = fold (\<lambda>j s. qset i j (qget s i (j - 1)) s) (rev [lo..m]) s"

text \<open>Lines 1119 to 1129: the same shift down to slot 0, which takes the last slot of the row.\<close>

definition shift_wrap :: "nat \<Rightarrow> int \<Rightarrow> 'e kst \<Rightarrow> 'e kst" where
  "shift_wrap i m s =
     fold (\<lambda>j s. if j = 0 then qset i j (qget s i (int NPROC - 1)) s
                 else qset i j (qget s i (j - 1)) s) (rev [0..m]) s"

definition bump_face :: "nat \<Rightarrow> 'e kst \<Rightarrow> 'e kst" where
  "bump_face i s = set_face i ((qface s i + 1) mod int NPROC) s"

definition qremove :: "nat \<Rightarrow> nat \<Rightarrow> 'e kst \<Rightarrow> 'e kst" where
  "qremove i p s =
     (if qface s i = qback s i then set_back i (-1) (set_face i (-1) s)
      else if qface s i \<le> qback s i then
        (case find (\<lambda>j. qget s i j = Some p) [qface s i..qback s i] of
           None \<Rightarrow> s
         | Some m \<Rightarrow>
             if m = qface s i then bump_face i s
             else bump_face i (shift_up i m (qface s i + 1) s))
      else
        (case (case find (\<lambda>j. qget s i j = Some p) [qface s i..int NPROC - 1] of
                 None \<Rightarrow> find (\<lambda>j. qget s i j = Some p) [0..qback s i]
               | Some m \<Rightarrow> Some m) of
           None \<Rightarrow> s
         | Some m \<Rightarrow>
             if m = qface s i then bump_face i s
             else if m > qface s i then bump_face i (shift_up i m (qface s i + 1) s)
             else bump_face i (shift_up i (int NPROC - 1) (qface s i + 1) (shift_wrap i m s))))"

section \<open>A queue as a list\<close>

definition ring :: "'e kst \<Rightarrow> nat \<Rightarrow> nat option list" where
  "ring s i =
     (if qface s i = -1 then []
      else if qface s i \<le> qback s i then map (qget s i) [qface s i..qback s i]
      else map (qget s i) [qface s i..int NPROC - 1] @ map (qget s i) [0..qback s i])"

text \<open>The index invariant of one queue.\<close>

definition ring_ok :: "'e kst \<Rightarrow> nat \<Rightarrow> bool" where
  "ring_ok s i \<longleftrightarrow>
     qface s i = -1 \<and> qback s i = -1 \<or>
     0 \<le> qface s i \<and> qface s i < int NPROC \<and> 0 \<le> qback s i \<and> qback s i < int NPROC"

section \<open>Frame facts\<close>

lemma qset_simps [simp]:
  "ptable (qset i j v s) = ptable s"
  "nextpid (qset i j v s) = nextpid s"
  "initproc (qset i j v s) = initproc s"
  "ticks (qset i j v s) = ticks s"
  "cpus (qset i j v s) = cpus s"
  "ncpu (qset i j v s) = ncpu s"
  "qface (qset i j v s) = qface s"
  "qback (qset i j v s) = qback s"
  "qsz (qset i j v s) = qsz s"
  "queue (qset i j v s) = (queue s)(qslot i j := v)"
  "slices (qset i j v s) = slices s"
  "kpgdir (qset i j v s) = kpgdir s"
  "console (qset i j v s) = console s"
  "env (qset i j v s) = env s"
  by (simp_all add: qset_def)

lemma set_face_simps [simp]:
  "ptable (set_face i v s) = ptable s"
  "nextpid (set_face i v s) = nextpid s"
  "initproc (set_face i v s) = initproc s"
  "ticks (set_face i v s) = ticks s"
  "cpus (set_face i v s) = cpus s"
  "ncpu (set_face i v s) = ncpu s"
  "qface (set_face i v s) = (qface s)(i := v)"
  "qback (set_face i v s) = qback s"
  "qsz (set_face i v s) = qsz s"
  "queue (set_face i v s) = queue s"
  "slices (set_face i v s) = slices s"
  "kpgdir (set_face i v s) = kpgdir s"
  "console (set_face i v s) = console s"
  "env (set_face i v s) = env s"
  by (simp_all add: set_face_def)

lemma set_back_simps [simp]:
  "ptable (set_back i v s) = ptable s"
  "nextpid (set_back i v s) = nextpid s"
  "initproc (set_back i v s) = initproc s"
  "ticks (set_back i v s) = ticks s"
  "cpus (set_back i v s) = cpus s"
  "ncpu (set_back i v s) = ncpu s"
  "qface (set_back i v s) = qface s"
  "qback (set_back i v s) = (qback s)(i := v)"
  "qsz (set_back i v s) = qsz s"
  "queue (set_back i v s) = queue s"
  "slices (set_back i v s) = slices s"
  "kpgdir (set_back i v s) = kpgdir s"
  "console (set_back i v s) = console s"
  "env (set_back i v s) = env s"
  by (simp_all add: set_back_def)

lemma add_qsz_simps [simp]:
  "ptable (add_qsz i d s) = ptable s"
  "nextpid (add_qsz i d s) = nextpid s"
  "initproc (add_qsz i d s) = initproc s"
  "ticks (add_qsz i d s) = ticks s"
  "cpus (add_qsz i d s) = cpus s"
  "ncpu (add_qsz i d s) = ncpu s"
  "qface (add_qsz i d s) = qface s"
  "qback (add_qsz i d s) = qback s"
  "qsz (add_qsz i d s) = (qsz s)(i := qsz s i + d)"
  "queue (add_qsz i d s) = queue s"
  "slices (add_qsz i d s) = slices s"
  "kpgdir (add_qsz i d s) = kpgdir s"
  "console (add_qsz i d s) = console s"
  "env (add_qsz i d s) = env s"
  by (simp_all add: add_qsz_def)

lemma bump_face_simps [simp]:
  "ptable (bump_face i s) = ptable s"
  "nextpid (bump_face i s) = nextpid s"
  "initproc (bump_face i s) = initproc s"
  "ticks (bump_face i s) = ticks s"
  "cpus (bump_face i s) = cpus s"
  "ncpu (bump_face i s) = ncpu s"
  "qface (bump_face i s) = (qface s)(i := (qface s i + 1) mod int NPROC)"
  "qback (bump_face i s) = qback s"
  "qsz (bump_face i s) = qsz s"
  "queue (bump_face i s) = queue s"
  "slices (bump_face i s) = slices s"
  "kpgdir (bump_face i s) = kpgdir s"
  "console (bump_face i s) = console s"
  "env (bump_face i s) = env s"
  by (simp_all add: bump_face_def)


lemma qslot_same_row [simp]: "qslot i j = qslot i j' \<longleftrightarrow> j = j'"
  by (simp add: qslot_def)

lemma qslot_inj:
  assumes "0 \<le> j" "j < int NPROC" "0 \<le> j'" "j' < int NPROC"
  shows "qslot i j = qslot i' j' \<longleftrightarrow> i = i' \<and> j = j'"
proof
  assume eq: "qslot i j = qslot i' j'"
  have "(int NPROC * int i + j) div int NPROC = int i" "(int NPROC * int i' + j') div int NPROC = int i'"
    using assms by (simp_all add: NPROC_def)
  with eq have "i = i'" by (simp add: qslot_def)
  with eq show "i = i' \<and> j = j'" by simp
qed simp

lemma qget_upd [simp]:
  "qget (qset i j v s) i' j' = (if qslot i' j' = qslot i j then v else qget s i' j')"
  "qget (set_face i w s) = qget s"
  "qget (set_back i w s) = qget s"
  "qget (add_qsz i w s) = qget s"
  "qget (bump_face i s) = qget s"
  "qget (upd_proc p f s) = qget s"
  "qget (upd_cpu c g s) = qget s"
  "qget (cprintf m s) = qget s"
  by (auto simp: qget_def fun_eq_iff)

section \<open>The shift loops of remove\<close>

lemma rev_upto_Cons: "lo \<le> (m::int) \<Longrightarrow> rev [lo..m] = m # rev [lo..m - 1]"
  by (simp add: upto_rec2)

lemma shift_up_step:
  "lo \<le> m \<Longrightarrow> shift_up i m lo s = shift_up i (m - 1) lo (qset i m (qget s i (m - 1)) s)"
  by (simp add: shift_up_def rev_upto_Cons)

lemma shift_up_empty [simp]: "m < lo \<Longrightarrow> shift_up i m lo s = s"
  by (simp add: shift_up_def)

lemmas fold_kst_fields =
  fold_field [where g = ptable]
  fold_field [where g = nextpid]
  fold_field [where g = initproc]
  fold_field [where g = ticks]
  fold_field [where g = cpus]
  fold_field [where g = ncpu]
  fold_field [where g = qface]
  fold_field [where g = qback]
  fold_field [where g = qsz]
  fold_field [where g = slices]
  fold_field [where g = kpgdir]
  fold_field [where g = console]
  fold_field [where g = env]

lemma shift_up_simps [simp]:
  "ptable (shift_up i m lo s) = ptable s"
  "nextpid (shift_up i m lo s) = nextpid s"
  "initproc (shift_up i m lo s) = initproc s"
  "ticks (shift_up i m lo s) = ticks s"
  "cpus (shift_up i m lo s) = cpus s"
  "ncpu (shift_up i m lo s) = ncpu s"
  "qface (shift_up i m lo s) = qface s"
  "qback (shift_up i m lo s) = qback s"
  "qsz (shift_up i m lo s) = qsz s"
  "slices (shift_up i m lo s) = slices s"
  "kpgdir (shift_up i m lo s) = kpgdir s"
  "console (shift_up i m lo s) = console s"
  "env (shift_up i m lo s) = env s"
  by (simp_all add: shift_up_def fold_kst_fields)

lemma shift_wrap_simps [simp]:
  "ptable (shift_wrap i m s) = ptable s"
  "nextpid (shift_wrap i m s) = nextpid s"
  "initproc (shift_wrap i m s) = initproc s"
  "ticks (shift_wrap i m s) = ticks s"
  "cpus (shift_wrap i m s) = cpus s"
  "ncpu (shift_wrap i m s) = ncpu s"
  "qface (shift_wrap i m s) = qface s"
  "qback (shift_wrap i m s) = qback s"
  "qsz (shift_wrap i m s) = qsz s"
  "slices (shift_wrap i m s) = slices s"
  "kpgdir (shift_wrap i m s) = kpgdir s"
  "console (shift_wrap i m s) = console s"
  "env (shift_wrap i m s) = env s"
  by (simp_all add: shift_wrap_def fold_kst_fields)

lemma shift_up_get:
  "qget (shift_up i m lo s) i j = (if lo \<le> j \<and> j \<le> m then qget s i (j - 1) else qget s i j)"
proof (induction "nat (m - lo + 1)" arbitrary: m s)
  case 0
  then show ?case by auto
next
  case (Suc n)
  then have le: "lo \<le> m" and n: "n = nat ((m - 1) - lo + 1)" by auto
  have "qget (shift_up i m lo s) i j
      = qget (shift_up i (m - 1) lo (qset i m (qget s i (m - 1)) s)) i j"
    using le by (simp add: shift_up_step)
  also have "\<dots> = (if lo \<le> j \<and> j \<le> m - 1 then qget (qset i m (qget s i (m - 1)) s) i (j - 1)
      else qget (qset i m (qget s i (m - 1)) s) i j)"
    by (rule Suc.hyps(1) [OF n])
  also have "\<dots> = (if lo \<le> j \<and> j \<le> m then qget s i (j - 1) else qget s i j)"
    using le by auto
  finally show ?case .
qed

lemma shift_up_get_other:
  assumes "0 \<le> lo" "m < int NPROC" "i' \<noteq> i" "0 \<le> j" "j < int NPROC"
  shows "qget (shift_up i m lo s) i' j = qget s i' j"
  using assms
proof (induction "nat (m - lo + 1)" arbitrary: m s)
  case (Suc n)
  then have le: "lo \<le> m" and n: "n = nat ((m - 1) - lo + 1)" by auto
  have ne: "qslot i' j \<noteq> qslot i m"
    using Suc.prems le by (simp add: qslot_inj)
  have "qget (shift_up i (m - 1) lo (qset i m (qget s i (m - 1)) s)) i' j
      = qget (qset i m (qget s i (m - 1)) s) i' j"
    using Suc.prems by (intro Suc.hyps(1) [OF n]) auto
  with ne show ?case by (simp add: shift_up_step [OF le])
qed auto

lemma shift_wrap_eq:
  assumes "0 \<le> m" and "m < int NPROC - 1"
  shows "shift_wrap i m s = qset i 0 (qget s i (int NPROC - 1)) (shift_up i m 1 s)"
proof -
  let ?f = "\<lambda>j s. if j = 0 then qset i j (qget s i (int NPROC - 1)) s else qset i j (qget s i (j - 1)) s"
  let ?g = "\<lambda>j s. qset i j (qget s i (j - 1)) s"
  have split: "[0..m] = 0 # [1..m]" using assms by (simp add: upto_rec1)
  have "fold ?f (rev [1..m]) s = fold ?g (rev [1..m]) s"
    by (rule fold_cong) auto
  then have "shift_wrap i m s = qset i 0 (qget (shift_up i m 1 s) i (int NPROC - 1)) (shift_up i m 1 s)"
    by (simp add: shift_wrap_def split shift_up_def)
  with assms(2) show ?thesis by (simp add: shift_up_get)
qed

section \<open>The operations on the list view\<close>

lemma ring_cong:
  assumes "ring_ok s i" "qface s' i = qface s i" "qback s' i = qback s i"
    and "\<And>j. 0 \<le> j \<Longrightarrow> j < int NPROC \<Longrightarrow> qget s' i j = qget s i j"
  shows "ring s' i = ring s i"
  using assms by (auto simp: ring_def ring_ok_def intro!: map_cong)

lemma ring_ok_cong:
  "qface s' i = qface s i \<Longrightarrow> qback s' i = qback s i \<Longrightarrow> ring_ok s' i = ring_ok s i"
  by (simp add: ring_ok_def)

lemma ring_simps [simp]:
  "ring (upd_proc p f s) i = ring s i"
  "ring (upd_cpu c g s) i = ring s i"
  "ring (cprintf m s) i = ring s i"
  "ring (add_qsz a d s) i = ring s i"
  by (simp_all add: ring_def)

lemma ring_ok_simps [simp]:
  "ring_ok (upd_proc p f s) i = ring_ok s i"
  "ring_ok (upd_cpu c g s) i = ring_ok s i"
  "ring_ok (cprintf m s) i = ring_ok s i"
  "ring_ok (add_qsz a d s) i = ring_ok s i"
  by (simp_all add: ring_ok_def)

lemma ring_Nil_iff: "ring_ok s i \<Longrightarrow> ring s i = [] \<longleftrightarrow> qface s i = -1"
  by (auto simp: ring_def ring_ok_def)

lemma ring_Nil_back: "ring_ok s i \<Longrightarrow> ring s i = [] \<Longrightarrow> qface s i = -1 \<and> qback s i = -1"
  by (auto simp: ring_def ring_ok_def split: if_splits)

lemma ring_length: "ring_ok s i \<Longrightarrow> length (ring s i) \<le> NPROC"
  by (auto simp: ring_def ring_ok_def)

text \<open>The test \<^verbatim>\<open>queue full\<close> of \<^verbatim>\<open>push\<close> is exact.\<close>

lemma ring_full_iff:
  "ring_ok s i \<Longrightarrow> qface s i \<noteq> -1 \<Longrightarrow>
   (qface s i = qback s i + 1 \<or> qface s i = 0 \<and> qback s i = int NPROC - 1)
     \<longleftrightarrow> length (ring s i) = NPROC"
  by (auto simp: ring_def ring_ok_def)

text \<open>
  The membership scan: on a queue with elements it is list membership; on an empty queue
  it tests the slot before the row.
\<close>

lemma qscan_iff:
  "ring_ok s i \<Longrightarrow> qscan s i b \<longleftrightarrow> (if ring s i = [] then qget s i (-1) = b else b \<in> set (ring s i))"
  by (auto simp: qscan_def ring_def ring_ok_def list_ex_iff)

lemma push_yono_simps [simp]:
  "ptable (push_yono a b s) = (ptable s)(b := (ptable s b)\<lparr>curtime := 0, waittime := 0\<rparr>)"
  "nextpid (push_yono a b s) = nextpid s"
  "initproc (push_yono a b s) = initproc s"
  "ticks (push_yono a b s) = ticks s"
  "cpus (push_yono a b s) = cpus s"
  "ncpu (push_yono a b s) = ncpu s"
  "qsz (push_yono a b s) = (qsz s)(a := qsz s a + 1)"
  "slices (push_yono a b s) = slices s"
  "kpgdir (push_yono a b s) = kpgdir s"
  "console (push_yono a b s) = console s"
  "env (push_yono a b s) = env s"
  by (simp_all add: push_yono_def Let_def)

lemma push_yono_idx:
  "qface (push_yono a b s) = (qface s)(a := if qface s a = -1 then 0 else qface s a)"
  "qback (push_yono a b s) = (qback s)(a := (qback s a + 1) mod int NPROC)"
  "qget (push_yono a b s) i j =
     (if qslot i j = qslot a ((qback s a + 1) mod int NPROC) then Some b else qget s i j)"
  by (auto simp: push_yono_def Let_def)

lemma ring_push_yono:
  assumes ok: "ring_ok s a" and room: "length (ring s a) < NPROC"
  shows "ring (push_yono a b s) a = ring s a @ [Some b] \<and> ring_ok (push_yono a b s) a"
proof (cases "qface s a = -1")
  case True
  then show ?thesis
    using ok by (auto simp: ring_def ring_ok_def push_yono_idx NPROC_def)
next
  case False
  then have rng: "0 \<le> qface s a" "qface s a < int NPROC" "0 \<le> qback s a" "qback s a < int NPROC"
    using ok by (auto simp: ring_ok_def)
  have nf: "\<not> (qface s a = qback s a + 1 \<or> qface s a = 0 \<and> qback s a = int NPROC - 1)"
    using ring_full_iff [OF ok False] room by simp
  show ?thesis
  proof (cases "qback s a = int NPROC - 1")
    case True
    then have b': "(qback s a + 1) mod int NPROC = 0" by simp
    have "map (qget (push_yono a b s) a) [qface s a..int NPROC - 1]
        = map (qget s a) [qface s a..int NPROC - 1]"
      using nf True rng by (auto simp: push_yono_idx)
    then show ?thesis
      using nf True rng False b' by (auto simp: ring_def ring_ok_def push_yono_idx)
  next
    case nl: False
    then have b': "(qback s a + 1) mod int NPROC = qback s a + 1" using rng by simp
    have sp: "[l..qback s a + 1] = [l..qback s a] @ [qback s a + 1]" if "l \<le> qback s a + 1" for l
      using that by (simp add: upto_rec2)
    have "map (qget (push_yono a b s) a) [l..qback s a] = map (qget s a) [l..qback s a]" for l
      by (auto simp: push_yono_idx b')
    moreover have "map (qget (push_yono a b s) a) [qface s a..int NPROC - 1]
        = map (qget s a) [qface s a..int NPROC - 1]" if "qback s a < qface s a"
      using that nf by (auto simp: push_yono_idx b')
    ultimately show ?thesis
      using nf nl rng False b' by (auto simp: ring_def ring_ok_def push_yono_idx sp)
  qed
qed

lemma ring_push_yono_other:
  assumes "ring_ok s a" "ring_ok s i" "i \<noteq> a"
  shows "ring (push_yono a b s) i = ring s i \<and> ring_ok (push_yono a b s) i"
proof -
  have "0 \<le> (qback s a + 1) mod int NPROC" "(qback s a + 1) mod int NPROC < int NPROC"
    by (simp_all add: NPROC_def)
  then have "qget (push_yono a b s) i j = qget s i j" if "0 \<le> j" "j < int NPROC" for j
    using assms(3) that by (simp add: push_yono_idx qslot_inj)
  with assms show ?thesis
    by (intro conjI ring_cong) (simp_all add: push_yono_idx ring_ok_def)
qed

lemma push_simps [simp]:
  "nextpid (push a b s) = nextpid s"
  "initproc (push a b s) = initproc s"
  "ticks (push a b s) = ticks s"
  "cpus (push a b s) = cpus s"
  "ncpu (push a b s) = ncpu s"
  "slices (push a b s) = slices s"
  "kpgdir (push a b s) = kpgdir s"
  "env (push a b s) = env s"
  by (simp_all add: push_def)

lemma pop_simps [simp]:
  "ptable (snd (pop a s)) = ptable s"
  "nextpid (snd (pop a s)) = nextpid s"
  "initproc (snd (pop a s)) = initproc s"
  "ticks (snd (pop a s)) = ticks s"
  "cpus (snd (pop a s)) = cpus s"
  "ncpu (snd (pop a s)) = ncpu s"
  "slices (snd (pop a s)) = slices s"
  "kpgdir (snd (pop a s)) = kpgdir s"
  "env (snd (pop a s)) = env s"
  by (simp_all add: pop_def Let_def)

lemma qremove_simps [simp]:
  "ptable (qremove i p s) = ptable s"
  "nextpid (qremove i p s) = nextpid s"
  "initproc (qremove i p s) = initproc s"
  "ticks (qremove i p s) = ticks s"
  "cpus (qremove i p s) = cpus s"
  "ncpu (qremove i p s) = ncpu s"
  "slices (qremove i p s) = slices s"
  "kpgdir (qremove i p s) = kpgdir s"
  "env (qremove i p s) = env s"
  "qsz (qremove i p s) = qsz s"
  "console (qremove i p s) = console s"
  by (simp_all add: qremove_def split: option.splits)

text \<open>A process is found by \<^verbatim>\<open>push\<close> when it is queued, or when the slot before an empty row holds it.\<close>

definition push_found :: "'e kst \<Rightarrow> nat \<Rightarrow> bool" where
  "push_found s b \<longleftrightarrow>
     (\<exists>i<NQUEUE. if ring s i = [] then qget s i (-1) = Some b else Some b \<in> set (ring s i))"

definition rings_ok :: "'e kst \<Rightarrow> bool" where
  "rings_ok s \<longleftrightarrow> (\<forall>i<NQUEUE. ring_ok s i)"

lemma push_cases:
  assumes "rings_ok s" "a < NQUEUE"
  shows "push a b s =
    (if ring s a = [] then push_yono a b s
     else if push_found s b then s
     else if length (ring s a) = NPROC then cprintf ''queue full\<newline>'' s
     else push_yono a b s)"
proof -
  have ok: "ring_ok s i" if "i < NQUEUE" for i using assms that by (simp add: rings_ok_def)
  have "list_ex (\<lambda>i. qscan s i (Some b)) [0..<NQUEUE] \<longleftrightarrow> push_found s b"
    unfolding push_found_def list_ex_iff using ok by (auto simp: qscan_iff)
  with ok [OF assms(2)] show ?thesis
    by (simp add: push_def ring_Nil_iff ring_full_iff)
qed

lemma pop_cases:
  assumes "ring_ok s a"
  shows "ring s a = [] \<Longrightarrow> pop a s = (None, cprintf ''can't pop from empty\<newline>'' s)"
    and "ring s a = x # xs \<Longrightarrow>
           fst (pop a s) = x \<and> ring (snd (pop a s)) a = xs \<and> ring_ok (snd (pop a s)) a"
proof -
  show "ring s a = [] \<Longrightarrow> pop a s = (None, cprintf ''can't pop from empty\<newline>'' s)"
    using assms by (simp add: ring_Nil_iff pop_def)
next
  assume c: "ring s a = x # xs"
  then have f: "qface s a \<noteq> -1" by (auto simp: ring_def)
  then have rng: "0 \<le> qface s a" "qface s a < int NPROC" "0 \<le> qback s a" "qback s a < int NPROC"
    using assms by (auto simp: ring_ok_def)
  show "fst (pop a s) = x \<and> ring (snd (pop a s)) a = xs \<and> ring_ok (snd (pop a s)) a"
  proof (cases "qface s a \<le> qback s a")
    case True
    then have sp: "[qface s a..qback s a] = qface s a # [qface s a + 1..qback s a]"
      by (simp add: upto_rec1)
    show ?thesis
    proof (cases "qface s a = qback s a")
      case True
      with c f rng show ?thesis by (auto simp: ring_def ring_ok_def pop_def Let_def)
    next
      case False
      with True rng have "(qface s a + 1) mod int NPROC = qface s a + 1" by simp
      with False True c f rng sp show ?thesis
        by (auto simp: ring_def ring_ok_def pop_def Let_def)
    qed
  next
    case False
    have sp: "[qface s a..int NPROC - 1] = qface s a # [qface s a + 1..int NPROC - 1]"
      using rng by (simp add: upto_rec1)
    show ?thesis
    proof (cases "qface s a = int NPROC - 1")
      case True
      then have "(qface s a + 1) mod int NPROC = 0" by simp
      with False True c f rng sp show ?thesis
        by (auto simp: ring_def ring_ok_def pop_def Let_def NPROC_def)
    next
      case nl: False
      then have "(qface s a + 1) mod int NPROC = qface s a + 1" using rng by simp
      with False nl c f rng sp show ?thesis
        by (auto simp: ring_def ring_ok_def pop_def Let_def)
    qed
  qed
qed

lemma pop_other:
  assumes "ring_ok s i" "i \<noteq> a"
  shows "ring (snd (pop a s)) i = ring s i \<and> ring_ok (snd (pop a s)) i"
  using assms by (auto simp: pop_def Let_def ring_ok_def intro!: ring_cong)

subsection \<open>remove\<close>

text \<open>The queue contents after the two shift loops of the wrapped case.\<close>

lemma shift_both_get:
  assumes m: "0 \<le> m" "m < f" and f: "f < int NPROC"
  shows "qget (shift_up i (int NPROC - 1) (f + 1) (shift_wrap i m s)) i j =
    (if f + 1 \<le> j \<and> j \<le> int NPROC - 1 then qget s i (j - 1)
     else if j = 0 then qget s i (int NPROC - 1)
     else if 1 \<le> j \<and> j \<le> m then qget s i (j - 1) else qget s i j)"
proof -
  have "m < int NPROC - 1" using m f by linarith
  note w = shift_wrap_eq [OF m(1) this, of i s]
  show ?thesis unfolding shift_up_get w using m f by (auto simp: shift_up_get)
qed

text \<open>The branches of \<^verbatim>\<open>remove\<close> for a process that is found.\<close>

lemma qremove_flat_eq:
  assumes "qface s i < qback s i" "find (\<lambda>j. qget s i j = Some p) [qface s i..qback s i] = Some m"
  shows "qremove i p s = bump_face i (shift_up i m (qface s i + 1) s)"
  using assms by (simp add: qremove_def)

lemma qremove_upper_eq:
  assumes "qback s i < qface s i"
    "find (\<lambda>j. qget s i j = Some p) [qface s i..int NPROC - 1] = Some m"
  shows "qremove i p s = bump_face i (shift_up i m (qface s i + 1) s)"
proof -
  from assms(2) have "qface s i \<le> m" by (simp add: find_upto_Some_iff)
  with assms show ?thesis by (simp add: qremove_def)
qed

lemma qremove_lower_eq:
  assumes "qback s i < qface s i"
    "find (\<lambda>j. qget s i j = Some p) [qface s i..int NPROC - 1] = None"
    "find (\<lambda>j. qget s i j = Some p) [0..qback s i] = Some m"
  shows "qremove i p s =
    bump_face i (shift_up i (int NPROC - 1) (qface s i + 1) (shift_wrap i m s))"
proof -
  from assms(1,3) have "m < qface s i" by (simp add: find_upto_Some_iff)
  with assms show ?thesis by (simp add: qremove_def)
qed

lemma ring_qremove_flat:
  assumes rng: "0 \<le> qface s i" "qface s i < qback s i" "qback s i < int NPROC"
    and fm: "find (\<lambda>j. qget s i j = Some p) [qface s i..qback s i] = Some m"
  shows "ring (qremove i p s) i = remove1 (Some p) (ring s i) \<and> ring_ok (qremove i p s) i"
proof -
  let ?f = "qface s i" and ?b = "qback s i" and ?q = "qget s i"
  let ?s = "shift_up i m (?f + 1) s"
  from fm have m: "?f \<le> m" "m \<le> ?b" "?q m = Some p" "\<And>j. ?f \<le> j \<Longrightarrow> j < m \<Longrightarrow> ?q j \<noteq> Some p"
    by (auto simp: find_upto_Some_iff)
  have "ring s i = map ?q [?f..?b]" using rng by (simp add: ring_def)
  then have rm: "remove1 (Some p) (ring s i) = map ?q [?f..m - 1] @ map ?q [m + 1..?b]"
    using remove1_map_upto [of ?f m ?b ?q "Some p"] m by simp
  have sp: "[?f + 1..?b] = [?f + 1..m] @ [m + 1..?b]"
    using m by (intro upto_split_at) auto
  have "map (qget ?s i) [?f + 1..m] = map (\<lambda>j. ?q (j - 1)) [?f + 1..m]"
    "map (qget ?s i) [m + 1..?b] = map ?q [m + 1..?b]"
    by (auto simp: shift_up_get)
  then have "map (qget ?s i) [?f + 1..?b] = map ?q [?f..m - 1] @ map ?q [m + 1..?b]"
    by (simp add: sp map_upto_shift)
  then show ?thesis
    using rng rm by (auto simp: qremove_flat_eq [OF rng(2) fm] ring_def ring_ok_def)
qed

lemma ring_qremove_upper:
  assumes rng: "0 \<le> qback s i" "qback s i < qface s i" "qface s i < int NPROC"
    and fm: "find (\<lambda>j. qget s i j = Some p) [qface s i..int NPROC - 1] = Some m"
  shows "ring (qremove i p s) i = remove1 (Some p) (ring s i) \<and> ring_ok (qremove i p s) i"
proof -
  let ?f = "qface s i" and ?b = "qback s i" and ?q = "qget s i" and ?n = "int NPROC - 1"
  let ?s = "shift_up i m (?f + 1) s"
  have r: "ring s i = map ?q [?f..?n] @ map ?q [0..?b]" using rng by (simp add: ring_def)
  have f': "(?f + 1) mod int NPROC = (if ?f = ?n then 0 else ?f + 1)" using rng by auto
  from fm have m: "?f \<le> m" "m \<le> ?n" "?q m = Some p" "\<And>j. ?f \<le> j \<Longrightarrow> j < m \<Longrightarrow> ?q j \<noteq> Some p"
    by (auto simp: find_upto_Some_iff)
  have "Some p \<in> set (map ?q [?f..?n])" using m by force
  then have rm: "remove1 (Some p) (ring s i) = (map ?q [?f..m - 1] @ map ?q [m + 1..?n]) @ map ?q [0..?b]"
    unfolding r remove1_append using remove1_map_upto [of ?f m ?n ?q "Some p"] m by simp
  have sp: "[?f + 1..?n] = [?f + 1..m] @ [m + 1..?n]"
    using m by (intro upto_split_at) auto
  have "map (qget ?s i) [?f + 1..m] = map (\<lambda>j. ?q (j - 1)) [?f + 1..m]"
    "map (qget ?s i) [m + 1..?n] = map ?q [m + 1..?n]" "map (qget ?s i) [0..?b] = map ?q [0..?b]"
    using rng by (auto simp: shift_up_get)
  then show ?thesis
    using rng f' rm m by (auto simp: qremove_upper_eq [OF rng(2) fm] ring_def ring_ok_def sp map_upto_shift)
qed

lemma ring_qremove_lower:
  assumes rng: "0 \<le> qback s i" "qback s i < qface s i" "qface s i < int NPROC"
    and none: "find (\<lambda>j. qget s i j = Some p) [qface s i..int NPROC - 1] = None"
    and fm: "find (\<lambda>j. qget s i j = Some p) [0..qback s i] = Some m"
  shows "ring (qremove i p s) i = remove1 (Some p) (ring s i) \<and> ring_ok (qremove i p s) i"
proof -
  let ?f = "qface s i" and ?b = "qback s i" and ?q = "qget s i" and ?n = "int NPROC - 1"
  let ?s = "shift_up i ?n (?f + 1) (shift_wrap i m s)"
  have r: "ring s i = map ?q [?f..?n] @ map ?q [0..?b]" using rng by (simp add: ring_def)
  have f': "(?f + 1) mod int NPROC = (if ?f = ?n then 0 else ?f + 1)" using rng by auto
  from none have nin: "Some p \<notin> set (map ?q [?f..?n])" by (force simp: find_None_iff)
  from fm have m: "0 \<le> m" "m \<le> ?b" "?q m = Some p" "\<And>j. 0 \<le> j \<Longrightarrow> j < m \<Longrightarrow> ?q j \<noteq> Some p"
    by (auto simp: find_upto_Some_iff)
  have rm: "remove1 (Some p) (ring s i) = map ?q [?f..?n] @ map ?q [0..m - 1] @ map ?q [m + 1..?b]"
    unfolding r remove1_append using nin remove1_map_upto [of 0 m ?b ?q "Some p"] m by simp
  note eq = qremove_lower_eq [OF rng(2) none fm]
  have mf: "m < ?f" using m rng by linarith
  note get = shift_both_get [OF m(1) mf rng(3), of i s]
  have "map (qget ?s i) [?f + 1..?n] = map (\<lambda>j. ?q (j - 1)) [?f + 1..?n]"
    by (auto simp: get)
  then have lo: "map (qget ?s i) [?f + 1..?n] = map ?q [?f..?n - 1]"
    by (simp only: map_upto_shift)
  have "[0 + 1..?b] = [0 + 1..m] @ [m + 1..?b]" using m by (intro upto_split_at) auto
  then have sp: "[0..?b] = 0 # [0 + 1..m] @ [m + 1..?b]"
    using m upto_rec1 [of 0 ?b] by simp
  have "map (qget ?s i) [0 + 1..m] = map (\<lambda>j. ?q (j - 1)) [0 + 1..m]"
    "map (qget ?s i) [m + 1..?b] = map ?q [m + 1..?b]"
    using rng m by (auto simp: get)
  then have hi: "map (qget ?s i) [0..?b] = ?q ?n # map ?q [0..m - 1] @ map ?q [m + 1..?b]"
    unfolding sp list.map map_append map_upto_shift using rng by (simp add: get)
  have "[?f..?n] = [?f..?n - 1] @ [?n]" using rng by (simp add: upto_rec2)
  with lo hi rm rng f' show ?thesis
    by (auto simp: eq ring_def ring_ok_def)
qed

lemma ring_qremove_wrapped:
  assumes rng: "0 \<le> qback s i" "qback s i < qface s i" "qface s i < int NPROC"
    and p: "Some p \<in> set (ring s i)"
  shows "ring (qremove i p s) i = remove1 (Some p) (ring s i) \<and> ring_ok (qremove i p s) i"
proof (cases "find (\<lambda>j. qget s i j = Some p) [qface s i..int NPROC - 1]")
  case None
  have "ring s i = map (qget s i) [qface s i..int NPROC - 1] @ map (qget s i) [0..qback s i]"
    using rng by (simp add: ring_def)
  with None p have "find (\<lambda>j. qget s i j = Some p) [0..qback s i] \<noteq> None"
    by (auto simp: find_None_iff)
  then obtain m where "find (\<lambda>j. qget s i j = Some p) [0..qback s i] = Some m" by blast
  with rng None show ?thesis by (rule ring_qremove_lower)
qed (use rng in \<open>simp add: ring_qremove_upper\<close>)

lemma ring_qremove:
  assumes ok: "ring_ok s i" and p: "Some p \<in> set (ring s i)"
  shows "ring (qremove i p s) i = remove1 (Some p) (ring s i) \<and> ring_ok (qremove i p s) i"
proof -
  from p have "qface s i \<noteq> -1" by (auto simp: ring_def)
  with ok have rng: "0 \<le> qface s i" "qface s i < int NPROC" "0 \<le> qback s i" "qback s i < int NPROC"
    by (auto simp: ring_ok_def)
  consider "qface s i = qback s i" | "qface s i < qback s i" | "qback s i < qface s i" by linarith
  then show ?thesis
  proof cases
    case 1
    with p rng show ?thesis by (auto simp: qremove_def ring_def ring_ok_def)
  next
    case 2
    with p rng have "find (\<lambda>j. qget s i j = Some p) [qface s i..qback s i] \<noteq> None"
      by (auto simp: ring_def find_None_iff)
    with 2 rng show ?thesis using ring_qremove_flat by blast
  next
    case 3
    with rng p show ?thesis by (intro ring_qremove_wrapped)
  qed
qed

lemma qremove_other:
  assumes "ring_ok s i" "ring_ok s a" "i \<noteq> a"
  shows "ring (qremove a p s) i = ring s i \<and> ring_ok (qremove a p s) i"
proof -
  have idx: "qface (qremove a p s) i = qface s i" "qback (qremove a p s) i = qback s i"
    using assms(3) by (auto simp: qremove_def split: option.splits)
  have "qget (qremove a p s) i j = qget s i j" if j: "0 \<le> j" "j < int NPROC" for j
  proof (cases "qface s a < 0")
    case True
    with assms(2) show ?thesis by (auto simp: ring_ok_def qremove_def)
  next
    case False
    with assms(2) have f: "0 \<le> qface s a" "qface s a < int NPROC" "qback s a < int NPROC"
      by (auto simp: ring_ok_def)
    have ne: "qslot i j \<noteq> qslot a 0" using assms(3) j by (simp add: qslot_inj)
    have "qget (shift_up a (int NPROC - 1) (qface s a + 1) (shift_wrap a m s)) i j = qget s i j"
      if "0 \<le> m" "m < qface s a" for m
      using that f assms(3) j ne
      by (simp add: shift_up_get_other shift_wrap_eq)
    with f assms(3) j show ?thesis
      by (auto simp: qremove_def shift_up_get_other find_upto_Some_iff split: option.splits)
  qed
  with assms idx show ?thesis
    by (intro conjI ring_cong) (simp_all add: ring_ok_def)
qed

text \<open>A removal from a queue with more than one element keeps \<^verbatim>\<open>back\<close>.\<close>

lemma qremove_back:
  assumes "ring_ok s i" "length (ring s i) \<noteq> 1"
  shows "qback (qremove i p s) i = qback s i"
proof -
  have "qface s i \<noteq> qback s i \<or> qface s i = -1"
    using assms by (auto simp: ring_def ring_ok_def split: if_splits)
  with assms(1) show ?thesis
    by (auto simp: qremove_def ring_ok_def split: option.splits)
qed

text \<open>The slot that lies \<open>d\<close> before \<^verbatim>\<open>back\<close> holds the element \<open>d\<close> from the end.\<close>

lemma ring_from_back:
  assumes ok: "ring_ok s i" and d: "d < length (ring s i)"
  shows "qget s i ((qback s i - int d) mod int NPROC) = ring s i ! (length (ring s i) - 1 - d)"
proof -
  from d have "qface s i \<noteq> -1" by (auto simp: ring_def)
  with ok have rng: "0 \<le> qface s i" "qface s i < int NPROC" "0 \<le> qback s i" "qback s i < int NPROC"
    by (auto simp: ring_ok_def)
  show ?thesis
  proof (cases "qface s i \<le> qback s i")
    case True
    then have r: "ring s i = map (qget s i) [qface s i..qback s i]" using rng by (simp add: ring_def)
    from d r have "int d \<le> qback s i - qface s i" by simp
    with rng have "(qback s i - int d) mod int NPROC = qback s i - int d" by simp
    with d show ?thesis unfolding r by (auto simp: nth_upto intro!: arg_cong [where f = "qget s i"])
  next
    case False
    then have r: "ring s i = map (qget s i) [qface s i..int NPROC - 1] @ map (qget s i) [0..qback s i]"
      using rng by (simp add: ring_def)
    show ?thesis
    proof (cases "int d \<le> qback s i")
      case True
      then have "(qback s i - int d) mod int NPROC = qback s i - int d" using rng by simp
      with True d False rng show ?thesis unfolding r
        by (auto simp: nth_append nth_upto intro!: arg_cong [where f = "qget s i"])
    next
      case d2: False
      from d r False rng have "int d < int NPROC - qface s i + qback s i + 1" by simp
      then have "(qback s i - int d + int NPROC) mod int NPROC = qback s i - int d + int NPROC"
        using d2 rng by (intro mod_pos_pos_trivial) auto
      then have "(qback s i - int d) mod int NPROC = qback s i - int d + int NPROC" by simp
      with d2 d False rng show ?thesis unfolding r
        by (auto simp: nth_append nth_upto intro!: arg_cong [where f = "qget s i"])
    qed
  qed
qed

text \<open>
  What \<^verbatim>\<open>remove\<close> writes: a slot keeps its pointer or takes that of an element queued
  before the removed process.
\<close>

lemma qremove_cell:
  assumes ok: "ring_ok s a" and p: "Some p \<in> set (ring s a)"
  shows "qget (qremove a p s) a j = qget s a j
       \<or> qget (qremove a p s) a j \<in> set (takeWhile (\<lambda>x. x \<noteq> Some p) (ring s a))"
proof -
  let ?f = "qface s a" and ?b = "qback s a" and ?q = "qget s a" and ?n = "int NPROC - 1"
  let ?T = "set (takeWhile (\<lambda>x. x \<noteq> Some p) (ring s a))"
  from p have f: "?f \<noteq> -1" by (auto simp: ring_def)
  with ok have rng: "0 \<le> ?f" "?f < int NPROC" "0 \<le> ?b" "?b < int NPROC" by (auto simp: ring_ok_def)
  consider (one) "?f = ?b"
    | (flat) m where "?f < ?b" "find (\<lambda>j. ?q j = Some p) [?f..?b] = Some m"
    | (upper) m where "?b < ?f" "find (\<lambda>j. ?q j = Some p) [?f..?n] = Some m"
    | (lower) m where "?b < ?f" "find (\<lambda>j. ?q j = Some p) [?f..?n] = None"
        "find (\<lambda>j. ?q j = Some p) [0..?b] = Some m"
    using p f by (fastforce simp: ring_def find_None_iff split: if_splits option.splits)
  then show ?thesis
  proof cases
    case one
    then show ?thesis by (simp add: qremove_def)
  next
    case flat
    then have r: "ring s a = map ?q [?f..?b] @ []" using rng by (simp add: ring_def)
    have "?T = ?q ` {?f..m - 1}"
      unfolding r using flat by (subst takeWhile_map_upto) (auto simp: find_upto_Some_iff)
    then show ?thesis by (auto simp: qremove_flat_eq [OF flat] shift_up_get)
  next
    case upper
    then have r: "ring s a = map ?q [?f..?n] @ map ?q [0..?b]" using rng by (simp add: ring_def)
    have "?T = ?q ` {?f..m - 1}"
      unfolding r using upper by (subst takeWhile_map_upto) (auto simp: find_upto_Some_iff)
    then show ?thesis by (auto simp: qremove_upper_eq [OF upper] shift_up_get)
  next
    case lower
    then have m: "0 \<le> m" "m < ?f" by (auto simp: find_upto_Some_iff)
    have "takeWhile (\<lambda>x. x \<noteq> Some p) (ring s a)
        = map ?q [?f..?n] @ takeWhile (\<lambda>x. x \<noteq> Some p) (map ?q [0..?b] @ [])"
      using lower rng by (simp add: ring_def, subst takeWhile_append2) (auto simp: find_None_iff)
    then have "?T = ?q ` {?f..?n} \<union> ?q ` {0..m - 1}"
      using lower by (subst (asm) takeWhile_map_upto [of 0 m]) (auto simp: find_upto_Some_iff)
    then show ?thesis using rng m by (auto simp: qremove_lower_eq [OF lower] shift_both_get)
  qed
qed

section \<open>The invariant of the five queues\<close>

definition queued :: "'e kst \<Rightarrow> nat \<Rightarrow> bool" where
  "queued s p \<longleftrightarrow> (\<exists>i<NQUEUE. Some p \<in> set (ring s i))"

text \<open>
  The indices are in range, the queues hold process slots, and no process is queued twice.
\<close>

definition mlfq_ok :: "'e kst \<Rightarrow> bool" where
  "mlfq_ok s \<longleftrightarrow> rings_ok s
     \<and> (\<forall>i<NQUEUE. \<forall>x\<in>set (ring s i). \<exists>p<NPROC. x = Some p)
     \<and> (\<forall>i<NQUEUE. distinct (ring s i))
     \<and> (\<forall>i<NQUEUE. \<forall>j<NQUEUE. i \<noteq> j \<longrightarrow> set (ring s i) \<inter> set (ring s j) = {})"

text \<open>
  A process is masked when one of the words in front of a row (the last slot of the row
  before, for rows 1 to 4) holds a pointer to it: \<^verbatim>\<open>push\<close> then mistakes it for queued
  while that row is empty.
\<close>

definition masked :: "'e kst \<Rightarrow> nat \<Rightarrow> bool" where
  "masked s p \<longleftrightarrow> (\<exists>i<NQUEUE. qget s i (-1) = Some p)"

lemma mlfq_okD:
  assumes "mlfq_ok s" "i < NQUEUE"
  shows "ring_ok s i" and "distinct (ring s i)"
    and "x \<in> set (ring s i) \<Longrightarrow> \<exists>p<NPROC. x = Some p"
    and "j < NQUEUE \<Longrightarrow> x \<in> set (ring s i) \<Longrightarrow> x \<in> set (ring s j) \<Longrightarrow> i = j"
  using assms unfolding mlfq_ok_def rings_ok_def by blast+

text \<open>A queue that lacks some process has room: there are only \<^verbatim>\<open>NPROC\<close> processes.\<close>

lemma ring_room:
  assumes "mlfq_ok s" "i < NQUEUE" "p < NPROC" "Some p \<notin> set (ring s i)"
  shows "length (ring s i) < NPROC"
proof -
  have "set (ring s i) \<subseteq> Some ` ({0..<NPROC} - {p})"
    using mlfq_okD(3) [OF assms(1,2)] assms(4) by fastforce
  then have "card (set (ring s i)) \<le> card (Some ` ({0..<NPROC} - {p}))"
    by (rule card_mono [rotated]) simp
  also have "\<dots> < NPROC" using assms(3) by (simp add: card_image)
  finally show ?thesis using distinct_card [OF mlfq_okD(2) [OF assms(1,2)]] by simp
qed

lemma push_found_iff:
  assumes "mlfq_ok s" "\<not> queued s b" "\<not> masked s b"
  shows "\<not> push_found s b"
  using assms unfolding push_found_def queued_def masked_def by auto

text \<open>A process that is neither queued nor masked is appended.\<close>

lemma push_appends:
  assumes ok: "mlfq_ok s" and a: "a < NQUEUE" "b < NPROC" and b: "\<not> queued s b"
    and m: "ring s a = [] \<or> \<not> masked s b"
  shows "push a b s = push_yono a b s"
proof -
  have "rings_ok s" using ok by (simp add: mlfq_ok_def)
  moreover have "length (ring s a) < NPROC"
    using b a by (intro ring_room [OF ok a(1,2)]) (auto simp: queued_def)
  ultimately show ?thesis
    using push_found_iff [OF ok b] m a by (auto simp: push_cases)
qed

lemma push_yono_ring_all:
  assumes ok: "mlfq_ok s" and a: "a < NQUEUE" "b < NPROC" and b: "\<not> queued s b" and i: "i < NQUEUE"
  shows "ring (push_yono a b s) i = (if i = a then ring s a @ [Some b] else ring s i)"
    and "ring_ok (push_yono a b s) i"
proof -
  have room: "length (ring s a) < NPROC"
    using b a by (intro ring_room [OF ok a(1,2)]) (auto simp: queued_def)
  show "ring (push_yono a b s) i = (if i = a then ring s a @ [Some b] else ring s i)"
    using ring_push_yono [OF mlfq_okD(1) [OF ok a(1)] room]
      ring_push_yono_other [OF mlfq_okD(1) [OF ok a(1)] mlfq_okD(1) [OF ok i]] by auto
  show "ring_ok (push_yono a b s) i"
    using ring_push_yono [OF mlfq_okD(1) [OF ok a(1)] room]
      ring_push_yono_other [OF mlfq_okD(1) [OF ok a(1)] mlfq_okD(1) [OF ok i]] by (cases "i = a") auto
qed

lemma mlfq_ok_push_yono:
  assumes ok: "mlfq_ok s" and a: "a < NQUEUE" "b < NPROC" and b: "\<not> queued s b"
  shows "mlfq_ok (push_yono a b s)"
  unfolding mlfq_ok_def rings_ok_def
  using push_yono_ring_all [OF ok a b] mlfq_okD [OF ok] b a
  by (auto simp: queued_def split: if_splits)

lemma mlfq_ok_push:
  assumes ok: "mlfq_ok s" and a: "a < NQUEUE" "b < NPROC" and b: "\<not> queued s b"
  shows "mlfq_ok (push a b s)"
proof -
  have "mlfq_ok (cprintf m s) = mlfq_ok s" for m by (simp add: mlfq_ok_def rings_ok_def)
  moreover have "rings_ok s" using ok by (simp add: mlfq_ok_def)
  ultimately show ?thesis
    using mlfq_ok_push_yono [OF ok a b] ok a by (simp add: push_cases)
qed

lemma qremove_ring_all:
  assumes ok: "mlfq_ok s" and a: "a < NQUEUE" and p: "Some p \<in> set (ring s a)" and i: "i < NQUEUE"
  shows "ring (qremove a p s) i = (if i = a then remove1 (Some p) (ring s a) else ring s i)"
    and "ring_ok (qremove a p s) i"
  using ring_qremove [OF mlfq_okD(1) [OF ok a] p]
    qremove_other [OF mlfq_okD(1) [OF ok i] mlfq_okD(1) [OF ok a]]
  by (cases "i = a"; simp)+

lemma mlfq_ok_qremove:
  assumes ok: "mlfq_ok s" and a: "a < NQUEUE" and p: "Some p \<in> set (ring s a)"
  shows "mlfq_ok (qremove a p s)" and "\<not> queued (qremove a p s) p"
proof -
  have sub: "set (ring (qremove a p s) i) \<subseteq> set (ring s i)" if "i < NQUEUE" for i
    using qremove_ring_all(1) [OF ok a p that] by (cases "i = a") (simp_all add: set_remove1_subset)
  have dis: "distinct (ring (qremove a p s) i)" if "i < NQUEUE" for i
    using qremove_ring_all(1) [OF ok a p that] mlfq_okD(2) [OF ok that] mlfq_okD(2) [OF ok a] by simp
  show "mlfq_ok (qremove a p s)"
    unfolding mlfq_ok_def rings_ok_def
    using sub dis qremove_ring_all(2) [OF ok a p] mlfq_okD(3,4) [OF ok] by (meson disjoint_iff subsetD)
  show "\<not> queued (qremove a p s) p"
    using qremove_ring_all(1) [OF ok a p] mlfq_okD(2,4) [OF ok _] p a
    by (auto simp: queued_def split: if_splits)
qed

lemma pop_ring_all:
  assumes ok: "mlfq_ok s" and a: "a < NQUEUE" and r: "ring s a = x # xs" and i: "i < NQUEUE"
  shows "ring (snd (pop a s)) i = (if i = a then xs else ring s i)"
    and "ring_ok (snd (pop a s)) i"
  using pop_cases(2) [OF mlfq_okD(1) [OF ok a] r] pop_other [OF mlfq_okD(1) [OF ok i]]
  by (cases "i = a"; simp)+

lemma mlfq_ok_pop:
  assumes ok: "mlfq_ok s" and a: "a < NQUEUE" and r: "ring s a = Some p # xs"
  shows "mlfq_ok (snd (pop a s))" and "\<not> queued (snd (pop a s)) p"
proof -
  have sub: "set (ring (snd (pop a s)) i) \<subseteq> set (ring s i)" if "i < NQUEUE" for i
    using pop_ring_all(1) [OF ok a r that] r by auto
  have dis: "distinct (ring (snd (pop a s)) i)" if "i < NQUEUE" for i
    using pop_ring_all(1) [OF ok a r that] mlfq_okD(2) [OF ok that] r by (auto split: if_splits)
  show "mlfq_ok (snd (pop a s))"
    unfolding mlfq_ok_def rings_ok_def
    using sub dis pop_ring_all(2) [OF ok a r] mlfq_okD(3,4) [OF ok] by (meson disjoint_iff subsetD)
  have "Some p \<notin> set xs" using mlfq_okD(2) [OF ok a] r by simp
  moreover have "Some p \<notin> set (ring s i)" if "i < NQUEUE" "i \<noteq> a" for i
    using mlfq_okD(4) [OF ok that(1) a, of "Some p"] that r by auto
  ultimately show "\<not> queued (snd (pop a s)) p"
    using pop_ring_all(1) [OF ok a r] by (auto simp: queued_def split: if_splits)
qed

text \<open>Masking under the operations.\<close>

lemma masked_push_yono:
  "masked (push_yono a b s) p \<Longrightarrow> p \<noteq> b \<Longrightarrow> masked s p"
  by (auto simp: masked_def push_yono_idx split: if_splits)

lemma qget_row: "qget s i j = qget s a (int NPROC * (int i - int a) + j)"
  by (simp add: qget_def qslot_def algebra_simps)

lemma masked_qremove:
  assumes ok: "mlfq_ok s" and a: "a < NQUEUE" and r: "ring s a = xs @ Some p # ys"
    and m: "masked (qremove a p s) p'" and nin: "Some p' \<notin> set xs"
  shows "masked s p'"
proof -
  from m obtain i where i: "i < NQUEUE" "qget (qremove a p s) i (-1) = Some p'"
    by (auto simp: masked_def)
  let ?j = "int NPROC * (int i - int a) + -1"
  have "Some p \<notin> set xs" using mlfq_okD(2) [OF ok a] r by auto
  then have "set (takeWhile (\<lambda>x. x \<noteq> Some p) (ring s a)) = set xs"
    unfolding r by (subst takeWhile_append2) auto
  moreover have "qget (qremove a p s) a ?j = Some p'" using i(2) qget_row by metis
  moreover have "Some p \<in> set (ring s a)" using r by simp
  ultimately have "qget s a ?j = Some p'"
    using qremove_cell [OF mlfq_okD(1) [OF ok a], of p ?j] nin by auto
  then have "qget s i (-1) = Some p'" using qget_row by metis
  with i(1) show ?thesis by (auto simp: masked_def)
qed

section \<open>The interface of the queues\<close>

text \<open>
  What a scheduler relies on: an array of queues of distinct elements, with enqueueing at
  the end of one queue, dequeueing at its front, and removal from the middle. \<open>admits\<close>
  tells when an enqueue takes effect.
\<close>

locale queue_array =
  fixes nq :: nat
    and items :: "'s \<Rightarrow> nat \<Rightarrow> 'p list"
    and invar :: "'s \<Rightarrow> bool"
    and elem :: "'p \<Rightarrow> bool"
    and admits :: "'s \<Rightarrow> nat \<Rightarrow> 'p \<Rightarrow> bool"
    and enq :: "nat \<Rightarrow> 'p \<Rightarrow> 's \<Rightarrow> 's"
    and deq :: "nat \<Rightarrow> 's \<Rightarrow> 'p option \<times> 's"
    and del :: "nat \<Rightarrow> 'p \<Rightarrow> 's \<Rightarrow> 's"
  assumes items_elem: "invar s \<Longrightarrow> i < nq \<Longrightarrow> p \<in> set (items s i) \<Longrightarrow> elem p"
    and items_distinct: "invar s \<Longrightarrow> i < nq \<Longrightarrow> distinct (items s i)"
    and items_disjoint: "invar s \<Longrightarrow> i < nq \<Longrightarrow> j < nq \<Longrightarrow> p \<in> set (items s i) \<Longrightarrow> p \<in> set (items s j) \<Longrightarrow> i = j"
    and enq_items: "invar s \<Longrightarrow> a < nq \<Longrightarrow> elem p \<Longrightarrow> admits s a p \<Longrightarrow> \<forall>i<nq. p \<notin> set (items s i) \<Longrightarrow> i < nq \<Longrightarrow>
      items (enq a p s) i = (if i = a then items s a @ [p] else items s i)"
    and enq_invar: "invar s \<Longrightarrow> a < nq \<Longrightarrow> elem p \<Longrightarrow> \<forall>i<nq. p \<notin> set (items s i) \<Longrightarrow> invar (enq a p s)"
    and deq_items: "invar s \<Longrightarrow> a < nq \<Longrightarrow> items s a = p # ps \<Longrightarrow>
      fst (deq a s) = Some p \<and> (\<forall>i<nq. items (snd (deq a s)) i = (if i = a then ps else items s i))"
    and deq_empty: "invar s \<Longrightarrow> a < nq \<Longrightarrow> items s a = [] \<Longrightarrow> fst (deq a s) = None"
    and deq_invar: "invar s \<Longrightarrow> a < nq \<Longrightarrow> items s a \<noteq> [] \<Longrightarrow> invar (snd (deq a s))"
    and del_items: "invar s \<Longrightarrow> a < nq \<Longrightarrow> p \<in> set (items s a) \<Longrightarrow> i < nq \<Longrightarrow>
      items (del a p s) i = (if i = a then remove1 p (items s a) else items s i)"
    and del_invar: "invar s \<Longrightarrow> a < nq \<Longrightarrow> p \<in> set (items s a) \<Longrightarrow> invar (del a p s)"
begin

definition everything :: "'s \<Rightarrow> 'p multiset" where
  "everything s = (\<Sum>i<nq. mset (items s i))"

lemma everything_split: "i < nq \<Longrightarrow> everything s = mset (items s i) + (\<Sum>k\<in>{..<nq} - {i}. mset (items s k))"
  unfolding everything_def by (subst sum.remove [of _ i]) auto

lemma everything_upd:
  assumes "i < nq" "\<And>k. k < nq \<Longrightarrow> k \<noteq> i \<Longrightarrow> items t k = items s k"
  shows "everything t + mset (items s i) = everything s + mset (items t i)"
proof -
  have "(\<Sum>k\<in>{..<nq} - {i}. mset (items t k)) = (\<Sum>k\<in>{..<nq} - {i}. mset (items s k))"
    using assms(2) by (intro sum.cong) auto
  then show ?thesis by (simp add: everything_split [OF assms(1)])
qed

text \<open>Moving an element between queues loses and duplicates nothing.\<close>

lemma move_items:
  assumes "invar s" "i < nq" "a < nq" "i \<noteq> a" "p \<in> set (items s i)" "admits (del i p s) a p"
  shows "items (enq a p (del i p s)) i = remove1 p (items s i)"
    and "items (enq a p (del i p s)) a = items s a @ [p]"
    and "invar (enq a p (del i p s))"
    and "everything (enq a p (del i p s)) = everything s"
proof -
  let ?t = "del i p s"
  have t: "invar ?t" using assms by (simp add: del_invar)
  have el: "elem p" using assms items_elem by blast
  have nin: "\<forall>k<nq. p \<notin> set (items ?t k)"
    using del_items [OF assms(1,2,5)] items_distinct [OF assms(1,2)] items_disjoint [OF assms(1,2)] assms(5)
    by (auto split: if_splits)
  note e = enq_items [OF t assms(3) el assms(6) nin]
  show 1: "items (enq a p ?t) i = remove1 p (items s i)" "items (enq a p ?t) a = items s a @ [p]"
    using e del_items [OF assms(1,2,5)] assms by auto
  show "invar (enq a p ?t)" using enq_invar [OF t assms(3) el nin] .
  have "everything (enq a p ?t) + mset (items ?t a) = everything ?t + mset (items (enq a p ?t) a)"
    using e assms(3) by (intro everything_upd) auto
  then have "everything (enq a p ?t) = add_mset p (everything ?t)" using e assms(3) by simp
  moreover have "everything ?t + mset (items s i) = everything s + mset (items ?t i)"
    using del_items [OF assms(1,2,5)] assms(2) by (intro everything_upd) auto
  moreover have "mset (items s i) = add_mset p (mset (items ?t i))"
    using del_items [OF assms(1,2,5)] assms(2,5) by simp
  ultimately show "everything (enq a p ?t) = everything s" by simp
qed

text \<open>What is dequeued from a queue comes from its front, and nothing else leaves.\<close>

lemma deq_everything:
  assumes "invar s" "a < nq" "items s a = p # ps"
  shows "everything s = add_mset p (everything (snd (deq a s)))"
proof -
  have "everything (snd (deq a s)) + mset (items s a) = everything s + mset (items (snd (deq a s)) a)"
    using deq_items [OF assms] assms(2) by (intro everything_upd) auto
  with deq_items [OF assms] assms show ?thesis by auto
qed

end

text \<open>The slots of a queue, as process numbers.\<close>

definition qlist :: "'e kst \<Rightarrow> nat \<Rightarrow> nat list" where
  "qlist s i = map the (ring s i)"

definition push_admits :: "'e kst \<Rightarrow> nat \<Rightarrow> nat \<Rightarrow> bool" where
  "push_admits s a p \<longleftrightarrow> ring s a = [] \<or> \<not> masked s p"

text \<open>Everything about the queues is a function of the three arrays.\<close>

lemma queue_view:
  assumes "qface t = qface s" "qback t = qback s" "queue t = queue s"
  shows "ring t = ring s" "qlist t = qlist s" "mlfq_ok t = mlfq_ok s" "masked t = masked s"
    "queued t = queued s"
proof -
  have g: "qget t = qget s" using assms by (simp add: qget_def fun_eq_iff)
  show r: "ring t = ring s" using assms by (simp add: ring_def g fun_eq_iff)
  then show "qlist t = qlist s" "queued t = queued s" by (simp_all add: qlist_def queued_def fun_eq_iff)
  show "masked t = masked s" by (simp add: masked_def g fun_eq_iff)
  have "rings_ok t = rings_ok s" using assms by (simp add: rings_ok_def ring_ok_def)
  with r show "mlfq_ok t = mlfq_ok s" by (simp add: mlfq_ok_def)
qed

lemma queue_view_simps [simp]:
  "qlist (upd_proc p f s) = qlist s" "mlfq_ok (upd_proc p f s) = mlfq_ok s"
  "masked (upd_proc p f s) = masked s" "queued (upd_proc p f s) = queued s"
  "qlist (upd_cpu c g s) = qlist s" "mlfq_ok (upd_cpu c g s) = mlfq_ok s"
  "masked (upd_cpu c g s) = masked s" "queued (upd_cpu c g s) = queued s"
  "qlist (cprintf m s) = qlist s" "mlfq_ok (cprintf m s) = mlfq_ok s"
  "masked (cprintf m s) = masked s" "queued (cprintf m s) = queued s"
  by (rule queue_view; simp)+

lemma push_admits_upd [simp]: "push_admits (upd_proc p f s) = push_admits s"
  by (simp add: push_admits_def fun_eq_iff)

lemma ring_qlist: "mlfq_ok s \<Longrightarrow> i < NQUEUE \<Longrightarrow> ring s i = map Some (qlist s i)"
  unfolding qlist_def using mlfq_okD(3) by (fastforce intro: map_idI [symmetric])

lemma in_qlist_iff: "mlfq_ok s \<Longrightarrow> i < NQUEUE \<Longrightarrow> p \<in> set (qlist s i) \<longleftrightarrow> Some p \<in> set (ring s i)"
  by (simp add: ring_qlist image_iff)

lemma not_queued_iff: "mlfq_ok s \<Longrightarrow> \<not> queued s p \<longleftrightarrow> (\<forall>i<NQUEUE. p \<notin> set (qlist s i))"
  by (auto simp: queued_def in_qlist_iff)

lemma map_Some_remove1: "map Some (remove1 p xs) = remove1 (Some p) (map Some xs)"
  by (induction xs) auto

lemma push_qlist:
  assumes "mlfq_ok s" "a < NQUEUE" "p < NPROC" "push_admits s a p" "\<not> queued s p" "i < NQUEUE"
  shows "qlist (push a p s) i = (if i = a then qlist s a @ [p] else qlist s i)"
proof -
  have "push a p s = push_yono a p s" using assms by (intro push_appends) (auto simp: push_admits_def)
  then show ?thesis using push_yono_ring_all(1) [OF assms(1,2,3,5,6)] by (simp add: qlist_def)
qed

lemma pop_qlist:
  assumes ok: "mlfq_ok s" and a: "a < NQUEUE" and q: "qlist s a = p # ps"
  shows "fst (pop a s) = Some p" and "i < NQUEUE \<Longrightarrow> qlist (snd (pop a s)) i = (if i = a then ps else qlist s i)"
    and "mlfq_ok (snd (pop a s))" and "\<not> queued (snd (pop a s)) p"
proof -
  have r: "ring s a = Some p # map Some ps" using ring_qlist [OF ok a] q by simp
  show "fst (pop a s) = Some p" using pop_cases(2) [OF mlfq_okD(1) [OF ok a] r] by simp
  show "i < NQUEUE \<Longrightarrow> qlist (snd (pop a s)) i = (if i = a then ps else qlist s i)"
    using pop_ring_all(1) [OF ok a r] by (simp add: qlist_def comp_def)
  show "mlfq_ok (snd (pop a s))" "\<not> queued (snd (pop a s)) p" by (rule mlfq_ok_pop [OF ok a r])+
qed

lemma qremove_qlist:
  assumes ok: "mlfq_ok s" and a: "a < NQUEUE" and p: "p \<in> set (qlist s a)" and i: "i < NQUEUE"
  shows "qlist (qremove a p s) i = (if i = a then remove1 p (qlist s a) else qlist s i)"
proof -
  have p': "Some p \<in> set (ring s a)" using p by (simp add: in_qlist_iff [OF ok a])
  have "ring (qremove a p s) i = map Some (if i = a then remove1 p (qlist s a) else qlist s i)"
    using qremove_ring_all(1) [OF ok a p' i] ring_qlist [OF ok a] ring_qlist [OF ok i]
    by (simp add: map_Some_remove1)
  then show ?thesis by (subst qlist_def) (simp add: comp_def)
qed

interpretation mlfq: queue_array NQUEUE qlist mlfq_ok "\<lambda>p. p < NPROC" push_admits push pop qremove
proof
  fix s :: "'a kst" and i j a p ps
  assume ok: "mlfq_ok s"
  show "i < NQUEUE \<Longrightarrow> p \<in> set (qlist s i) \<Longrightarrow> p < NPROC"
    using mlfq_okD(3) [OF ok] by (auto simp: in_qlist_iff ok)
  show "i < NQUEUE \<Longrightarrow> distinct (qlist s i)"
    using mlfq_okD(2) [OF ok] by (simp add: ring_qlist ok distinct_map)
  show "i < NQUEUE \<Longrightarrow> j < NQUEUE \<Longrightarrow> p \<in> set (qlist s i) \<Longrightarrow> p \<in> set (qlist s j) \<Longrightarrow> i = j"
    using mlfq_okD(4) [OF ok] by (auto simp: in_qlist_iff ok)
  show "a < NQUEUE \<Longrightarrow> p < NPROC \<Longrightarrow> push_admits s a p \<Longrightarrow> \<forall>i<NQUEUE. p \<notin> set (qlist s i) \<Longrightarrow> i < NQUEUE \<Longrightarrow>
    qlist (push a p s) i = (if i = a then qlist s a @ [p] else qlist s i)"
    using push_qlist [OF ok] not_queued_iff [OF ok] by blast
  show "a < NQUEUE \<Longrightarrow> p < NPROC \<Longrightarrow> \<forall>i<NQUEUE. p \<notin> set (qlist s i) \<Longrightarrow> mlfq_ok (push a p s)"
    using mlfq_ok_push [OF ok] not_queued_iff [OF ok] by blast
  show "a < NQUEUE \<Longrightarrow> qlist s a = p # ps \<Longrightarrow> fst (pop a s) = Some p \<and>
    (\<forall>i<NQUEUE. qlist (snd (pop a s)) i = (if i = a then ps else qlist s i))"
    using pop_qlist [OF ok] by blast
  show "a < NQUEUE \<Longrightarrow> qlist s a = [] \<Longrightarrow> fst (pop a s) = None"
    using ring_qlist [OF ok] pop_cases(1) [OF mlfq_okD(1) [OF ok]] by simp
  show "a < NQUEUE \<Longrightarrow> qlist s a \<noteq> [] \<Longrightarrow> mlfq_ok (snd (pop a s))"
    using pop_qlist(3) [OF ok] by (cases "qlist s a") auto
  show "a < NQUEUE \<Longrightarrow> p \<in> set (qlist s a) \<Longrightarrow> i < NQUEUE \<Longrightarrow>
    qlist (qremove a p s) i = (if i = a then remove1 p (qlist s a) else qlist s i)"
    by (rule qremove_qlist [OF ok])
  show "a < NQUEUE \<Longrightarrow> p \<in> set (qlist s a) \<Longrightarrow> mlfq_ok (qremove a p s)"
    using mlfq_ok_qremove(1) [OF ok] by (simp add: in_qlist_iff [OF ok])
qed

section \<open>The queues at boot\<close>

lemma main_queues_fields:
  "i < NQUEUE \<Longrightarrow> qface (main_queues s) i = -1 \<and> qback (main_queues s) i = -1"
  "ptable (main_queues s) = ptable s" "queue (main_queues s) = queue s" "cpus (main_queues s) = cpus s"
  "nextpid (main_queues s) = nextpid s" "initproc (main_queues s) = initproc s" "ncpu (main_queues s) = ncpu s"
  "env (main_queues s) = env s" "ticks (main_queues s) = ticks s" "kpgdir (main_queues s) = kpgdir s"
  "slices (main_queues s) = init_slices"
  by (auto simp: main_queues_def init_queue_def NQUEUE_def upt_rec numeral_eq_Suc less_Suc_eq)

lemma main_queues_ok: "mlfq_ok (main_queues s)" and main_queues_empty: "i < NQUEUE \<Longrightarrow> qlist (main_queues s) i = []"
proof -
  have r: "ring (main_queues s) i = []" "ring_ok (main_queues s) i" if "i < NQUEUE" for i
    using main_queues_fields(1) [OF that] by (auto simp: ring_def ring_ok_def)
  then show "mlfq_ok (main_queues s)" by (simp add: mlfq_ok_def rings_ok_def)
  show "i < NQUEUE \<Longrightarrow> qlist (main_queues s) i = []" using r by (simp add: qlist_def)
qed

text \<open>A process that is in no queue can always be pushed to an empty queue.\<close>

lemma push_to_empty:
  assumes "mlfq_ok s" "a < NQUEUE" "p < NPROC" "\<not> queued s p" "qlist s a = []"
  shows "mlfq_ok (push a p s)" "qlist (push a p s) a = [p]" "\<And>i. i < NQUEUE \<Longrightarrow> i \<noteq> a \<Longrightarrow> qlist (push a p s) i = qlist s i"
proof -
  have "push_admits s a p" using assms ring_qlist [of s a] by (simp add: push_admits_def)
  then show "qlist (push a p s) a = [p]" "\<And>i. i < NQUEUE \<Longrightarrow> i \<noteq> a \<Longrightarrow> qlist (push a p s) i = qlist s i"
    using push_qlist [of s a p] assms by simp_all
  show "mlfq_ok (push a p s)" using mlfq_ok_push assms by blast
qed

text \<open>The kernel after \<^verbatim>\<open>main()\<close> has set up the queues, with one process pushed to queue 1.\<close>

definition boot1 :: "unit kst" where
  "boot1 = push 1 7 (main_queues (load_kernel 1 0 ()))"

lemma boot1_facts:
  "mlfq_ok boot1" "qlist boot1 1 = [7]" "i < NQUEUE \<Longrightarrow> i \<noteq> 1 \<Longrightarrow> qlist boot1 i = []"
  "queued boot1 p \<longleftrightarrow> p = 7"
proof -
  let ?m = "main_queues (load_kernel 1 0 ())"
  have nq: "\<not> queued ?m 7"
    by (simp add: not_queued_iff main_queues_ok main_queues_empty)
  note p = push_to_empty [OF main_queues_ok _ _ nq main_queues_empty, of 1]
  show ok: "mlfq_ok boot1" and one: "qlist boot1 1 = [7]"
    using p by (simp_all add: boot1_def NQUEUE_def NPROC_def)
  show oth: "qlist boot1 i = []" if "i < NQUEUE" "i \<noteq> 1" for i
    using p(3) [of i] main_queues_empty [OF that(1)] that by (simp add: boot1_def NQUEUE_def NPROC_def)
  have "queued boot1 p \<longleftrightarrow> (\<exists>i<NQUEUE. p \<in> set (qlist boot1 i))"
    using not_queued_iff [OF ok, of p] by blast
  also have "\<dots> \<longleftrightarrow> p \<in> set (qlist boot1 1)" 
    using oth by (metis NQUEUE_def empty_iff list.set(1) one_less_numeral_iff semiring_norm(77))
  finally show "queued boot1 p \<longleftrightarrow> p = 7" using one by simp
qed

lemma boot1_cells: "\<not> masked boot1 p"
proof -
  let ?m = "main_queues (load_kernel 1 0 ())"
  have m: "qface ?m 1 = -1" "qback ?m 1 = -1" using main_queues_fields(1) [of 1 "load_kernel 1 0 ()"] by (simp_all add: NQUEUE_def)
  have b: "boot1 = push_yono 1 7 ?m" unfolding boot1_def push_def m(1) by simp
  have "qget ?m i j = None" for i j by (simp add: qget_def main_queues_fields load_kernel_def)
  moreover have "qslot i (-1) \<noteq> qslot 1 ((qback ?m 1 + 1) mod int NPROC)" for i
    unfolding m(2) by (simp add: qslot_def NPROC_def) presburger
  ultimately show ?thesis unfolding masked_def b push_yono_idx by simp
qed

section \<open>Correctness of the operations\<close>

text \<open>C1: pushing a process that is in no queue appends it to its queue, leaves the other
  queues as they were and keeps the invariant, provided the queue is empty or no stale
  pointer to the process sits in front of a row.\<close>

theorem push_enqueues:
  assumes "mlfq_ok s" "a < NQUEUE" "p < NPROC" "\<not> queued s p" "push_admits s a p"
  shows "mlfq_ok (push a p s) \<and> qlist (push a p s) a = qlist s a @ [p]
    \<and> (\<forall>i<NQUEUE. i \<noteq> a \<longrightarrow> qlist (push a p s) i = qlist s i)
    \<and> waittime (ptable (push a p s) p) = 0 \<and> curtime (ptable (push a p s) p) = 0"
proof -
  have "push a p s = push_yono a p s"
    using assms by (intro push_appends) (auto simp: push_admits_def)
  then have "waittime (ptable (push a p s) p) = 0 \<and> curtime (ptable (push a p s) p) = 0" by simp
  moreover have "mlfq_ok (push a p s)" using assms mlfq_ok_push by blast
  ultimately show ?thesis using assms push_qlist [of s a p] by simp
qed

theorem push_enqueues_witness: "qlist (push 1 9 boot1) 1 = [7, 9] \<and> mlfq_ok (push 1 9 boot1)"
  using push_enqueues [of boot1 1 9] boot1_facts boot1_cells
  by (simp add: NQUEUE_def NPROC_def push_admits_def)

text \<open>C2: popping a queue returns its oldest process and leaves the rest in order; popping
  an empty queue returns the null pointer and says so on the console.\<close>

theorem pop_dequeues:
  assumes "mlfq_ok s" "a < NQUEUE"
  shows "case qlist s a of
      [] \<Rightarrow> pop a s = (None, cprintf ''can't pop from empty\<newline>'' s)
    | p # ps \<Rightarrow> fst (pop a s) = Some p \<and> qlist (snd (pop a s)) a = ps \<and> mlfq_ok (snd (pop a s))
        \<and> \<not> queued (snd (pop a s)) p \<and> (\<forall>i<NQUEUE. i \<noteq> a \<longrightarrow> qlist (snd (pop a s)) i = qlist s i)"
proof (cases "qlist s a")
  case Nil
  then have "ring s a = []" using ring_qlist [OF assms] by simp
  then show ?thesis using Nil pop_cases(1) [OF mlfq_okD(1) [OF assms]] by simp
next
  case (Cons p ps)
  then show ?thesis using pop_qlist [OF assms Cons] assms by simp
qed

theorem pop_dequeues_witness: "fst (pop 1 boot1) = Some 7 \<and> qlist (snd (pop 1 boot1)) 1 = []"
  using pop_dequeues [of boot1 1] boot1_facts by (simp add: NQUEUE_def)

text \<open>C3: removing a queued process takes exactly that process out of its queue, from the
  front, the middle or the end, wrapped around the array or not, and keeps the order of the
  others.\<close>

theorem remove_removes:
  assumes "mlfq_ok s" "a < NQUEUE" "p \<in> set (qlist s a)"
  shows "qlist (qremove a p s) a = removeAll p (qlist s a) \<and> \<not> queued (qremove a p s) p
    \<and> mlfq_ok (qremove a p s) \<and> (\<forall>i<NQUEUE. i \<noteq> a \<longrightarrow> qlist (qremove a p s) i = qlist s i)"
  using distinct_remove1_removeAll [OF mlfq.items_distinct [OF assms(1,2)]]
    qremove_qlist [OF assms] mlfq_ok_qremove [OF assms(1,2)] assms by (simp add: in_qlist_iff)

theorem remove_removes_witness: "qlist (qremove 1 7 boot1) 1 = [] \<and> mlfq_ok (qremove 1 7 boot1)"
  using remove_removes [of boot1 1 7] boot1_facts by (simp add: NQUEUE_def)

end
