(* ===== verification/Spinlock.thy ===== *)
theory Spinlock
  imports Prelude
begin

text \<open>
  Spin locks (\<^verbatim>\<open>spinlock.c\<close>): the lock word and its owner, the nesting of
  \<^verbatim>\<open>pushcli\<close> and \<^verbatim>\<open>popcli\<close>, and the interrupt flag of each CPU, with every panic of
  \<^verbatim>\<open>acquire\<close>, \<^verbatim>\<open>release\<close>, \<^verbatim>\<open>holding\<close> and \<^verbatim>\<open>popcli\<close>. The process layer uses it for
  the checks that \<^verbatim>\<open>sched\<close> makes before it switches.

  The name of a lock and the call stack it records are for debugging and are left out. The
  spinning on a lock that another CPU holds is the result \<open>Inl ''spins''\<close>: the caller does
  not get on before the other CPU has acted.
\<close>

section \<open>Locks and CPUs\<close>

record spinlock =
  lk_locked :: bool
  lk_cpu :: "nat option"

text \<open>The locks by address: \<^verbatim>\<open>ptable.lock\<close>, \<^verbatim>\<open>tickslock\<close>, and those of the other layers.\<close>

datatype lockid = Ptable_lock | Tickslock | Lock_at u32

text \<open>
  \<open>ncli\<close> and \<open>intena\<close> are the fields of \<^verbatim>\<open>struct cpu\<close>; \<open>eflags_if\<close> is the bit
  \<^verbatim>\<open>FL_IF\<close> of the flags register of a CPU.
\<close>

record lockst =
  lk :: "lockid \<Rightarrow> spinlock"
  ncli :: "nat \<Rightarrow> int"
  intena :: "nat \<Rightarrow> bool"
  eflags_if :: "nat \<Rightarrow> bool"

definition initlock :: "lockid \<Rightarrow> lockst \<Rightarrow> lockst" where
  "initlock l L = L\<lparr>lk := (lk L)(l := \<lparr>lk_locked = False, lk_cpu = None\<rparr>)\<rparr>"

text \<open>The check of \<^verbatim>\<open>mycpu\<close>; the CPU itself is the argument \<open>c\<close> of every operation.\<close>

definition mycpu :: "nat \<Rightarrow> lockst \<Rightarrow> nat kres" where
  "mycpu c L = (if eflags_if L c then Inl ''mycpu called with interrupts enabled\<newline>'' else Inr c)"

definition pushcli :: "nat \<Rightarrow> lockst \<Rightarrow> lockst" where
  "pushcli c L =
     (let eflags = eflags_if L c;
          L = L\<lparr>eflags_if := (eflags_if L)(c := False)\<rparr>;
          L = (if ncli L c = 0 then L\<lparr>intena := (intena L)(c := eflags)\<rparr> else L)
      in L\<lparr>ncli := (ncli L)(c := ncli L c + 1)\<rparr>)"

definition popcli :: "nat \<Rightarrow> lockst \<Rightarrow> lockst kres" where
  "popcli c L =
     (if eflags_if L c then Inl ''popcli - interruptible''
      else
        let L = L\<lparr>ncli := (ncli L)(c := ncli L c - 1)\<rparr>
        in if ncli L c < 0 then Inl ''popcli''
           else if ncli L c = 0 \<and> intena L c then Inr (L\<lparr>eflags_if := (eflags_if L)(c := True)\<rparr>)
           else Inr L)"

definition holding :: "nat \<Rightarrow> lockid \<Rightarrow> lockst \<Rightarrow> (bool \<times> lockst) kres" where
  "holding c l L =
     (let L = pushcli c L; r = (lk_locked (lk L l) \<and> lk_cpu (lk L l) = Some c)
      in and_then (popcli c L) (\<lambda>L. Inr (r, L)))"

definition acquire :: "nat \<Rightarrow> lockid \<Rightarrow> lockst \<Rightarrow> lockst kres" where
  "acquire c l L =
     and_then (holding c l (pushcli c L)) (\<lambda>(h, L).
       if h then Inl ''acquire''
       else if lk_locked (lk L l) then Inl ''spins''
       else and_then (mycpu c L) (\<lambda>c. Inr (L\<lparr>lk := (lk L)(l := \<lparr>lk_locked = True, lk_cpu = Some c\<rparr>)\<rparr>)))"

definition release :: "nat \<Rightarrow> lockid \<Rightarrow> lockst \<Rightarrow> lockst kres" where
  "release c l L =
     and_then (holding c l L) (\<lambda>(h, L).
       if \<not> h then Inl ''release''
       else popcli c (L\<lparr>lk := (lk L)(l := \<lparr>lk_locked = False, lk_cpu = None\<rparr>)\<rparr>))"

section \<open>What they do\<close>

text \<open>CPU \<open>c\<close> holds the lock \<open>l\<close> and no other, with interrupts off.\<close>

definition only_lock :: "nat \<Rightarrow> lockid \<Rightarrow> lockst \<Rightarrow> bool" where
  "only_lock c l L \<longleftrightarrow> lk L l = \<lparr>lk_locked = True, lk_cpu = Some c\<rparr> \<and> ncli L c = 1 \<and> \<not> eflags_if L c"

text \<open>No CPU holds a lock; \<open>b\<close> tells whether interrupts are on.\<close>

definition no_locks :: "bool \<Rightarrow> lockst" where
  "no_locks b = \<lparr>lk = (\<lambda>_. \<lparr>lk_locked = False, lk_cpu = None\<rparr>), ncli = (\<lambda>_. 0), intena = (\<lambda>_. False), eflags_if = (\<lambda>_. b)\<rparr>"

lemma no_locks_simps [simp]: "ncli (no_locks b) c = 0" "\<not> lk_locked (lk (no_locks b) l)"
  by (simp_all add: no_locks_def)

lemma pushcli_simps [simp]:
  "lk (pushcli c L) = lk L" "ncli (pushcli c L) = (ncli L)(c := ncli L c + 1)" "eflags_if (pushcli c L) = (eflags_if L)(c := False)"
  "intena (pushcli c L) = (if ncli L c = 0 then (intena L)(c := eflags_if L c) else intena L)"
  by (simp_all add: pushcli_def Let_def)

text \<open>Matched calls leave the interrupts as they were.\<close>

lemma pop_push:
  assumes "0 \<le> ncli L c"
  shows "\<exists>M. popcli c (pushcli c L) = Inr M \<and> lk M = lk L \<and> ncli M = ncli L
    \<and> (0 < ncli L c \<longrightarrow> eflags_if M = (eflags_if L)(c := False)) \<and> (ncli L c = 0 \<longrightarrow> eflags_if M = eflags_if L)"
  using assms by (auto simp: popcli_def Let_def fun_upd_idem_iff)

lemma holding_inside:
  assumes "0 < ncli L c" "\<not> eflags_if L c"
  shows "holding c l L = Inr (lk_locked (lk L l) \<and> lk_cpu (lk L l) = Some c, L)"
  using assms by (simp add: holding_def popcli_def pushcli_def Let_def fun_upd_idem_iff)

lemma acquire_free:
  assumes "0 \<le> ncli L c" "\<not> lk_locked (lk L l)"
  shows "acquire c l L = Inr ((pushcli c L)\<lparr>lk := (lk L)(l := \<lparr>lk_locked = True, lk_cpu = Some c\<rparr>)\<rparr>)"
  using assms by (simp add: acquire_def holding_inside mycpu_def)

lemma acquire_twice: "only_lock c l L \<Longrightarrow> acquire c l L = Inl ''acquire''"
  by (simp add: acquire_def only_lock_def holding_inside)

lemma acquire_only: "ncli L c = 0 \<Longrightarrow> \<not> lk_locked (lk L l) \<Longrightarrow> \<exists>K. acquire c l L = Inr K \<and> only_lock c l K"
  by (simp add: acquire_free only_lock_def)

lemma release_only:
  assumes "only_lock c l L"
  shows "\<exists>M. release c l L = Inr M \<and> ncli M c = 0 \<and> \<not> lk_locked (lk M l) \<and> eflags_if M c = intena L c
    \<and> lk M = (lk L)(l := \<lparr>lk_locked = False, lk_cpu = None\<rparr>)"
  using assms by (auto simp: release_def only_lock_def holding_inside popcli_def Let_def)

lemma entry_lock:
  obtains L where "acquire c l (no_locks b) = Inr L" "only_lock c l L" "\<exists>M. release c l L = Inr M"
proof -
  obtain L where L: "acquire c l (no_locks b) = Inr L" "only_lock c l L" using acquire_only [of "no_locks b" c l] by auto
  show thesis by (rule that [OF L]) (use release_only [OF L(2)] in blast)
qed

text \<open>A critical section gives back the interrupt flag it found.\<close>

lemma acquire_release:
  assumes "ncli L c = 0" "\<not> lk_locked (lk L l)"
  shows "\<exists>K M. acquire c l L = Inr K \<and> release c l K = Inr M \<and> ncli M c = 0 \<and> eflags_if M c = eflags_if L c"
proof -
  let ?K = "(pushcli c L)\<lparr>lk := (lk L)(l := \<lparr>lk_locked = True, lk_cpu = Some c\<rparr>)\<rparr>"
  have a: "acquire c l L = Inr ?K" using acquire_free assms by simp
  have "only_lock c l ?K" using assms by (simp add: only_lock_def)
  from release_only [OF this] a show ?thesis using assms by auto
qed

text \<open>The exchange of one lock for another in \<^verbatim>\<open>sleep\<close>.\<close>

lemma exchange_locks:
  assumes "only_lock c l L" "l \<noteq> l'" "\<not> lk_locked (lk L l')"
  shows "\<exists>K M. acquire c l' L = Inr K \<and> release c l K = Inr M \<and> only_lock c l' M"
proof -
  have "acquire c l' L = Inr ((pushcli c L)\<lparr>lk := (lk L)(l' := \<lparr>lk_locked = True, lk_cpu = Some c\<rparr>)\<rparr>)"
    by (rule acquire_free) (use assms in \<open>simp_all add: only_lock_def\<close>)
  then show ?thesis using assms by (auto simp: release_def only_lock_def holding_inside popcli_def)
qed

end
