(* ===== verification/Sched.thy ===== *)
theory Sched
  imports Mlfq Spinlock
begin

text \<open>
  The scheduler of \<^verbatim>\<open>proc.c\<close> under its four compile-time policies. The loop of
  \<^verbatim>\<open>scheduler()\<close> is split at \<^verbatim>\<open>swtch\<close>: \<open>scheduler_step\<close> runs from the top of the
  loop (or from where a table scan was interrupted) to the switch into a process, and
  \<open>scheduler_return\<close> runs from the return of \<^verbatim>\<open>swtch\<close> to the end of the iteration.
  Both run with \<^verbatim>\<open>ptable.lock\<close> held, so each is one atomic step.
\<close>

section \<open>Switching address spaces\<close>

definition switchuvm :: "nat \<Rightarrow> nat \<Rightarrow> 'e kst \<Rightarrow> 'e kst kres" where
  "switchuvm c p s =
     (if p_kstack (ptable s p) = 0 then Inl ''switchuvm: no kstack''
      else if p_pgdir (ptable s p) = 0 then Inl ''switchuvm: no pgdir''
      else Inr (upd_cpu c (\<lambda>x. x\<lparr>c_esp0 := p_kstack (ptable s p) + KSTACKSIZE,
                                 c_cr3 := p_pgdir (ptable s p) - KERNBASE\<rparr>) s))"

definition switchkvm :: "nat \<Rightarrow> 'e kst \<Rightarrow> 'e kst" where
  "switchkvm c s = upd_cpu c (\<lambda>x. x\<lparr>c_cr3 := kpgdir s - KERNBASE\<rparr>) s"

text \<open>\<^verbatim>\<open>c->proc = p; switchuvm(p); p->state = RUNNING;\<close>\<close>

definition run_on :: "nat \<Rightarrow> nat \<Rightarrow> 'e kst \<Rightarrow> 'e kst kres" where
  "run_on c p s =
     and_then (switchuvm c p (upd_cpu c (\<lambda>x. x\<lparr>c_proc := Some p\<rparr>) s))
       (\<lambda>s. Inr (upd_proc p (\<lambda>x. x\<lparr>p_state := RUNNING\<rparr>) s))"

abbreviation runnable :: "'e kst \<Rightarrow> nat \<Rightarrow> bool" where
  "runnable s p \<equiv> p_state (ptable s p) = RUNNABLE"

section \<open>Round robin\<close>

definition inc_nrun :: "nat \<Rightarrow> 'e kst \<Rightarrow> 'e kst" where
  "inc_nrun p s = upd_proc p (\<lambda>x. x\<lparr>nrun := nrun x + 1\<rparr>) s"

definition set_scan :: "nat \<Rightarrow> nat \<Rightarrow> 'e kst \<Rightarrow> 'e kst" where
  "set_scan c n s = upd_cpu c (\<lambda>x. x\<lparr>c_scan := n\<rparr>) s"

text \<open>
  From slot \<open>c_scan\<close> on, the first runnable process; none left: the table scan ends, the
  lock is released and the next iteration starts again at slot 0.
\<close>

definition rr_step :: "nat \<Rightarrow> 'e kst \<Rightarrow> 'e kst kres" where
  "rr_step c s =
     (case find (runnable s) [c_scan (cpus s c)..<NPROC] of
        None \<Rightarrow> Inr (set_scan c 0 s)
      | Some p \<Rightarrow> and_then (run_on c p s) (\<lambda>s. Inr (set_scan c p (inc_nrun p s))))"

section \<open>First come first served\<close>

definition fcfs_pick :: "'e kst \<Rightarrow> nat option" where
  "fcfs_pick s =
     fold (\<lambda>p pro. if \<not> runnable s p then pro
                   else case pro of
                     None \<Rightarrow> Some p
                   | Some q \<Rightarrow> if ctime (ptable s p) < ctime (ptable s q) then Some p else Some q)
       [0..<NPROC] None"

text \<open>
  After its scan the loop variable \<^verbatim>\<open>p\<close> is \<^verbatim>\<open>&ptable.proc[NPROC]\<close>: line 452 increments
  \<^verbatim>\<open>nrun\<close> there.
\<close>

definition fcfs_step :: "nat \<Rightarrow> 'e kst \<Rightarrow> 'e kst kres" where
  "fcfs_step c s =
     (case fcfs_pick s of
        None \<Rightarrow> Inr s
      | Some pro \<Rightarrow> run_on c pro (inc_nrun NPROC s))"

section \<open>Priority based\<close>

definition pbs_better :: "'e kst \<Rightarrow> nat \<Rightarrow> nat \<Rightarrow> nat" where
  "pbs_better s ekaur hp =
     (if runnable s ekaur \<and> priority (ptable s ekaur) < priority (ptable s hp) then ekaur else hp)"

definition pbs_pick :: "'e kst \<Rightarrow> nat \<Rightarrow> nat" where
  "pbs_pick s p = fold (pbs_better s) [0..<p] (fold (pbs_better s) [p + 1..<NPROC] p)"

definition pbs_step :: "nat \<Rightarrow> 'e kst \<Rightarrow> 'e kst kres" where
  "pbs_step c s =
     (case find (runnable s) [c_scan (cpus s c)..<NPROC] of
        None \<Rightarrow> Inr (set_scan c 0 s)
      | Some p \<Rightarrow>
          let hp = pbs_pick s p
          in and_then (run_on c hp (inc_nrun hp s)) (\<lambda>s. Inr (set_scan c hp s)))"

section \<open>Multi-level feedback queue\<close>

text \<open>
  One iteration of an aging loop (lines 493 to 501) for the queue \<open>i = Suc k\<close>. A null
  slot would be dereferenced in the kernel: \<^verbatim>\<open>panic("trap")\<close>.
\<close>

definition age_one :: "nat \<Rightarrow> int \<Rightarrow> 'e kst \<Rightarrow> 'e kst kres" where
  "age_one k j s =
     (case qget s (Suc k) j of
        None \<Rightarrow> Inl ''trap''
      | Some p \<Rightarrow>
          if waittime (ptable s p) > age
          then Inr (push k p (upd_proc p (\<lambda>x. x\<lparr>qn := qn x - 1\<rparr>) (qremove (Suc k) p s)))
          else Inr s)"

lemma qremove_back_cases: "qback (qremove i p s) i = qback s i \<or> qback (qremove i p s) i = -1"
  by (auto simp: qremove_def split: option.splits)

lemma push_back_other: "i \<noteq> a \<Longrightarrow> qback (push a b s) i = qback s i"
  by (simp add: push_def push_yono_idx)

lemma age_one_back:
  "age_one k j s = Inr t \<Longrightarrow> qback t (Suc k) = qback s (Suc k) \<or> qback t (Suc k) = -1"
  using qremove_back_cases [of "Suc k" _ s]
  by (fastforce simp: age_one_def push_back_other split: option.splits if_splits)

text \<open>\<^verbatim>\<open>for(; j <= back[i]; j++)\<close>, with \<^verbatim>\<open>back[i]\<close> read again in every iteration.\<close>

function age_loop :: "nat \<Rightarrow> int \<Rightarrow> 'e kst \<Rightarrow> 'e kst kres" where
  "age_loop k j s =
     (if j \<le> qback s (Suc k) then and_then (age_one k j s) (age_loop k (j + 1)) else Inr s)"
  by pat_completeness auto
termination
  by (relation "measure (\<lambda>(k, j, s). nat (max (qback s (Suc k)) (-1) + 1 - j))")
    (auto dest: age_one_back)

declare age_loop.simps [simp del]

definition age_queue :: "nat \<Rightarrow> 'e kst \<Rightarrow> 'e kst kres" where
  "age_queue k s =
     (if qface s (Suc k) = -1 then Inr s
      else if qface s (Suc k) \<le> qback s (Suc k) then age_loop k (qface s (Suc k)) s
      else and_then (foldk (age_one k) [qface s (Suc k)..int NPROC - 1] s) (age_loop k 0))"

text \<open>Lines 488 to 530: queues 1 to 4 in turn.\<close>

definition mlfq_aging :: "'e kst \<Rightarrow> 'e kst kres" where
  "mlfq_aging s = foldk age_queue [0..<NQUEUE - 1] s"

text \<open>Lines 532 to 544: pop the first queue that is not empty.\<close>

definition mlfq_pop :: "'e kst \<Rightarrow> nat option \<times> 'e kst" where
  "mlfq_pop s =
     (case find (\<lambda>i. qface s i \<noteq> -1) [0..<NQUEUE] of
        None \<Rightarrow> (None, s)
      | Some i \<Rightarrow> pop i s)"

definition mlfq_step :: "nat \<Rightarrow> 'e kst \<Rightarrow> 'e kst kres" where
  "mlfq_step c s =
     and_then (mlfq_aging s)
       (\<lambda>s. let (p, s) = mlfq_pop s
            in case p of
                 None \<Rightarrow> Inr s
               | Some p \<Rightarrow>
                   if runnable s p
                   then run_on c p (upd_proc p (\<lambda>x. x\<lparr>waittime := 0, curtime := 0, nrun := nrun x + 1\<rparr>) s)
                   else Inr s)"

text \<open>Lines 566 to 588: a process that comes back runnable is queued again.\<close>

definition mlfq_requeue :: "nat \<Rightarrow> 'e kst \<Rightarrow> 'e kst" where
  "mlfq_requeue p s =
     (if runnable s p
      then let s = (if flagq (ptable s p) = 1
                    then upd_proc p (\<lambda>x. x\<lparr>flagq := 0, curtime := 0, waittime := 0,
                           qn := (if qn x \<noteq> 4 then qn x + 1 else qn x)\<rparr>) s
                    else upd_proc p (\<lambda>x. x\<lparr>curtime := 0\<rparr>) s)
           in push (nat (qn (ptable s p))) p s
      else s)"

section \<open>The scheduler of a CPU\<close>

definition scheduler_step :: "policy \<Rightarrow> nat \<Rightarrow> 'e kst \<Rightarrow> 'e kst kres" where
  "scheduler_step pol c s =
     (case pol of
        ROUND_ROBIN \<Rightarrow> rr_step c s
      | FCFS \<Rightarrow> fcfs_step c s
      | MLFQ \<Rightarrow> mlfq_step c s
      | PBS \<Rightarrow> pbs_step c s)"

definition scheduler_return :: "policy \<Rightarrow> nat \<Rightarrow> nat \<Rightarrow> 'e kst \<Rightarrow> 'e kst" where
  "scheduler_return pol c p s =
     (let s = upd_cpu c (\<lambda>x. x\<lparr>c_proc := None\<rparr>) (switchkvm c s)
      in case pol of
           ROUND_ROBIN \<Rightarrow> set_scan c (c_scan (cpus s c) + 1) s
         | FCFS \<Rightarrow> s
         | MLFQ \<Rightarrow> mlfq_requeue p s
         | PBS \<Rightarrow> set_scan c (c_scan (cpus s c) + 1) s)"

text \<open>
  \<^verbatim>\<open>sched()\<close>, which gives the CPU back to its scheduler, with its four checks in their
  order; \<open>L\<close> is the state of the locks. \<^verbatim>\<open>mycpu()\<close>, called for \<^verbatim>\<open>ncli\<close>, has a check of
  its own. The result is the state when the scheduler has taken over, and the locks it then
  finds: it goes on with \<^verbatim>\<open>ptable.lock\<close> in its hands.
\<close>

definition sched :: "policy \<Rightarrow> nat \<Rightarrow> lockst \<Rightarrow> 'e kst \<Rightarrow> (lockst \<times> 'e kst) kres" where
  "sched pol c L s =
     and_then (holding c Ptable_lock L) (\<lambda>(h, L).
       if \<not> h then Inl ''sched ptable.lock''
       else and_then (mycpu c L) (\<lambda>c.
         if ncli L c \<noteq> 1 then Inl ''sched locks''
         else case c_proc (cpus s c) of
             None \<Rightarrow> Inl ''trap''
           | Some p \<Rightarrow>
               if p_state (ptable s p) = RUNNING then Inl ''sched running''
               else if eflags_if L c then Inl ''sched interruptible''
               else Inr (L, scheduler_return pol c p s)))"

definition yield :: "policy \<Rightarrow> nat \<Rightarrow> lockst \<Rightarrow> 'e kst \<Rightarrow> (lockst \<times> 'e kst) kres" where
  "yield pol c L s =
     and_then (acquire c Ptable_lock L) (\<lambda>L.
       case c_proc (cpus s c) of
         None \<Rightarrow> Inl ''trap''
       | Some p \<Rightarrow>
           let s = (if pol = MLFQ then upd_proc p (\<lambda>x. x\<lparr>curtime := 0, waittime := 0\<rparr>) s else s)
           in sched pol c L (upd_proc p (\<lambda>x. x\<lparr>p_state := RUNNABLE\<rparr>) s))"

text \<open>What follows the switch, when the process runs again: \<^verbatim>\<open>intena\<close> belongs to the thread.\<close>

definition sched_end :: "nat \<Rightarrow> bool \<Rightarrow> lockst \<Rightarrow> lockst" where
  "sched_end c saved L = L\<lparr>intena := (intena L)(c := saved)\<rparr>"

definition yield_end :: "nat \<Rightarrow> bool \<Rightarrow> lockst \<Rightarrow> lockst kres" where
  "yield_end c saved L = release c Ptable_lock (sched_end c saved L)"

lemma sched_Inr:
  "sched pol c L s = Inr (L', t) \<Longrightarrow>
     \<exists>p. c_proc (cpus s c) = Some p \<and> p_state (ptable s p) \<noteq> RUNNING \<and> t = scheduler_return pol c p s"
  by (auto simp: sched_def mycpu_def and_then_Inr_iff split: if_splits option.splits)

lemma sched_only:
  assumes "only_lock c Ptable_lock L" "c_proc (cpus s c) = Some p" "p_state (ptable s p) \<noteq> RUNNING"
  shows "sched pol c L s = Inr (L, scheduler_return pol c p s)"
  using assms by (simp add: sched_def only_lock_def holding_inside mycpu_def)

lemma yield_Inr:
  assumes "yield pol c L s = Inr (L', t)" "c_proc (cpus s c) = Some p"
  shows "t = scheduler_return pol c p (upd_proc p (\<lambda>x. x\<lparr>p_state := RUNNABLE\<rparr>)
    (if pol = MLFQ then upd_proc p (\<lambda>x. x\<lparr>curtime := 0, waittime := 0\<rparr>) s else s))"
  using assms by (auto simp: yield_def and_then_Inr_iff Let_def dest!: sched_Inr)

lemma yield_only:
  assumes "ncli L c = 0" "\<not> lk_locked (lk L Ptable_lock)" "c_proc (cpus s c) = Some p"
  shows "\<exists>L' t. yield pol c L s = Inr (L', t) \<and> only_lock c Ptable_lock L'"
proof -
  obtain K where "acquire c Ptable_lock L = Inr K" "only_lock c Ptable_lock K" using acquire_only assms by blast
  then show ?thesis using assms(3) by (simp add: yield_def Let_def sched_only)
qed

text \<open>A process that holds another spin lock must not give up the CPU.\<close>

lemma sched_locks_panics:
  assumes "lk L Ptable_lock = \<lparr>lk_locked = True, lk_cpu = Some c\<rparr>" "1 < ncli L c" "\<not> eflags_if L c"
  shows "sched pol c L s = Inl ''sched locks''"
  using assms by (simp add: sched_def holding_inside mycpu_def)

lemma yield_locks_panics:
  assumes "0 < ncli L c" "\<not> lk_locked (lk L Ptable_lock)" "c_proc (cpus s c) = Some p"
  shows "yield pol c L s = Inl ''sched locks''"
  using assms by (simp add: yield_def acquire_free Let_def) (auto intro!: sched_locks_panics)

text \<open>The process that runs next releases the lock without a panic, and has its own interrupt flag back.\<close>

lemma yield_end_only: "only_lock c Ptable_lock L \<Longrightarrow> \<exists>M. yield_end c saved L = Inr M \<and> ncli M c = 0 \<and> eflags_if M c = saved"
  using release_only [of c Ptable_lock "sched_end c saved L"] by (auto simp: yield_end_def sched_end_def only_lock_def)

section \<open>Aging\<close>

text \<open>
  The aging loops walk over array indices while \<^verbatim>\<open>remove\<close> shifts the array under them. On
  the queues this is one pass over the processes queued at the start: \<open>age_proc\<close> is what
  happens to one of them.
\<close>

definition age_proc :: "nat \<Rightarrow> nat \<Rightarrow> 'e kst \<Rightarrow> 'e kst" where
  "age_proc k p s =
     (if waittime (ptable s p) > age
      then push k p (upd_proc p (\<lambda>x. x\<lparr>qn := qn x - 1\<rparr>) (qremove (Suc k) p s))
      else s)"

definition scanning :: "nat \<Rightarrow> int \<Rightarrow> nat list \<Rightarrow> nat list \<Rightarrow> 'e kst \<Rightarrow> bool" where
  "scanning k b kept todo s \<longleftrightarrow> Suc k < NQUEUE \<and> mlfq_ok s \<and> qlist s (Suc k) = kept @ todo
     \<and> (qback s (Suc k) = b \<or> todo = [] \<and> qback s (Suc k) = -1)"

lemma age_one_at:
  assumes "scanning k b kept (p # rest) s"
  shows "age_one k ((b - int (length rest)) mod int NPROC) s = Inr (age_proc k p s)"
proof -
  have ok: "mlfq_ok s" "Suc k < NQUEUE" "qback s (Suc k) = b" "qlist s (Suc k) = kept @ p # rest"
    using assms by (auto simp: scanning_def)
  then have r: "ring s (Suc k) = map Some (kept @ p # rest)" by (simp add: ring_qlist)
  have "qget s (Suc k) ((b - int (length rest)) mod int NPROC)
      = ring s (Suc k) ! (length (ring s (Suc k)) - 1 - length rest)"
    using ring_from_back [OF mlfq_okD(1) [OF ok(1,2)], of "length rest"] ok(3) r by simp
  also have "\<dots> = Some p" unfolding r by (simp add: nth_append)
  finally show ?thesis by (simp add: age_one_def age_proc_def)
qed

lemma qremove_only:
  assumes "mlfq_ok s" "i < NQUEUE" "p \<in> set (qlist s i)"
  shows "mlfq_ok (qremove i p s)" "\<not> queued (qremove i p s) p" "p < NPROC"
  using assms mlfq_ok_qremove [OF assms(1,2)] mlfq.items_elem [OF assms] by (simp_all add: in_qlist_iff)

text \<open>Whether or not the push takes effect, only queue \<open>k\<close> can have changed.\<close>

lemma push_mlfq:
  assumes ok: "mlfq_ok s" and a: "a < NQUEUE" "p < NPROC" and nq: "\<not> queued s p"
  shows "mlfq_ok (push a p s)"
    and "i < NQUEUE \<Longrightarrow> qlist (push a p s) i = qlist s i \<or> i = a \<and> qlist (push a p s) a = qlist s a @ [p]"
    and "q \<noteq> p \<Longrightarrow> ptable (push a p s) q = ptable s q"
    and "ptable (push a p s) p = ptable s p \<or> ptable (push a p s) p = (ptable s p)\<lparr>curtime := 0, waittime := 0\<rparr>"
  using mlfq_ok_push [OF ok a nq] push_cases [of s a p] push_yono_ring_all(1) [OF ok a nq] ok a
  by (auto simp: qlist_def mlfq_ok_def split: if_splits)

lemma age_proc_scanning:
  assumes "scanning k b kept (p # rest) s"
  shows "scanning k b (if waittime (ptable s p) > age then kept else kept @ [p]) rest (age_proc k p s)"
proof (cases "waittime (ptable s p) > age")
  case True
  have ok: "mlfq_ok s" "Suc k < NQUEUE" "qback s (Suc k) = b" "qlist s (Suc k) = kept @ p # rest"
    using assms by (auto simp: scanning_def)
  then have p: "p \<in> set (qlist s (Suc k))" and d: "distinct (kept @ p # rest)"
    using mlfq.items_distinct [of s "Suc k"] by (auto simp: ok)
  let ?r = "upd_proc p (\<lambda>x. x\<lparr>qn := qn x - 1\<rparr>) (qremove (Suc k) p s)"
  note r = qremove_only [OF ok(1,2) p]
  have k: "k < NQUEUE" using ok by simp
  have r': "mlfq_ok ?r" "\<not> queued ?r p" using r by simp_all
  have "qlist ?r (Suc k) = kept @ rest"
    using qremove_qlist [OF ok(1,2) p, of "Suc k"] ok d by (simp add: remove1_append)
  then have q: "qlist (push k p ?r) (Suc k) = kept @ rest"
    using push_mlfq(2) [OF r'(1) k r(3) r'(2), of "Suc k"] ok by simp
  have len: "length (ring s (Suc k)) = length kept + length rest + 1"
    using ok by (simp add: ring_qlist)
  have "qback (qremove (Suc k) p s) (Suc k) = b" if "rest \<noteq> []"
    using qremove_back [OF mlfq_okD(1) [OF ok(1,2)]] len that ok by (cases rest) auto
  then have "qback (push k p ?r) (Suc k) = b \<or> rest = [] \<and> qback (push k p ?r) (Suc k) = -1"
    using qremove_back_cases [of "Suc k" p s] ok by (auto simp: push_back_other)
  with push_mlfq(1) [OF r'(1) k r(3) r'(2)] q ok True show ?thesis
    by (simp add: scanning_def age_proc_def)
next
  case False
  then show ?thesis using assms by (auto simp: scanning_def age_proc_def)
qed

lemma age_loop_scan:
  assumes "scanning k b kept todo s" and "j = b + 1 - int (length todo)" "0 \<le> j" "b < int NPROC"
  shows "age_loop k j s = Inr (fold (age_proc k) todo s)"
  using assms
proof (induction todo arbitrary: kept j s)
  case Nil
  then have "\<not> j \<le> qback s (Suc k)" by (auto simp: scanning_def)
  then show ?case by (subst age_loop.simps) simp
next
  case (Cons p rest)
  have "(b - int (length rest)) mod int NPROC = j" using Cons.prems by simp
  moreover have "j \<le> qback s (Suc k)" using Cons.prems by (auto simp: scanning_def)
  ultimately show ?case
    using age_one_at [OF Cons.prems(1)] Cons.IH [OF age_proc_scanning [OF Cons.prems(1)], of "j + 1"] Cons.prems
    by (subst age_loop.simps) simp
qed

lemma age_foldk_scan:
  assumes "scanning k b kept (todo @ rest) s" and "int (length rest) = b + 1" "length todo \<le> NPROC"
  shows "\<exists>kept'. foldk (age_one k) [int NPROC - int (length todo)..int NPROC - 1] s = Inr (fold (age_proc k) todo s)
    \<and> scanning k b kept' rest (fold (age_proc k) todo s)"
  using assms
proof (induction todo arbitrary: kept s)
  case Nil
  then show ?case by auto
next
  case (Cons p todo)
  let ?j = "int NPROC - int (length (p # todo))"
  have "b - int (length (todo @ rest)) = ?j + int NPROC * (-1)" using Cons.prems by simp
  then have "(b - int (length (todo @ rest))) mod int NPROC = ?j mod int NPROC"
    by (metis mod_mult_self2)
  also have "\<dots> = ?j" using Cons.prems by (intro mod_pos_pos_trivial) auto
  finally have "age_one k ?j s = Inr (age_proc k p s)"
    using age_one_at [of k b kept p "todo @ rest" s] Cons.prems(1) by simp
  moreover have "[?j..int NPROC - 1] = ?j # [int NPROC - int (length todo)..int NPROC - 1]"
    by (subst upto_rec1) simp_all
  ultimately show ?case
    using Cons.IH [OF age_proc_scanning [of k b kept p "todo @ rest" s]] Cons.prems by auto
qed

lemma ring_extent:
  assumes "ring_ok s i" "qface s i \<noteq> -1"
  shows "length (ring s i) = nat (if qface s i \<le> qback s i then qback s i - qface s i + 1
    else int NPROC - qface s i + qback s i + 1)"
  using assms by (auto simp: ring_def ring_ok_def)

theorem age_queue_fold:
  assumes ok: "mlfq_ok s" and k: "Suc k < NQUEUE"
  shows "age_queue k s = Inr (fold (age_proc k) (qlist s (Suc k)) s)"
proof -
  let ?i = "Suc k"
  have r: "ring_ok s ?i" using mlfq_okD(1) [OF ok k] .
  have sc: "scanning k (qback s ?i) [] (qlist s ?i) s" using ok k by (simp add: scanning_def)
  have l: "length (qlist s ?i) = length (ring s ?i)" by (simp add: qlist_def)
  consider "qface s ?i = -1" | "qface s ?i \<noteq> -1" "qface s ?i \<le> qback s ?i" | "qface s ?i \<noteq> -1" "qback s ?i < qface s ?i"
    by linarith
  then show ?thesis
  proof cases
    case 1
    then show ?thesis using r by (simp add: age_queue_def qlist_def ring_Nil_iff [THEN iffD2])
  next
    case 2
    then have "age_loop k (qface s ?i) s = Inr (fold (age_proc k) (qlist s ?i) s)"
      using r l ring_extent [OF r] by (intro age_loop_scan [OF sc]) (auto simp: ring_ok_def)
    with 2 show ?thesis by (simp add: age_queue_def)
  next
    case 3
    define n where "n = nat (int NPROC - qface s ?i)"
    define todo where "todo = take n (qlist s ?i)"
    define rest where "rest = drop n (qlist s ?i)"
    have n: "int n = int NPROC - qface s ?i" "n \<le> NPROC" using r 3 by (auto simp: n_def ring_ok_def)
    have sp: "qlist s ?i = todo @ rest" by (simp add: todo_def rest_def)
    have lr: "length todo = n" "int (length rest) = qback s ?i + 1"
      using ring_extent [OF r] 3 r l n by (auto simp: todo_def rest_def ring_ok_def)
    obtain kept' where f: "foldk (age_one k) [qface s ?i..int NPROC - 1] s = Inr (fold (age_proc k) todo s)"
      "scanning k (qback s ?i) kept' rest (fold (age_proc k) todo s)"
      using age_foldk_scan [of k "qback s ?i" "[]" todo rest s] sc lr n sp by auto
    have "age_loop k 0 (fold (age_proc k) todo s) = Inr (fold (age_proc k) rest (fold (age_proc k) todo s))"
      using lr r by (intro age_loop_scan [OF f(2)]) (auto simp: ring_ok_def)
    with 3 f(1) sp show ?thesis by (simp add: age_queue_def)
  qed
qed

subsection \<open>What aging does when no stale pointer is in the way\<close>

definition aged :: "'e kst \<Rightarrow> nat \<Rightarrow> bool" where
  "aged s p \<longleftrightarrow> waittime (ptable s p) > age"

definition promoted :: "proc \<Rightarrow> proc" where
  "promoted x = x\<lparr>qn := qn x - 1, curtime := 0, waittime := 0\<rparr>"

lemma masked_push:
  assumes "mlfq_ok s" "a < NQUEUE" "masked (push a b s) p" "p \<noteq> b"
  shows "masked s p"
  using assms push_cases [of s a b] masked_push_yono [of a b s p] by (auto simp: mlfq_ok_def split: if_splits)

lemma age_proc_moves:
  assumes sc: "scanning k b kept (p # rest) s" and ag: "aged s p" and um: "\<not> masked s p"
  defines "t \<equiv> age_proc k p s"
  shows "qlist t k = qlist s k @ [p]"
    and "\<And>i. i < NQUEUE \<Longrightarrow> i \<noteq> k \<Longrightarrow> i \<noteq> Suc k \<Longrightarrow> qlist t i = qlist s i"
    and "ptable t = (ptable s)(p := promoted (ptable s p))"
    and "\<And>q. masked t q \<Longrightarrow> q \<noteq> p \<Longrightarrow> q \<notin> set kept \<Longrightarrow> masked s q"
proof -
  have ok: "mlfq_ok s" "Suc k < NQUEUE" "qlist s (Suc k) = kept @ p # rest"
    using sc by (auto simp: scanning_def)
  then have p: "p \<in> set (qlist s (Suc k))" and d: "distinct (kept @ p # rest)"
    using mlfq.items_distinct [of s "Suc k"] by (auto simp: ok)
  have k: "k < NQUEUE" using ok by simp
  let ?r = "upd_proc p (\<lambda>x. x\<lparr>qn := qn x - 1\<rparr>) (qremove (Suc k) p s)"
  note r = qremove_only [OF ok(1,2) p]
  have rg: "ring s (Suc k) = map Some kept @ Some p # map Some rest" using ok by (simp add: ring_qlist)
  have mr: "masked s q" if "masked (qremove (Suc k) p s) q" "q \<notin> set kept" for q
    using masked_qremove [OF ok(1,2) rg that(1)] that(2) by auto
  have um': "\<not> masked (qremove (Suc k) p s) p" using mr um d by auto
  have t: "t = push k p ?r" using ag by (simp add: t_def age_proc_def aged_def)
  have ty: "t = push_yono k p ?r"
    unfolding t using r k um' by (intro push_appends) simp_all
  have ql: "qlist t i = (if i = k then qlist ?r k @ [p] else qlist ?r i)" if "i < NQUEUE" for i
    unfolding t using r k um' that by (intro push_qlist) (simp_all add: push_admits_def)
  show "qlist t k = qlist s k @ [p]"
    and "\<And>i. i < NQUEUE \<Longrightarrow> i \<noteq> k \<Longrightarrow> i \<noteq> Suc k \<Longrightarrow> qlist t i = qlist s i"
    using ql qremove_qlist [OF ok(1,2) p] k by simp_all
  show "ptable t = (ptable s)(p := promoted (ptable s p))"
    unfolding ty by (simp add: fun_eq_iff promoted_def)
  show "\<And>q. masked t q \<Longrightarrow> q \<noteq> p \<Longrightarrow> q \<notin> set kept \<Longrightarrow> masked s q"
    using masked_push [of ?r k p] r k mr unfolding t by simp
qed

lemma age_fold_moves:
  assumes "scanning k b kept todo s" and "\<forall>p\<in>set todo. aged s p \<longrightarrow> \<not> masked s p"
  defines "t \<equiv> fold (age_proc k) todo s"
  shows "qlist t (Suc k) = kept @ filter (\<lambda>p. \<not> aged s p) todo \<and> qlist t k = qlist s k @ filter (aged s) todo
    \<and> (\<forall>i<NQUEUE. i \<noteq> k \<longrightarrow> i \<noteq> Suc k \<longrightarrow> qlist t i = qlist s i)
    \<and> (\<forall>q. ptable t q = (if q \<in> set todo \<and> aged s q then promoted (ptable s q) else ptable s q))
    \<and> (\<forall>q. masked t q \<longrightarrow> q \<notin> set (kept @ todo) \<longrightarrow> masked s q) \<and> mlfq_ok t"
  using assms(1,2) unfolding t_def
proof (induction todo arbitrary: kept s)
  case Nil
  then show ?case by (auto simp: scanning_def)
next
  case (Cons p rest)
  let ?u = "age_proc k p s"
  have d: "distinct (kept @ p # rest)"
    using Cons.prems(1) mlfq.items_distinct [of s "Suc k"] by (auto simp: scanning_def)
  note sc = age_proc_scanning [OF Cons.prems(1)]
  show ?case
  proof (cases "aged s p")
    case True
    have um: "\<not> masked s p" using Cons.prems(2) True by simp
    note m = age_proc_moves [OF Cons.prems(1) True um]
    have ag: "aged ?u q = aged s q" if "q \<noteq> p" for q using m(3) that by (simp add: aged_def)
    have agr: "aged ?u q = aged s q" if "q \<in> set rest" for q
      using that d by (intro ag) auto
    have f: "filter (aged ?u) rest = filter (aged s) rest"
      "filter (\<lambda>p. \<not> aged ?u p) rest = filter (\<lambda>p. \<not> aged s p) rest"
      by (simp_all add: agr cong: filter_cong)
    have sc': "scanning k b kept rest ?u" using sc True by (simp add: aged_def)
    have um': "\<forall>q\<in>set rest. aged ?u q \<longrightarrow> \<not> masked ?u q"
      using m(4) Cons.prems(2) agr d by auto
    from Cons.IH [OF sc' um'] show ?thesis
      using True m(1-3) f d m(4) agr by (auto simp: fun_upd_apply)
  next
    case False
    then have u: "?u = s" by (simp add: age_proc_def aged_def)
    have "scanning k b (kept @ [p]) rest s" using sc False u by (simp add: aged_def)
    from Cons.IH [OF this] Cons.prems(2) show ?thesis using False u by simp
  qed
qed

lemma age_queue_moves:
  assumes ok: "mlfq_ok s" and k: "Suc k < NQUEUE"
    and um: "\<forall>p\<in>set (qlist s (Suc k)). aged s p \<longrightarrow> \<not> masked s p"
  obtains t where "age_queue k s = Inr t" "mlfq_ok t"
    "qlist t (Suc k) = filter (\<lambda>p. \<not> aged s p) (qlist s (Suc k))"
    "qlist t k = qlist s k @ filter (aged s) (qlist s (Suc k))"
    "\<And>i. i < NQUEUE \<Longrightarrow> i \<noteq> k \<Longrightarrow> i \<noteq> Suc k \<Longrightarrow> qlist t i = qlist s i"
    "\<And>q. ptable t q = (if q \<in> set (qlist s (Suc k)) \<and> aged s q then promoted (ptable s q) else ptable s q)"
    "\<And>q. masked t q \<Longrightarrow> q \<notin> set (qlist s (Suc k)) \<Longrightarrow> masked s q"
proof -
  have "scanning k (qback s (Suc k)) [] (qlist s (Suc k)) s" using ok k by (simp add: scanning_def)
  note f = age_fold_moves [OF this um]
  show thesis
    by (rule that [OF age_queue_fold [OF ok k]]) (use f in \<open>simp_all split: if_splits\<close>)
qed

text \<open>The queues after \<open>n\<close> of the four passes.\<close>

definition aged_list :: "'e kst \<Rightarrow> nat \<Rightarrow> nat \<Rightarrow> nat list" where
  "aged_list s n i =
     (if 0 < i \<and> i \<le> n then filter (\<lambda>p. \<not> aged s p) (qlist s i) else qlist s i)
     @ (if i < n then filter (aged s) (qlist s (Suc i)) else [])"

definition unmasked_aged :: "'e kst \<Rightarrow> bool" where
  "unmasked_aged s \<longleftrightarrow> (\<forall>i\<in>{1..<NQUEUE}. \<forall>p\<in>set (qlist s i). aged s p \<longrightarrow> \<not> masked s p)"

lemma aging_prefix:
  assumes ok: "mlfq_ok s" and um: "unmasked_aged s" and n: "n < NQUEUE"
  shows "\<exists>t. foldk age_queue [0..<n] s = Inr t \<and> mlfq_ok t \<and> (\<forall>i<NQUEUE. qlist t i = aged_list s n i)
    \<and> (\<forall>q. ptable t q = (if (\<exists>i. 0 < i \<and> i \<le> n \<and> q \<in> set (qlist s i)) \<and> aged s q
                          then promoted (ptable s q) else ptable s q))
    \<and> (\<forall>i<NQUEUE. \<forall>q\<in>set (qlist s i). n < i \<longrightarrow> masked t q \<longrightarrow> masked s q)"
  using n
proof (induction n)
  case 0
  then show ?case using ok by (auto simp: aged_list_def)
next
  case (Suc n)
  then have n: "n < NQUEUE" by simp
  from Suc.IH [OF n] obtain t where t: "foldk age_queue [0..<n] s = Inr t" "mlfq_ok t"
    "\<forall>i<NQUEUE. qlist t i = aged_list s n i"
    "\<forall>q. ptable t q = (if (\<exists>i. 0 < i \<and> i \<le> n \<and> q \<in> set (qlist s i)) \<and> aged s q
                        then promoted (ptable s q) else ptable s q)"
    "\<forall>i<NQUEUE. \<forall>q\<in>set (qlist s i). n < i \<longrightarrow> masked t q \<longrightarrow> masked s q" by auto
  have qn1: "qlist t (Suc n) = qlist s (Suc n)" using t(3) Suc.prems by (simp add: aged_list_def)
  have dis: "\<not> (\<exists>i. 0 < i \<and> i \<le> n \<and> q \<in> set (qlist s i))" if "q \<in> set (qlist s j)" "n < j" "j < NQUEUE" for q j
  proof
    assume "\<exists>i. 0 < i \<and> i \<le> n \<and> q \<in> set (qlist s i)"
    then obtain i where "i \<le> n" "q \<in> set (qlist s i)" by auto
    with mlfq.items_disjoint [OF ok, of i j q] that show False by simp
  qed
  have same: "ptable t q = ptable s q" if "q \<in> set (qlist s (Suc n))" for q
    using spec [OF t(4), of q] dis [OF that lessI Suc.prems] by (simp only: if_False simp_thms)
  then have ag: "aged t q = aged s q" if "q \<in> set (qlist s (Suc n))" for q
    using that by (simp add: aged_def)
  have um1: "\<forall>p\<in>set (qlist t (Suc n)). aged t p \<longrightarrow> \<not> masked t p"
  proof
    fix p assume "p \<in> set (qlist t (Suc n))"
    then have p: "p \<in> set (qlist s (Suc n))" by (simp add: qn1)
    moreover have "Suc n \<in> {1..<NQUEUE}" using Suc.prems by simp
    ultimately show "aged t p \<longrightarrow> \<not> masked t p"
      using um t(5) ag [OF p] Suc.prems unfolding unmasked_aged_def by blast
  qed
  obtain u where u: "age_queue n t = Inr u" "mlfq_ok u"
    "qlist u (Suc n) = filter (\<lambda>p. \<not> aged t p) (qlist t (Suc n))"
    "qlist u n = qlist t n @ filter (aged t) (qlist t (Suc n))"
    "\<And>i. i < NQUEUE \<Longrightarrow> i \<noteq> n \<Longrightarrow> i \<noteq> Suc n \<Longrightarrow> qlist u i = qlist t i"
    "\<And>q. ptable u q = (if q \<in> set (qlist t (Suc n)) \<and> aged t q then promoted (ptable t q) else ptable t q)"
    "\<And>q. masked u q \<Longrightarrow> q \<notin> set (qlist t (Suc n)) \<Longrightarrow> masked t q"
    using age_queue_moves [OF t(2) Suc.prems um1] by blast
  have fl: "filter (aged t) (qlist s (Suc n)) = filter (aged s) (qlist s (Suc n))"
    "filter (\<lambda>p. \<not> aged t p) (qlist s (Suc n)) = filter (\<lambda>p. \<not> aged s p) (qlist s (Suc n))"
    by (simp_all add: ag cong: filter_cong)
  have "foldk age_queue [0..<Suc n] s = Inr u"
    using t(1) u(1) by (simp add: foldk_append)
  moreover have "qlist u i = aged_list s (Suc n) i" if "i < NQUEUE" for i
    using u(3-5) t(3) that fl qn1 n by (cases "i = n"; cases "i = Suc n") (auto simp: aged_list_def)
  moreover have "ptable u q = (if (\<exists>i. 0 < i \<and> i \<le> Suc n \<and> q \<in> set (qlist s i)) \<and> aged s q
                        then promoted (ptable s q) else ptable s q)" for q
  proof (cases "q \<in> set (qlist s (Suc n))")
    case True
    then show ?thesis using u(6) [of q] same [OF True] ag [OF True] qn1 by auto
  next
    case False
    then have "(\<exists>i. 0 < i \<and> i \<le> Suc n \<and> q \<in> set (qlist s i)) = (\<exists>i. 0 < i \<and> i \<le> n \<and> q \<in> set (qlist s i))"
      by (auto simp: le_Suc_eq)
    moreover have "ptable u q = ptable t q" using u(6) [of q] False qn1 by simp
    ultimately show ?thesis using spec [OF t(4), of q] by (simp only:)
  qed
  moreover have "masked s q" if "i < NQUEUE" "q \<in> set (qlist s i)" "Suc n < i" "masked u q" for i q
  proof -
    have "q \<notin> set (qlist s (Suc n))"
      using mlfq.items_disjoint [OF ok that(1) Suc.prems that(2)] that(3) by auto
    then have "masked t q" using u(7) that(4) qn1 by simp
    then show ?thesis using t(5) that by auto
  qed
  ultimately show ?case using u(2) by blast
qed

subsection \<open>What aging never does\<close>

text \<open>
  Stale pointers or not: aging returns, keeps the queues well formed, changes no field but
  \<^verbatim>\<open>qn\<close>, \<^verbatim>\<open>curtime\<close> and \<^verbatim>\<open>waittime\<close>, and queues no process that was not queued.
\<close>

definition sched_core :: "proc \<Rightarrow> proc" where
  "sched_core x = x\<lparr>qn := 0, curtime := 0, waittime := 0\<rparr>"

definition requeues :: "'e kst \<Rightarrow> 'e kst \<Rightarrow> bool" where
  "requeues s t \<longleftrightarrow> nextpid t = nextpid s \<and> initproc t = initproc s \<and> ticks t = ticks s
     \<and> cpus t = cpus s \<and> ncpu t = ncpu s \<and> kpgdir t = kpgdir s \<and> env t = env s
     \<and> (\<forall>q. sched_core (ptable t q) = sched_core (ptable s q))"

lemma sched_core_fields:
  assumes "sched_core x = sched_core y"
  shows "p_sz x = p_sz y" "p_pgdir x = p_pgdir y" "p_kstack x = p_kstack y" "p_state x = p_state y"
    "p_pid x = p_pid y" "p_parent x = p_parent y" "p_chan x = p_chan y" "p_killed x = p_killed y"
    "p_ofile x = p_ofile y" "p_cwd x = p_cwd y" "priority x = priority y" "p_tf_at x = p_tf_at y"
    "p_tf x = p_tf y" "ctime x = ctime y" "runtime x = runtime y" "nrun x = nrun y" "p_context x = p_context y"
    "p_context_at x = p_context_at y" "p_name x = p_name y" "etime x = etime y" "flagq x = flagq y" "qnt x = qnt y"
  using arg_cong [OF assms, of p_sz] arg_cong [OF assms, of p_pgdir] arg_cong [OF assms, of p_kstack]
    arg_cong [OF assms, of p_state] arg_cong [OF assms, of p_pid] arg_cong [OF assms, of p_parent]
    arg_cong [OF assms, of p_chan] arg_cong [OF assms, of p_killed] arg_cong [OF assms, of p_ofile]
    arg_cong [OF assms, of p_cwd] arg_cong [OF assms, of priority] arg_cong [OF assms, of p_tf_at]
    arg_cong [OF assms, of p_tf] arg_cong [OF assms, of ctime] arg_cong [OF assms, of runtime]
    arg_cong [OF assms, of nrun] arg_cong [OF assms, of p_context] arg_cong [OF assms, of p_context_at]
    arg_cong [OF assms, of p_name] arg_cong [OF assms, of etime] arg_cong [OF assms, of flagq]
    arg_cong [OF assms, of qnt]
  by (simp_all add: sched_core_def)

lemma requeues_refl [simp]: "requeues s s"
  by (simp add: requeues_def)

lemma requeues_trans: "requeues s t \<Longrightarrow> requeues t u \<Longrightarrow> requeues s u"
  by (simp add: requeues_def)

lemma requeues_push: "requeues s (push a p s)"
  by (auto simp: requeues_def push_def sched_core_def)

lemma requeues_qremove: "requeues s (qremove a p s)"
  by (simp add: requeues_def)

lemma requeues_pop: "requeues s (snd (pop a s))"
  by (simp add: requeues_def)

lemma requeues_upd:
  "sched_core (f (ptable s p)) = sched_core (ptable s p) \<Longrightarrow> requeues s (upd_proc p f s)"
  by (simp add: requeues_def)

lemma requeues_state: "requeues s t \<Longrightarrow> p_state (ptable t p) = p_state (ptable s p)"
  unfolding requeues_def by (intro sched_core_fields(4)) blast

text \<open>
  The scheduling invariant: a queued process is runnable and sits in the queue its \<^verbatim>\<open>qn\<close>
  names.
\<close>

definition mlfq_inv :: "'e kst \<Rightarrow> bool" where
  "mlfq_inv s \<longleftrightarrow> mlfq_ok s \<and> (\<forall>p<NPROC. 0 \<le> qn (ptable s p) \<and> qn (ptable s p) \<le> 4)
     \<and> (\<forall>i<NQUEUE. \<forall>p\<in>set (qlist s i). runnable s p \<and> qn (ptable s p) = int i)"

lemma age_proc_requeues: "requeues s (age_proc k p s)"
proof -
  let ?r = "upd_proc p (\<lambda>x. x\<lparr>qn := qn x - 1\<rparr>) (qremove (Suc k) p s)"
  have "requeues s ?r"
    by (rule requeues_trans [OF requeues_qremove requeues_upd]) (simp add: sched_core_def)
  from requeues_trans [OF this requeues_push, of k p] show ?thesis by (simp add: age_proc_def)
qed

lemma queued_qlist: "mlfq_ok s \<Longrightarrow> queued s q \<longleftrightarrow> (\<exists>i<NQUEUE. q \<in> set (qlist s i))"
  by (auto simp: queued_def in_qlist_iff)

lemma age_proc_inv:
  assumes iv: "mlfq_inv s" and k: "Suc k < NQUEUE" and p: "p \<in> set (qlist s (Suc k))"
  shows "mlfq_inv (age_proc k p s)" and "queued (age_proc k p s) q \<Longrightarrow> queued s q"
    and "\<not> runnable s r \<Longrightarrow> ptable (age_proc k p s) r = ptable s r"
proof -
  have ok: "mlfq_ok s" and rn: "runnable s p" "qn (ptable s p) = int (Suc k)"
    using iv k p by (auto simp: mlfq_inv_def)
  let ?r = "upd_proc p (\<lambda>x. x\<lparr>qn := qn x - 1\<rparr>) (qremove (Suc k) p s)"
  note r = qremove_only [OF ok k p]
  have r': "mlfq_ok ?r" "\<not> queued ?r p" and k': "k < NQUEUE" using r k by simp_all
  note m = push_mlfq [OF r'(1) k' r(3) r'(2)]
  have qr: "qlist ?r i = (if i = Suc k then remove1 p (qlist s i) else qlist s i)" if "i < NQUEUE" for i
    using qremove_qlist [OF ok k p that] by simp
  have nin: "p \<notin> set (qlist ?r i)" if "i < NQUEUE" for i
    using r'(2) that unfolding not_queued_iff [OF r'(1)] by blast
  have sub: "q \<in> set (qlist s i)" if "q \<in> set (qlist ?r i)" "i < NQUEUE" for q i
    using that qr [OF that(2)] set_remove1_subset [of p "qlist s i"] by (auto split: if_splits)
  have pt: "ptable ?r q = ptable s q" if "q \<noteq> p" for q using that by simp
  have other: "runnable (push k p ?r) q \<and> qn (ptable (push k p ?r) q) = int i"
    if "q \<in> set (qlist ?r i)" "i < NQUEUE" for q i
  proof -
    have "q \<noteq> p" using nin [OF that(2)] that(1) by auto
    then have "ptable (push k p ?r) q = ptable s q" using m(3) pt by simp
    then show ?thesis using sub [OF that] that(2) iv by (simp add: mlfq_inv_def)
  qed
  have new: "runnable (push k p ?r) p \<and> qn (ptable (push k p ?r) p) = int k" using m(4) rn by auto
  have "runnable (push k p ?r) q \<and> qn (ptable (push k p ?r) q) = int i"
    if "i < NQUEUE" "q \<in> set (qlist (push k p ?r) i)" for i q
    using m(2) [OF that(1)] that other new by auto
  moreover have "0 \<le> qn (ptable (push k p ?r) q) \<and> qn (ptable (push k p ?r) q) \<le> 4" if "q < NPROC" for q
  proof (cases "q = p")
    case True then show ?thesis using new k' by (simp add: NQUEUE_def)
  next
    case False
    then have "ptable (push k p ?r) q = ptable s q" using m(3) pt by simp
    then show ?thesis using iv that by (simp add: mlfq_inv_def)
  qed
  ultimately show "mlfq_inv (age_proc k p s)" using m(1) iv by (simp add: age_proc_def mlfq_inv_def)
  show "ptable (age_proc k p s) r = ptable s r" if "\<not> runnable s r"
  proof -
    have "r \<noteq> p" using that rn by auto
    then show ?thesis using m(3) [of r] pt [of r] by (simp add: age_proc_def)
  qed
  show "queued s q" if "queued (age_proc k p s) q"
  proof (cases "waittime (ptable s p) > age")
    case True
    then have "queued (push k p ?r) q" using that by (simp add: age_proc_def)
    then obtain i where i: "i < NQUEUE" "q \<in> set (qlist (push k p ?r) i)" by (auto simp: queued_qlist [OF m(1)])
    then consider "q \<in> set (qlist ?r i)" | "q = p" using m(2) [OF i(1)] by auto
    then show ?thesis using sub [of q i] i(1) p k unfolding queued_qlist [OF ok] by cases blast+
  qed (use that in \<open>simp add: age_proc_def\<close>)
qed

lemma age_fold_inv:
  assumes "scanning k b kept todo s" "mlfq_inv s"
  shows "mlfq_inv (fold (age_proc k) todo s) \<and> requeues s (fold (age_proc k) todo s)
    \<and> (\<forall>q. queued (fold (age_proc k) todo s) q \<longrightarrow> queued s q)
    \<and> (\<forall>q. \<not> runnable s q \<longrightarrow> ptable (fold (age_proc k) todo s) q = ptable s q)"
  using assms
proof (induction todo arbitrary: kept s)
  case (Cons p rest)
  have p: "Suc k < NQUEUE" "p \<in> set (qlist s (Suc k))" using Cons.prems(1) by (auto simp: scanning_def)
  note i = age_proc_inv [OF Cons.prems(2) p]
  from Cons.IH [OF age_proc_scanning [OF Cons.prems(1)] i(1)] show ?case
    using i(2,3) requeues_trans [OF age_proc_requeues [of s k p]] by simp
qed simp

lemma mlfq_aging_inv:
  assumes "mlfq_inv s"
  shows "\<exists>t. mlfq_aging s = Inr t \<and> mlfq_inv t \<and> requeues s t \<and> (\<forall>q. queued t q \<longrightarrow> queued s q)
    \<and> (\<forall>q. \<not> runnable s q \<longrightarrow> ptable t q = ptable s q)"
proof -
  have "\<exists>v. age_queue k u = Inr v \<and> mlfq_inv v \<and> requeues s v \<and> (\<forall>q. queued v q \<longrightarrow> queued s q)
      \<and> (\<forall>q. \<not> runnable s q \<longrightarrow> ptable v q = ptable s q)"
    if "k \<in> set [0..<NQUEUE - 1]" "mlfq_inv u \<and> requeues s u \<and> (\<forall>q. queued u q \<longrightarrow> queued s q)
      \<and> (\<forall>q. \<not> runnable s q \<longrightarrow> ptable u q = ptable s q)" for k u
  proof -
    have ok: "mlfq_ok u" and k: "Suc k < NQUEUE" using that by (auto simp: mlfq_inv_def)
    have "scanning k (qback u (Suc k)) [] (qlist u (Suc k)) u" using ok k by (simp add: scanning_def)
    note f = age_fold_inv [OF this]
    let ?v = "fold (age_proc k) (qlist u (Suc k)) u"
    have v: "mlfq_inv ?v" "requeues u ?v" "\<forall>q. queued ?v q \<longrightarrow> queued u q"
      "\<forall>q. \<not> runnable u q \<longrightarrow> ptable ?v q = ptable u q" using f that(2) by blast+
    have "\<forall>q. \<not> runnable s q \<longrightarrow> ptable ?v q = ptable s q"
      using v(4) that(2) requeues_state [of s u] by auto
    then show ?thesis
      using age_queue_fold [OF ok k] that(2) v requeues_trans [of s u ?v] by auto
  qed
  then show ?thesis unfolding mlfq_aging_def using assms by (intro foldk_total) auto
qed

section \<open>Dispatching\<close>

lemma run_on_eq:
  assumes "p_kstack (ptable s p) \<noteq> 0" "p_pgdir (ptable s p) \<noteq> 0"
  shows "run_on c p s = Inr (upd_proc p (\<lambda>x. x\<lparr>p_state := RUNNING\<rparr>)
    (upd_cpu c (\<lambda>x. x\<lparr>c_esp0 := p_kstack (ptable s p) + KSTACKSIZE, c_cr3 := p_pgdir (ptable s p) - KERNBASE\<rparr>)
      (upd_cpu c (\<lambda>x. x\<lparr>c_proc := Some p\<rparr>) s)))"
  using assms by (simp add: run_on_def switchuvm_def)

lemma run_on_Inr:
  assumes "run_on c p s = Inr t"
  shows "p_kstack (ptable s p) \<noteq> 0" "p_pgdir (ptable s p) \<noteq> 0"
    "ptable t = (ptable s)(p := (ptable s p)\<lparr>p_state := RUNNING\<rparr>)"
    "c_proc (cpus t c) = Some p" "c_scan (cpus t c) = c_scan (cpus s c)"
    "c' \<noteq> c \<Longrightarrow> cpus t c' = cpus s c'" "qlist t = qlist s" "mlfq_ok t = mlfq_ok s" "queued t = queued s"
    "nextpid t = nextpid s" "initproc t = initproc s" "ticks t = ticks s" "ncpu t = ncpu s"
    "kpgdir t = kpgdir s" "env t = env s"
    "c_cr3 (cpus t c) = p_pgdir (ptable s p) - KERNBASE"
    "c_esp0 (cpus t c) = p_kstack (ptable s p) + KSTACKSIZE"
    "qface t = qface s" "qback t = qback s" "queue t = queue s"
  using assms by (auto simp: run_on_def switchuvm_def split: if_splits)

subsection \<open>Round robin\<close>

text \<open>
  How many table slots the scan of CPU \<open>c\<close> still has to visit before slot \<open>p\<close>, counting the
  restart of the scan as one.
\<close>

definition rr_distance :: "'e kst \<Rightarrow> nat \<Rightarrow> nat \<Rightarrow> nat" where
  "rr_distance s c p =
     (let i = c_scan (cpus s c) in if i \<le> p then p - i else NPROC + 1 - i + p)"

lemma rr_step_cases:
  assumes "rr_step c s = Inr t"
  obtains "\<forall>i. c_scan (cpus s c) \<le> i \<and> i < NPROC \<longrightarrow> \<not> runnable s i" "t = set_scan c 0 s"
  | p u where "c_scan (cpus s c) \<le> p" "p < NPROC" "runnable s p"
      "\<forall>i. c_scan (cpus s c) \<le> i \<and> i < p \<longrightarrow> \<not> runnable s i"
      "run_on c p s = Inr u" "t = set_scan c p (inc_nrun p u)"
  using assms
  by (auto simp: rr_step_def and_then_Inr_iff find_upt_None_iff find_upt_Some_iff split: option.splits)

subsection \<open>First come first served\<close>

lemma fcfs_prefix:
  "case fold (\<lambda>p pro. if \<not> runnable s p then pro
              else case pro of None \<Rightarrow> Some p
                   | Some q \<Rightarrow> if ctime (ptable s p) < ctime (ptable s q) then Some p else Some q) [0..<n] None of
     None \<Rightarrow> \<forall>q<n. \<not> runnable s q
   | Some p \<Rightarrow> p < n \<and> runnable s p \<and> (\<forall>q<n. runnable s q \<longrightarrow>
       ctime (ptable s p) \<le> ctime (ptable s q) \<and> (q < p \<longrightarrow> ctime (ptable s p) < ctime (ptable s q)))"
  by (induction n) (fastforce simp: less_Suc_eq split: option.splits)+

lemma fcfs_pick_cases:
  "fcfs_pick s = None \<Longrightarrow> q < NPROC \<Longrightarrow> \<not> runnable s q"
  "fcfs_pick s = Some p \<Longrightarrow> p < NPROC \<and> runnable s p"
  "fcfs_pick s = Some p \<Longrightarrow> q < NPROC \<Longrightarrow> runnable s q \<Longrightarrow>
     ctime (ptable s p) \<le> ctime (ptable s q) \<and> (q < p \<longrightarrow> ctime (ptable s p) < ctime (ptable s q))"
  using fcfs_prefix [where s = s and n = NPROC] by (auto simp: fcfs_pick_def)

subsection \<open>Priority based\<close>

text \<open>The scan keeps the first runnable process of least priority.\<close>

lemma pbs_better_fold:
  assumes "h' = fold (pbs_better s) xs h"
  shows "h' = h \<or> (\<exists>i<length xs. h' = xs ! i \<and> runnable s h' \<and> priority (ptable s h') < priority (ptable s h)
           \<and> (\<forall>j<i. runnable s (xs ! j) \<longrightarrow> priority (ptable s h') < priority (ptable s (xs ! j))))"
    and "priority (ptable s h') \<le> priority (ptable s h)"
    and "\<forall>q\<in>set xs. runnable s q \<longrightarrow> priority (ptable s h') \<le> priority (ptable s q)"
  using assms
proof (induction xs arbitrary: h' rule: rev_induct)
  case (snoc x xs)
  let ?f = "fold (pbs_better s) xs h"
  have e: "pbs_better s x ?f = (if runnable s x \<and> priority (ptable s x) < priority (ptable s ?f) then x else ?f)"
    by (rule pbs_better_def)
  {
    case 1
    show ?case
    proof (cases "runnable s x \<and> priority (ptable s x) < priority (ptable s ?f)")
      case True
      then have "h' = (xs @ [x]) ! length xs" "runnable s h'" using 1 by (simp_all add: e)
      moreover have "priority (ptable s h') < priority (ptable s h)"
        using True 1 snoc.IH(2) [OF refl] by (simp add: e)
      moreover have "priority (ptable s h') < priority (ptable s ((xs @ [x]) ! j))"
        if "j < length xs" "runnable s ((xs @ [x]) ! j)" for j
        using True 1 that snoc.IH(3) [OF refl] nth_mem [OF that(1)] by (auto simp: e nth_append)
      ultimately show ?thesis by (metis length_append_singleton lessI)
    next
      case False
      then have "h' = ?f" using 1 by (auto simp: e split: if_splits)
      from snoc.IH(1) [OF this] show ?thesis
      proof
        assume "\<exists>i<length xs. h' = xs ! i \<and> runnable s h' \<and> priority (ptable s h') < priority (ptable s h)
          \<and> (\<forall>j<i. runnable s (xs ! j) \<longrightarrow> priority (ptable s h') < priority (ptable s (xs ! j)))"
        then obtain i where "i < length xs" "h' = xs ! i" "runnable s h'" "priority (ptable s h') < priority (ptable s h)"
          "\<forall>j<i. runnable s (xs ! j) \<longrightarrow> priority (ptable s h') < priority (ptable s (xs ! j))" by blast
        then show ?thesis by (intro disjI2 exI [of _ i]) (auto simp: nth_append)
      qed simp
    qed
  next
    case 2
    then show ?case using snoc.IH(2) [OF refl] by (auto simp: e split: if_splits)
  next
    case 3
    then show ?case using snoc.IH(3) [OF refl] by (auto simp: e split: if_splits)
  }
qed auto

text \<open>The slots in the order the two inner loops visit them.\<close>

lemma pbs_order:
  assumes "p < NPROC" "d < NPROC"
  shows "(p # [p + 1..<NPROC] @ [0..<p]) ! d = (p + d) mod NPROC"
  using assms by (auto simp: nth_Cons' nth_append mod_if)

lemma pbs_pick_fold: "pbs_pick s p = fold (pbs_better s) ([p + 1..<NPROC] @ [0..<p]) p"
  by (simp add: pbs_pick_def)

lemma pbs_pick_spec:
  assumes p: "p < NPROC" "runnable s p"
  obtains e where "e < NPROC" "pbs_pick s p = (p + e) mod NPROC" "runnable s (pbs_pick s p)"
    "\<And>d. d < NPROC \<Longrightarrow> runnable s ((p + d) mod NPROC) \<Longrightarrow>
       priority (ptable s (pbs_pick s p)) \<le> priority (ptable s ((p + d) mod NPROC))
       \<and> (d < e \<longrightarrow> priority (ptable s (pbs_pick s p)) < priority (ptable s ((p + d) mod NPROC)))"
proof -
  let ?xs = "[p + 1..<NPROC] @ [0..<p]"
  let ?h = "pbs_pick s p"
  note b = pbs_better_fold [OF pbs_pick_fold [of s p]]
  have len: "length ?xs = NPROC - 1" using p by simp
  have at: "?xs ! d = (p + Suc d) mod NPROC" if "Suc d < NPROC" for d
    using pbs_order [OF p(1) that] by simp
  have mn: "priority (ptable s ?h) \<le> priority (ptable s ((p + d) mod NPROC))"
    if "d < NPROC" "runnable s ((p + d) mod NPROC)" for d
  proof (cases d)
    case 0 then show ?thesis using b(2) p by simp
  next
    case (Suc d')
    then have "(p + d) mod NPROC \<in> set ?xs" using at [of d'] that len nth_mem [of d' ?xs] by simp
    then show ?thesis using b(3) that by blast
  qed
  show thesis
  proof (cases "?h = p")
    case True
    then show thesis using that [of 0] p mn by simp
  next
    case False
    then obtain i where i: "i < length ?xs" "?h = ?xs ! i" "runnable s ?h" "priority (ptable s ?h) < priority (ptable s p)"
      "\<forall>j<i. runnable s (?xs ! j) \<longrightarrow> priority (ptable s ?h) < priority (ptable s (?xs ! j))"
      using b(1) by auto
    have "priority (ptable s ?h) < priority (ptable s ((p + d) mod NPROC))"
      if "d < Suc i" "runnable s ((p + d) mod NPROC)" for d
      using that i at [of "d - 1"] p len by (cases d) auto
    then show thesis using that [of "Suc i"] i at [of i] len mn by auto
  qed
qed

subsection \<open>Multi-level feedback queue\<close>

lemma mlfq_pop_cases:
  assumes ok: "mlfq_ok s"
  shows "find (\<lambda>i. qlist s i \<noteq> []) [0..<NQUEUE] = None \<Longrightarrow> mlfq_pop s = (None, s)"
    and "find (\<lambda>i. qlist s i \<noteq> []) [0..<NQUEUE] = Some i \<Longrightarrow> i < NQUEUE \<and> qlist s i \<noteq> [] \<and> mlfq_pop s = pop i s"
proof -
  have "(qface s i \<noteq> -1) = (qlist s i \<noteq> [])" if "i < NQUEUE" for i
    using ring_Nil_iff [OF mlfq_okD(1) [OF ok that]] by (simp add: qlist_def)
  then have eq: "find (\<lambda>i. qface s i \<noteq> -1) [0..<NQUEUE] = find (\<lambda>i. qlist s i \<noteq> []) [0..<NQUEUE]"
    by (intro find_cong) auto
  show "find (\<lambda>i. qlist s i \<noteq> []) [0..<NQUEUE] = None \<Longrightarrow> mlfq_pop s = (None, s)"
    by (simp add: mlfq_pop_def eq)
  assume f: "find (\<lambda>i. qlist s i \<noteq> []) [0..<NQUEUE] = Some i"
  then have "i < NQUEUE \<and> qlist s i \<noteq> []" by (auto simp: find_upt_Some_iff)
  with f show "i < NQUEUE \<and> qlist s i \<noteq> [] \<and> mlfq_pop s = pop i s" by (simp add: mlfq_pop_def eq)
qed

lemma mlfq_aging_lists:
  assumes "mlfq_ok s" "unmasked_aged s"
  obtains t where "mlfq_aging s = Inr t" "mlfq_ok t" "\<And>i. i < NQUEUE \<Longrightarrow> qlist t i = aged_list s (NQUEUE - 1) i"
    "\<And>q. ptable t q = (if (\<exists>i. 0 < i \<and> i < NQUEUE \<and> q \<in> set (qlist s i)) \<and> aged s q
                         then promoted (ptable s q) else ptable s q)"
proof -
  have "NQUEUE - 1 < NQUEUE" "(i \<le> NQUEUE - 1) = (i < NQUEUE)" for i by (auto simp: NQUEUE_def)
  then show thesis using aging_prefix [OF assms, of "NQUEUE - 1"] that unfolding mlfq_aging_def by auto
qed

section \<open>Correctness of the scheduler\<close>

text \<open>C4: one aging pass over the four lower queues, on arrays that are shifted while they
  are scanned, is the simultaneous promotion of every process that waited more than \<open>age\<close>
  ticks: each queue keeps, in order, its processes that have not waited that long, followed
  by the ones promoted from the queue below; a promoted process has its level decremented
  and its clocks reset. No stale pointer to an aged process may sit in front of a row.\<close>

theorem aging_promotes:
  assumes "mlfq_ok s" "unmasked_aged s"
  shows "\<exists>t. mlfq_aging s = Inr t \<and> mlfq_ok t
    \<and> (\<forall>i<NQUEUE. qlist t i = (if i = 0 then qlist s i else filter (\<lambda>p. \<not> aged s p) (qlist s i))
          @ (if Suc i < NQUEUE then filter (aged s) (qlist s (Suc i)) else []))
    \<and> (\<forall>q. ptable t q = (if (\<exists>i. 0 < i \<and> i < NQUEUE \<and> q \<in> set (qlist s i)) \<and> aged s q
                         then promoted (ptable s q) else ptable s q))"
proof -
  obtain t where t: "mlfq_aging s = Inr t" "mlfq_ok t" "\<And>i. i < NQUEUE \<Longrightarrow> qlist t i = aged_list s (NQUEUE - 1) i"
    "\<And>q. ptable t q = (if (\<exists>i. 0 < i \<and> i < NQUEUE \<and> q \<in> set (qlist s i)) \<and> aged s q
                         then promoted (ptable s q) else ptable s q)"
    by (rule mlfq_aging_lists [OF assms]) (rule that; assumption)
  have "aged_list s (NQUEUE - 1) i = (if i = 0 then qlist s i else filter (\<lambda>p. \<not> aged s p) (qlist s i))
          @ (if Suc i < NQUEUE then filter (aged s) (qlist s (Suc i)) else [])" if "i < NQUEUE" for i
    using that by (auto simp: aged_list_def)
  with t show ?thesis by auto
qed

text \<open>A queue 1 with one process that has waited 20 ticks.\<close>

definition aged1 :: "unit kst" where
  "aged1 = upd_proc 7 (\<lambda>x. x\<lparr>p_state := RUNNABLE, qn := 1, waittime := 20, p_kstack := 4096, p_pgdir := 0x80000000\<rparr>) boot1"

lemma aged1_facts:
  "mlfq_ok aged1" "qlist aged1 (Suc 0) = [7]" "i < NQUEUE \<Longrightarrow> i \<noteq> Suc 0 \<Longrightarrow> qlist aged1 i = []"
  "unmasked_aged aged1" "aged aged1 7" "p_state (ptable aged1 7) = RUNNABLE"
  "p_kstack (ptable aged1 7) \<noteq> 0" "p_pgdir (ptable aged1 7) \<noteq> 0"
  using boot1_facts boot1_cells by (simp_all add: aged1_def unmasked_aged_def aged_def age_def)

lemma aged1_runnable: "runnable aged1 i \<longleftrightarrow> i = 7"
  using aged1_facts(6) by (cases "i = 7")
    (simp_all add: aged1_def boot1_def push_def main_queues_fields NQUEUE_def load_kernel_def zero_proc_def)

lemma aged1_scan: "find (runnable aged1) [c_scan (cpus aged1 0)..<NPROC] = Some 7"
proof -
  have "c_scan (cpus aged1 0) = 0" by (simp add: aged1_def boot1_def main_queues_fields load_kernel_def)
  then show ?thesis unfolding find_upt_Some_iff aged1_runnable by (auto simp: NPROC_def)
qed

theorem aging_promotes_witness: "\<exists>t. mlfq_aging aged1 = Inr t \<and> qlist t 0 = [7] \<and> qlist t 1 = []"
  using aging_promotes [of aged1] aged1_facts by (force simp: NQUEUE_def)

text \<open>C5: the round-robin scheduler never passes over a runnable process: a step of a CPU
  either runs process \<open>p\<close> or, once the CPU is back in its scheduler, has brought the scan
  closer to it.\<close>

theorem rr_progress:
  assumes "runnable s p" "p < NPROC" "c_scan (cpus s c) \<le> NPROC" "rr_step c s = Inr t"
  shows "c_proc (cpus t c) = Some p
    \<or> rr_distance t c p < rr_distance s c p \<and> c_proc (cpus t c) = c_proc (cpus s c)
    \<or> (\<exists>q. c_proc (cpus t c) = Some q \<and> rr_distance (scheduler_return ROUND_ROBIN c q t) c p < rr_distance s c p)"
  using assms(4)
proof (cases rule: rr_step_cases)
  case 1
  then have "p < c_scan (cpus s c)" using assms(1,2) by (meson not_le)
  then show ?thesis using 1(2) assms(3) by (auto simp: set_scan_def rr_distance_def Let_def)
next
  case (2 q u)
  have c: "c_proc (cpus t c) = Some q" "c_scan (cpus t c) = q"
    using 2(6) run_on_Inr(4,5) [OF 2(5)] by (simp_all add: set_scan_def inc_nrun_def)
  have "c_scan (cpus (scheduler_return ROUND_ROBIN c q t) c) = q + 1"
    using c by (simp add: scheduler_return_def set_scan_def switchkvm_def)
  moreover have "q \<noteq> p \<Longrightarrow> \<not> (c_scan (cpus s c) \<le> p \<and> p < q)" using 2(4) assms(1) by auto
  ultimately show ?thesis using c 2(1,2) assms(2,3) by (cases "q = p") (auto simp: rr_distance_def Let_def)
qed

theorem rr_progress_witness:
  "\<exists>t. rr_step 0 aged1 = Inr t \<and> c_proc (cpus t 0) = Some 7"
proof -
  obtain t where t: "rr_step 0 aged1 = Inr t" "c_proc (cpus t 0) = Some 7"
    using run_on_eq [OF aged1_facts(7,8), of 0] aged1_scan
    by (simp add: rr_step_def set_scan_def inc_nrun_def)
  have "c_scan (cpus aged1 0) = 0" by (simp add: aged1_def boot1_def main_queues_fields load_kernel_def)
  with rr_progress [OF aged1_facts(6) _ _ t(1)] t show ?thesis by (auto simp: NPROC_def)
qed

text \<open>C6: the first-come-first-served scheduler runs a runnable process that was created
  first, the one in the lowest slot among equals, and runs none only when none is
  runnable.\<close>

theorem fcfs_runs_oldest:
  assumes "fcfs_step c s = Inr t"
  shows "if \<exists>q<NPROC. runnable s q
    then \<exists>p<NPROC. c_proc (cpus t c) = Some p \<and> runnable s p \<and> p_state (ptable t p) = RUNNING
       \<and> (\<forall>q<NPROC. runnable s q \<longrightarrow> ctime (ptable s p) \<le> ctime (ptable s q)
            \<and> (ctime (ptable s q) = ctime (ptable s p) \<longrightarrow> p \<le> q))
    else t = s"
proof (cases "fcfs_pick s")
  case None
  then show ?thesis using fcfs_pick_cases(1) [OF None] assms by (auto simp: fcfs_step_def)
next
  case (Some p)
  note f = fcfs_pick_cases(2,3) [OF Some]
  have "p \<noteq> NPROC" using f by auto
  moreover have r: "run_on c p (inc_nrun NPROC s) = Inr t" using assms Some by (simp add: fcfs_step_def)
  ultimately have "c_proc (cpus t c) = Some p" "p_state (ptable t p) = RUNNING"
    using run_on_Inr(3,4) [OF r] by simp_all
  moreover have "p \<le> q" if "q < NPROC" "runnable s q" "ctime (ptable s q) = ctime (ptable s p)" for q
    using f(2) [OF that(1,2)] that(3) by (cases "q < p") auto
  ultimately show ?thesis using f by auto
qed

theorem fcfs_runs_oldest_witness: "\<exists>t. fcfs_step 0 aged1 = Inr t \<and> c_proc (cpus t 0) = Some 7"
proof -
  have pk: "fcfs_pick aged1 = Some 7"
    using fcfs_pick_cases(1) [of aged1 7] fcfs_pick_cases(2) [of aged1]
    by (cases "fcfs_pick aged1") (auto simp: NPROC_def aged1_runnable)
  then obtain t where t: "fcfs_step 0 aged1 = Inr t"
    using run_on_eq [of "inc_nrun NPROC aged1" 7 0] aged1_facts(7,8) by (simp add: fcfs_step_def inc_nrun_def NPROC_def)
  from fcfs_runs_oldest [OF t] t show ?thesis by (auto simp: NPROC_def aged1_runnable split: if_splits)
qed

text \<open>C7: the priority scheduler runs a process of least priority value among all that are
  runnable, and among equals the first one at or after the slot its scan has reached, so
  that processes of the same priority take turns.\<close>

theorem pbs_runs_best:
  assumes "pbs_step c s = Inr t" "find (runnable s) [c_scan (cpus s c)..<NPROC] = Some p"
  shows "\<exists>e<NPROC. let hp = (p + e) mod NPROC in
      c_proc (cpus t c) = Some hp \<and> runnable s hp \<and> p_state (ptable t hp) = RUNNING
    \<and> nrun (ptable t hp) = nrun (ptable s hp) + 1 \<and> c_scan (cpus t c) = hp
    \<and> (\<forall>d<NPROC. runnable s ((p + d) mod NPROC) \<longrightarrow>
         priority (ptable s hp) \<le> priority (ptable s ((p + d) mod NPROC))
         \<and> (d < e \<longrightarrow> priority (ptable s hp) < priority (ptable s ((p + d) mod NPROC))))"
proof -
  have p: "p < NPROC" "runnable s p" using assms(2) by (auto simp: find_upt_Some_iff)
  obtain e where e: "e < NPROC" "pbs_pick s p = (p + e) mod NPROC" "runnable s (pbs_pick s p)"
    "\<And>d. d < NPROC \<Longrightarrow> runnable s ((p + d) mod NPROC) \<Longrightarrow>
       priority (ptable s (pbs_pick s p)) \<le> priority (ptable s ((p + d) mod NPROC))
       \<and> (d < e \<longrightarrow> priority (ptable s (pbs_pick s p)) < priority (ptable s ((p + d) mod NPROC)))"
    using pbs_pick_spec [OF p] by blast
  let ?h = "pbs_pick s p"
  obtain u where u: "run_on c ?h (inc_nrun ?h s) = Inr u" "t = set_scan c ?h u"
    using assms by (auto simp: pbs_step_def Let_def and_then_Inr_iff)
  have "c_proc (cpus t c) = Some ?h" "p_state (ptable t ?h) = RUNNING"
    "nrun (ptable t ?h) = nrun (ptable s ?h) + 1" "c_scan (cpus t c) = ?h"
    using run_on_Inr(3,4) [OF u(1)] u(2) by (simp_all add: set_scan_def inc_nrun_def)
  then show ?thesis using e by (intro exI [of _ e]) (simp add: Let_def)
qed

theorem pbs_runs_best_witness: "\<exists>t. pbs_step 0 aged1 = Inr t \<and> c_proc (cpus t 0) = Some 7"
proof -
  have p: "pbs_pick aged1 7 = 7"
    by (rule pbs_pick_spec [of 7 aged1]) (simp_all add: aged1_runnable NPROC_def)
  then obtain t where t: "pbs_step 0 aged1 = Inr t"
    using run_on_eq [of "inc_nrun 7 aged1" 7 0] aged1_facts(7,8) aged1_scan
    by (simp add: pbs_step_def inc_nrun_def)
  from pbs_runs_best [OF t aged1_scan] t show ?thesis by (auto simp: Let_def aged1_runnable)
qed

text \<open>C8: a step of the feedback scheduler first ages the queues and then runs the process
  at the front of the highest queue that is not empty; the process leaves its queue, its
  clocks are reset and its run count goes up, and no other queue changes.\<close>

theorem mlfq_runs_front:
  assumes inv: "mlfq_inv s" "unmasked_aged s"
    and first: "find (\<lambda>i. aged_list s (NQUEUE - 1) i \<noteq> []) [0..<NQUEUE] = Some i"
    and front: "aged_list s (NQUEUE - 1) i = p # ps"
    and res: "p_kstack (ptable s p) \<noteq> 0" "p_pgdir (ptable s p) \<noteq> 0"
  shows "\<exists>t. mlfq_step c s = Inr t \<and> c_proc (cpus t c) = Some p \<and> p_state (ptable t p) = RUNNING
    \<and> waittime (ptable t p) = 0 \<and> curtime (ptable t p) = 0 \<and> nrun (ptable t p) = nrun (ptable s p) + 1
    \<and> qlist t i = ps \<and> (\<forall>j<NQUEUE. j \<noteq> i \<longrightarrow> qlist t j = aged_list s (NQUEUE - 1) j) \<and> mlfq_ok t"
proof -
  have ok: "mlfq_ok s" using inv by (simp add: mlfq_inv_def)
  obtain u where u: "mlfq_aging s = Inr u" "mlfq_ok u" "\<And>i. i < NQUEUE \<Longrightarrow> qlist u i = aged_list s (NQUEUE - 1) i"
    by (rule mlfq_aging_lists [OF ok inv(2)]) (rule that; assumption)
  obtain u' where u': "mlfq_aging s = Inr u'" "mlfq_inv u'" "requeues s u'"
    using mlfq_aging_inv [OF inv(1)] by blast
  then have iu: "mlfq_inv u" "requeues s u" using u(1) by auto
  have "find (\<lambda>i. qlist u i \<noteq> []) [0..<NQUEUE] = find (\<lambda>i. aged_list s (NQUEUE - 1) i \<noteq> []) [0..<NQUEUE]"
    using u(3) by (intro find_cong) auto
  then have pop: "i < NQUEUE" "mlfq_pop u = pop i u" using mlfq_pop_cases(2) [OF u(2)] first by auto
  then have q: "qlist u i = p # ps" using u(3) front by simp
  note d = pop_qlist [OF u(2) pop(1) q]
  let ?v = "snd (pop i u)"
  have "runnable u p" using iu(1) q pop(1) by (simp add: mlfq_inv_def)
  moreover have core: "sched_core (ptable u p) = sched_core (ptable s p)" using iu(2) by (simp add: requeues_def)
  note c = sched_core_fields(2,3,16) [OF core]
  let ?w = "upd_proc p (\<lambda>x. x\<lparr>waittime := 0, curtime := 0, nrun := nrun x + 1\<rparr>) ?v"
  obtain t where r: "run_on c p ?w = Inr t"
    using run_on_eq [of ?w p c] res c by simp
  ultimately have "mlfq_step c s = Inr t"
    using u(1) pop(2) d(1) by (simp add: mlfq_step_def Let_def case_prod_beta)
  moreover have "ptable t p = (ptable u p)\<lparr>waittime := 0, curtime := 0, nrun := nrun (ptable u p) + 1, p_state := RUNNING\<rparr>"
    using run_on_Inr(3) [OF r] by simp
  moreover have "qlist t = qlist ?v" "mlfq_ok t" using run_on_Inr(7,8) [OF r] d(3) by simp_all
  ultimately show ?thesis using run_on_Inr(4) [OF r] c d(2) pop(1) u(3) by auto
qed

lemma aged1_inv: "mlfq_inv aged1"
proof -
  have "ptable aged1 p = zero_proc" if "p \<noteq> 7" for p
    using that by (simp add: aged1_def boot1_def push_def main_queues_fields NQUEUE_def load_kernel_def)
  moreover have "qn (ptable aged1 7) = 1" by (simp add: aged1_def)
  ultimately have "0 \<le> qn (ptable aged1 p) \<and> qn (ptable aged1 p) \<le> 4" for p by (cases "p = 7") (simp_all add: zero_proc_def)
  moreover have "runnable aged1 p \<and> qn (ptable aged1 p) = int i" if "i < NQUEUE" "p \<in> set (qlist aged1 i)" for i p
    using aged1_facts(2,6) aged1_facts(3) [OF that(1)] that \<open>qn (ptable aged1 7) = 1\<close> by (cases "i = Suc 0") auto
  ultimately show ?thesis using aged1_facts(1) by (simp add: mlfq_inv_def)
qed

theorem mlfq_runs_front_witness: "\<exists>t. mlfq_step 0 aged1 = Inr t \<and> c_proc (cpus t 0) = Some 7 \<and> qlist t 0 = []"
proof -
  have l: "aged_list aged1 (NQUEUE - 1) 0 = 7 # []"
    using aged1_facts by (simp add: aged_list_def NQUEUE_def)
  then have "find (\<lambda>i. aged_list aged1 (NQUEUE - 1) i \<noteq> []) [0..<NQUEUE] = Some 0"
    by (simp add: find_upt_Some_iff NQUEUE_def)
  from mlfq_runs_front [OF aged1_inv aged1_facts(4) this l aged1_facts(7,8)] show ?thesis by blast
qed

text \<open>C9: a process that comes back from the CPU runnable goes to the end of the queue it
  ran from, or of the next lower one if it used up its slice (\<^verbatim>\<open>flagq\<close> is 1) and is not
  at the bottom already; the scheduling invariant is kept.\<close>

theorem requeue_demotes:
  fixes s :: "'e kst"
  defines "level x \<equiv> (if flagq x = 1 \<and> qn x \<noteq> 4 then qn x + 1 else qn x)"
  assumes inv: "mlfq_inv s" and p: "p < NPROC" "runnable s p" "\<not> queued s p"
    and adm: "push_admits s (nat (level (ptable s p))) p"
  defines "t \<equiv> mlfq_requeue p s" and "a \<equiv> nat (level (ptable s p))"
  shows "mlfq_inv t \<and> qlist t a = qlist s a @ [p] \<and> (\<forall>i<NQUEUE. i \<noteq> a \<longrightarrow> qlist t i = qlist s i)
    \<and> qn (ptable t p) = level (ptable s p) \<and> flagq (ptable t p) \<noteq> 1 \<and> (\<forall>q. q \<noteq> p \<longrightarrow> ptable t q = ptable s q)"
proof -
  define f :: "proc \<Rightarrow> proc" where "f = (if flagq (ptable s p) = 1
      then (\<lambda>x. x\<lparr>flagq := 0, curtime := 0, waittime := 0, qn := (if qn x \<noteq> 4 then qn x + 1 else qn x)\<rparr>)
      else (\<lambda>x. x\<lparr>curtime := 0\<rparr>))"
  let ?u = "upd_proc p f s"
  have ok: "mlfq_ok ?u" and rng: "0 \<le> qn (ptable s p)" "qn (ptable s p) \<le> 4"
    using inv p(1) by (auto simp: mlfq_inv_def)
  have f: "qn (f (ptable s p)) = level (ptable s p)" "flagq (f (ptable s p)) \<noteq> 1" "runnable ?u p"
    using p(2) by (auto simp: f_def level_def)
  have a: "a < NQUEUE" "int a = level (ptable s p)" using rng by (auto simp: a_def level_def NQUEUE_def)
  have "t = push (nat (qn (ptable ?u p))) p ?u"
    using p(2) by (auto simp: t_def mlfq_requeue_def f_def Let_def)
  then have t: "t = push a p ?u" using f(1) by (simp add: a_def)
  have nq: "\<not> queued ?u p" "push_admits ?u a p" using p(3) adm by (simp_all add: a_def)
  have ql: "qlist t i = (if i = a then qlist s a @ [p] else qlist s i)" if "i < NQUEUE" for i
    unfolding t using push_qlist [OF ok a(1) p(1) nq(2,1) that] by simp
  note m = push_mlfq [OF ok a(1) p(1) nq(1), folded t]
  have pt: "ptable t q = ptable s q" if "q \<noteq> p" for q using m(3) [OF that] that by simp
  have tp: "runnable t p" "qn (ptable t p) = int a" "flagq (ptable t p) \<noteq> 1" using m(4) f a by auto
  have "p \<notin> set (qlist s i)" if "i < NQUEUE" for i
    using p(3) that inv by (auto simp: mlfq_inv_def not_queued_iff)
  then have "runnable t q \<and> qn (ptable t q) = int i" if "i < NQUEUE" "q \<in> set (qlist t i)" for i q
    using that ql [OF that(1)] inv pt tp by (cases "q = p") (auto simp: mlfq_inv_def split: if_splits)
  moreover have "0 \<le> qn (ptable t q) \<and> qn (ptable t q) \<le> 4" if "q < NPROC" for q
    using inv that pt [of q] tp a by (cases "q = p") (auto simp: mlfq_inv_def NQUEUE_def)
  ultimately have "mlfq_inv t" using m(1) by (simp add: mlfq_inv_def)
  then show ?thesis using ql a tp pt by simp
qed

text \<open>Process 9 comes back to \<open>aged1\<close> after using up its slice at level 0.\<close>

definition back1 :: "unit kst" where
  "back1 = upd_proc 9 (\<lambda>x. x\<lparr>p_state := RUNNABLE, flagq := 1\<rparr>) aged1"

theorem requeue_demotes_witness: "qlist (mlfq_requeue 9 back1) 1 = [7, 9] \<and> qn (ptable (mlfq_requeue 9 back1) 9) = 1"
proof -
  have z: "qn (ptable back1 9) = 0" "flagq (ptable back1 9) = 1" "runnable back1 9"
    by (simp_all add: back1_def aged1_def boot1_def push_def main_queues_fields NQUEUE_def load_kernel_def zero_proc_def)
  have "mlfq_inv back1" using aged1_inv by (auto simp: back1_def mlfq_inv_def)
  moreover have "\<not> queued back1 9" "push_admits back1 1 9"
    using boot1_facts(4) boot1_cells by (simp_all add: back1_def aged1_def push_admits_def)
  moreover have "qlist back1 1 = [7]" using aged1_facts(2) by (simp add: back1_def)
  ultimately show ?thesis using requeue_demotes [of back1 9] z by (simp add: NPROC_def)
qed

text \<open>C10: a process can be lost. If the only process of a queue sits in the last slot of
  its row, has waited longer than \<open>age\<close>, the next lower queue is empty and the next higher
  one is not, then the aging pass takes the process out of its queue but the push to the
  higher queue mistakes the stale slot for the process and does nothing: the process stays
  runnable and is in no queue.\<close>

theorem aging_loses_process:
  assumes inv: "mlfq_inv s" and k: "k + 2 < NQUEUE"
    and last: "qface s (k + 1) = 63" "qback s (k + 1) = 63" "qget s (k + 1) 63 = Some p"
    and old: "waittime (ptable s p) > age" and empty: "qface s (k + 2) = -1" and above: "qface s k \<noteq> -1"
  shows "\<exists>t. age_queue k s = Inr t \<and> p_state (ptable t p) = RUNNABLE \<and> \<not> queued t p"
proof -
  have ok: "mlfq_ok s" and k1: "Suc k < NQUEUE" using inv k by (auto simp: mlfq_inv_def)
  have q: "qlist s (Suc k) = [p]" using last by (simp add: qlist_def ring_def)
  then have rn: "runnable s p" using inv k1 by (simp add: mlfq_inv_def)
  let ?r = "upd_proc p (\<lambda>x. x\<lparr>qn := qn x - 1\<rparr>) (qremove (Suc k) p s)"
  have rem: "qremove (Suc k) p s = set_back (Suc k) (-1) (set_face (Suc k) (-1) s)"
    using last by (simp add: qremove_def)
  have "qback s (k + 2) = -1" using ring_Nil_back [OF mlfq_okD(1) [OF ok k]] empty ring_Nil_iff [OF mlfq_okD(1) [OF ok k]] by simp
  moreover have "qget s (k + 2) (-1) = Some p" using last(3) by (simp add: qget_def qslot_def NPROC_def algebra_simps)
  ultimately have "qscan ?r (k + 2) (Some p)" using empty by (simp add: qscan_def rem)
  then have "list_ex (\<lambda>i. qscan ?r i (Some p)) [0..<NQUEUE]" using k by (auto simp: list_ex_iff)
  then have "push k p ?r = ?r" using above by (simp add: push_def rem)
  then have "age_queue k s = Inr ?r" using age_queue_fold [OF ok k1] q old by (simp add: age_proc_def)
  moreover have "\<not> queued ?r p" using qremove_only(2) [OF ok k1] q by simp
  ultimately show ?thesis using rn by (intro exI [of _ ?r]) simp
qed

definition stale :: "unit kst" where
  "stale = (load_kernel 1 0 ())\<lparr>
     ptable := (\<lambda>_. zero_proc)(3 := zero_proc\<lparr>p_state := RUNNABLE, qn := 1, waittime := 19\<rparr>,
                              5 := zero_proc\<lparr>p_state := RUNNABLE\<rparr>),
     qface := (\<lambda>_. -1)(0 := 0, 1 := 63), qback := (\<lambda>_. -1)(0 := 0, 1 := 63),
     queue := (\<lambda>_. None)(0 := Some 5, 127 := Some 3)\<rparr>"

lemma stale_inv: "mlfq_inv stale"
proof -
  have r: "ring stale i = (if i = 0 then [Some 5] else if i = 1 then [Some 3] else [])" for i
    by (simp add: ring_def stale_def qget_def qslot_def NPROC_def)
  have "mlfq_ok stale"
    unfolding mlfq_ok_def rings_ok_def r ring_ok_def by (auto simp: stale_def NPROC_def)
  moreover have "qlist stale i = (if i = 0 then [5] else if i = 1 then [3] else [])" for i
    by (simp add: qlist_def r)
  ultimately show ?thesis by (auto simp: mlfq_inv_def stale_def zero_proc_def)
qed

theorem aging_loses_process_witness:
  "\<exists>t. age_queue 0 stale = Inr t \<and> p_state (ptable t 3) = RUNNABLE \<and> \<not> queued t 3"
  by (rule aging_loses_process [OF stale_inv])
    (simp_all add: stale_def NQUEUE_def age_def qget_def qslot_def NPROC_def)

end
