(* ===== verification/Proc.thy ===== *)
theory Proc
  imports Sched
begin

text \<open>
  Process management of \<^verbatim>\<open>proc.c\<close>: allocation, fork, exit, wait and waitx, sleep and
  wakeup, kill, priorities and the process listing. A definition is one critical section of
  \<^verbatim>\<open>ptable.lock\<close>, or a composition of such sections and calls to the layers below.

  The calls into the page allocator, the page tables and the file system are the fields of
  \<open>kops\<close>; they work on the component \<open>env\<close> of the state.
\<close>

section \<open>The layers below\<close>

text \<open>
  Allocators return 0 (\<^verbatim>\<open>NULL\<close>) on failure. \<open>op_poke\<close> stores a word in kernel memory.
  \<open>op_iput\<close> is \<^verbatim>\<open>begin_op(); iput(ip); end_op();\<close> and \<open>op_root\<close> is
  \<^verbatim>\<open>namei("/")\<close>; \<open>op_iinit\<close> and \<open>op_initlog\<close> are \<^verbatim>\<open>iinit(ROOTDEV)\<close> and
  \<^verbatim>\<open>initlog(ROOTDEV)\<close>. \<open>op_callerpcs\<close> is \<^verbatim>\<open>getcallerpcs\<close>, which follows the frame
  pointers of a kernel stack.
\<close>

record 'e kops =
  op_kalloc :: "'e \<Rightarrow> u32 \<times> 'e"
  op_kfree :: "u32 \<Rightarrow> 'e \<Rightarrow> 'e kres"
  op_poke :: "u32 \<Rightarrow> u32 \<Rightarrow> 'e \<Rightarrow> 'e"
  op_setupkvm :: "'e \<Rightarrow> (u32 \<times> 'e) kres"
  op_inituvm :: "u32 \<Rightarrow> 'e \<Rightarrow> 'e kres"
  op_copyuvm :: "u32 \<Rightarrow> u32 \<Rightarrow> 'e \<Rightarrow> (u32 \<times> 'e) kres"
  op_allocuvm :: "u32 \<Rightarrow> u32 \<Rightarrow> u32 \<Rightarrow> 'e \<Rightarrow> (u32 \<times> 'e) kres"
  op_deallocuvm :: "u32 \<Rightarrow> u32 \<Rightarrow> u32 \<Rightarrow> 'e \<Rightarrow> (u32 \<times> 'e) kres"
  op_freevm :: "u32 \<Rightarrow> 'e \<Rightarrow> 'e kres"
  op_filedup :: "nat \<Rightarrow> 'e \<Rightarrow> 'e kres"
  op_fileclose :: "nat \<Rightarrow> 'e \<Rightarrow> 'e kres"
  op_idup :: "nat \<Rightarrow> 'e \<Rightarrow> 'e kres"
  op_iput :: "nat \<Rightarrow> 'e \<Rightarrow> 'e kres"
  op_root :: "'e \<Rightarrow> nat option \<times> 'e"
  op_iinit :: "'e \<Rightarrow> 'e kres"
  op_initlog :: "'e \<Rightarrow> 'e kres"
  op_callerpcs :: "u32 \<Rightarrow> 'e \<Rightarrow> u32 list"
  addr_forkret :: u32
  addr_trapret :: u32

definition upd_env :: "('e \<Rightarrow> 'e kres) \<Rightarrow> 'e kst \<Rightarrow> 'e kst kres" where
  "upd_env f s = and_then (f (env s)) (\<lambda>e. Inr (s\<lparr>env := e\<rparr>))"

section \<open>Allocation\<close>

definition find_slot :: "procstate \<Rightarrow> 'e kst \<Rightarrow> nat option" where
  "find_slot st s = find (\<lambda>p. p_state (ptable s p) = st) [0..<NPROC]"

text \<open>
  The label \<^verbatim>\<open>found\<close>. The counter of process ids is an \<^verbatim>\<open>int\<close>: \<^verbatim>\<open>nextpid++\<close> at
  \<open>INT_MAX\<close> is a signed overflow, \<open>Inl ''overflow''\<close>.
\<close>

definition alloc_init :: "nat \<Rightarrow> 'e kst \<Rightarrow> 'e kst" where
  "alloc_init p s =
     (upd_proc p (\<lambda>x. x\<lparr>qnt := (qnt x)(0 := 0, 1 := 0, 2 := 0, 3 := 0, 4 := 0),
        p_state := EMBRYO, p_pid := nextpid s, ctime := sint (ticks s), etime := 0, runtime := 0,
        waittime := 0, qn := 0, curtime := 0, nrun := 0, priority := 60, flagq := 0\<rparr>) s)
     \<lparr>nextpid := nextpid s + 1\<rparr>"

definition alloc_found :: "nat \<Rightarrow> 'e kst \<Rightarrow> 'e kst kres" where
  "alloc_found p s = (if nextpid s + 1 > INT_MAX then Inl ''overflow'' else Inr (alloc_init p s))"

definition alloc_stack :: "'e kops \<Rightarrow> nat \<Rightarrow> 'e kst \<Rightarrow> bool \<times> 'e kst" where
  "alloc_stack ops p s =
     (let (k, e) = op_kalloc ops (env s);
          s = upd_proc p (\<lambda>x. x\<lparr>p_kstack := k\<rparr>) (s\<lparr>env := e\<rparr>)
      in if k = 0 then (False, upd_proc p (\<lambda>x. x\<lparr>p_state := UNUSED\<rparr>) s)
         else
           let sp = k + KSTACKSIZE - sizeof_trapframe;
               ret = sp - 4;
               cx = ret - sizeof_context
           in (True, (upd_proc p (\<lambda>x. x\<lparr>p_tf_at := sp, p_context_at := cx,
                        p_context := zero_context\<lparr>cx_eip := addr_forkret ops\<rparr>\<rparr>) s)
                     \<lparr>env := op_poke ops ret (addr_trapret ops) (env s)\<rparr>))"

definition allocproc :: "'e kops \<Rightarrow> 'e kst \<Rightarrow> (nat option \<times> 'e kst) kres" where
  "allocproc ops s =
     (case find_slot UNUSED s of
        None \<Rightarrow> Inr (None, s)
      | Some p \<Rightarrow> and_then (alloc_found p s) (\<lambda>s.
          let (ok, s) = alloc_stack ops p s
          in Inr (if ok then Some p else None, s)))"

text \<open>\<^verbatim>\<open>p->state = RUNNABLE\<close>, and \<^verbatim>\<open>push(0, p)\<close> under the feedback scheduler.\<close>

definition publish :: "policy \<Rightarrow> nat \<Rightarrow> 'e kst \<Rightarrow> 'e kst" where
  "publish pol p s =
     (let s = upd_proc p (\<lambda>x. x\<lparr>p_state := RUNNABLE\<rparr>) s
      in if pol = MLFQ then push 0 p s else s)"

text \<open>\<^verbatim>\<open>safestrcpy(t, s, 16)\<close> on a process name.\<close>

definition copy_name :: "string \<Rightarrow> string" where
  "copy_name n = take 15 (takeWhile (\<lambda>c. c \<noteq> CHR 0x00) n)"

definition user_trapframe :: trapframe where
  "user_trapframe = zero_trapframe\<lparr>tf_cs := 0x1B, tf_ds := 0x23, tf_es := 0x23, tf_ss := 0x23,
     tf_eflags := 0x200, tf_esp := PGSIZE, tf_eip := 0\<rparr>"

definition userinit :: "policy \<Rightarrow> 'e kops \<Rightarrow> 'e kst \<Rightarrow> 'e kst kres" where
  "userinit pol ops s =
     and_then (allocproc ops s) (\<lambda>(r, s).
       let s = s\<lparr>initproc := r\<rparr>
       in case r of
           None \<Rightarrow> Inl ''trap''
         | Some p \<Rightarrow>
             and_then (op_setupkvm ops (env s)) (\<lambda>(pd, e).
               let s = upd_proc p (\<lambda>x. x\<lparr>p_pgdir := pd\<rparr>) (s\<lparr>env := e\<rparr>)
               in if pd = 0 then Inl ''userinit: out of memory?''
                  else and_then (upd_env (op_inituvm ops pd) s) (\<lambda>s.
                    let (root, e) = op_root ops (env s)
                    in Inr (publish pol p (upd_proc p (\<lambda>x. x\<lparr>p_sz := PGSIZE, p_tf := user_trapframe,
                              p_name := copy_name ''initcode'', p_cwd := root\<rparr>) (s\<lparr>env := e\<rparr>))))))"

section \<open>Growing a process\<close>

definition growproc :: "'e kops \<Rightarrow> nat \<Rightarrow> int \<Rightarrow> 'e kst \<Rightarrow> (int \<times> 'e kst) kres" where
  "growproc ops c n s =
     (case c_proc (cpus s c) of
        None \<Rightarrow> Inl ''trap''
      | Some p \<Rightarrow>
          let old = p_sz (ptable s p); pd = p_pgdir (ptable s p)
          in and_then
               (if n > 0 then op_allocuvm ops pd old (old + of_int n) (env s)
                else if n < 0 then op_deallocuvm ops pd old (old + of_int n) (env s)
                else Inr (old, env s))
               (\<lambda>(sz, e). let s = s\<lparr>env := e\<rparr>
                  in if n \<noteq> 0 \<and> sz = 0 then Inr (-1, s)
                     else and_then (switchuvm c p (upd_proc p (\<lambda>x. x\<lparr>p_sz := sz\<rparr>) s)) (\<lambda>s. Inr (0, s))))"

section \<open>Fork\<close>

definition dup_file :: "'e kops \<Rightarrow> nat \<Rightarrow> nat \<Rightarrow> nat \<Rightarrow> 'e kst \<Rightarrow> 'e kst kres" where
  "dup_file ops cur np i s =
     (case p_ofile (ptable s cur) i of
        None \<Rightarrow> Inr s
      | Some f \<Rightarrow> and_then (upd_env (op_filedup ops f) s)
          (\<lambda>s. Inr (upd_proc np (\<lambda>x. x\<lparr>p_ofile := (p_ofile x)(i := Some f)\<rparr>) s)))"

text \<open>
  From the successful \<^verbatim>\<open>allocproc\<close> on: copy the address space, the registers and the open
  files, then publish the child. The first component is the value of \<^verbatim>\<open>fork\<close>.
\<close>

definition fork_copy :: "policy \<Rightarrow> 'e kops \<Rightarrow> nat \<Rightarrow> nat \<Rightarrow> 'e kst \<Rightarrow> (int \<times> 'e kst) kres" where
  "fork_copy pol ops cur np s =
     and_then (op_copyuvm ops (p_pgdir (ptable s cur)) (p_sz (ptable s cur)) (env s)) (\<lambda>(pd, e).
       let s = upd_proc np (\<lambda>x. x\<lparr>p_pgdir := pd\<rparr>) (s\<lparr>env := e\<rparr>)
       in if pd = 0
          then and_then (upd_env (op_kfree ops (p_kstack (ptable s np))) s)
            (\<lambda>s. Inr (-1, upd_proc np (\<lambda>x. x\<lparr>p_kstack := 0, p_state := UNUSED\<rparr>) s))
          else
            let s = upd_proc np (\<lambda>x. x\<lparr>p_sz := p_sz (ptable s cur), p_parent := Some cur,
                      p_tf := (p_tf (ptable s cur))\<lparr>tf_eax := 0\<rparr>\<rparr>) s
            in and_then (foldk (dup_file ops cur np) [0..<NOFILE] s) (\<lambda>s.
                 case p_cwd (ptable s cur) of
                   None \<Rightarrow> Inl ''trap''
                 | Some ip \<Rightarrow> and_then (upd_env (op_idup ops ip) s) (\<lambda>s.
                     let s = upd_proc np (\<lambda>x. x\<lparr>p_cwd := Some ip, p_name := copy_name (p_name (ptable s cur))\<rparr>) s
                     in Inr (p_pid (ptable s np), publish pol np s))))"

definition fork :: "policy \<Rightarrow> 'e kops \<Rightarrow> nat \<Rightarrow> 'e kst \<Rightarrow> (int \<times> 'e kst) kres" where
  "fork pol ops c s =
     (case c_proc (cpus s c) of
        None \<Rightarrow> Inl ''trap''
      | Some cur \<Rightarrow> and_then (allocproc ops s) (\<lambda>(r, s).
          case r of None \<Rightarrow> Inr (-1, s) | Some np \<Rightarrow> fork_copy pol ops cur np s))"

text \<open>
  \<^verbatim>\<open>forkret\<close>, which a new process runs when it is scheduled first, before it returns to user
  mode through \<^verbatim>\<open>trapret\<close>. \<open>first\<close> is its static variable; \<open>L\<close> has \<^verbatim>\<open>ptable.lock\<close> still
  held from the scheduler.
\<close>

definition forkret :: "'e kops \<Rightarrow> nat \<Rightarrow> lockst \<Rightarrow> bool \<Rightarrow> 'e kst \<Rightarrow> (lockst \<times> bool \<times> 'e kst) kres" where
  "forkret ops c L first s =
     and_then (release c Ptable_lock L) (\<lambda>L.
       if first
       then and_then (upd_env (op_iinit ops) s) (\<lambda>s. and_then (upd_env (op_initlog ops) s) (\<lambda>s. Inr (L, False, s)))
       else Inr (L, first, s))"

section \<open>Sleep and wakeup\<close>

text \<open>The body of the loop of \<^verbatim>\<open>wakeup1\<close>.\<close>

definition wakeup_slot :: "policy \<Rightarrow> chan option \<Rightarrow> nat \<Rightarrow> 'e kst \<Rightarrow> 'e kst" where
  "wakeup_slot pol ch p s =
     (if p_state (ptable s p) = SLEEPING \<and> p_chan (ptable s p) = ch
      then let s = upd_proc p (\<lambda>x. x\<lparr>p_state := RUNNABLE\<rparr>) s
           in if pol = MLFQ
              then push (nat (qn (ptable s p))) p (upd_proc p (\<lambda>x. x\<lparr>curtime := 0\<rparr>) s)
              else s
      else s)"

definition wakeup1 :: "policy \<Rightarrow> chan option \<Rightarrow> 'e kst \<Rightarrow> 'e kst" where
  "wakeup1 pol ch s = fold (wakeup_slot pol ch) [0..<NPROC] s"

definition wakeup :: "policy \<Rightarrow> chan \<Rightarrow> 'e kst \<Rightarrow> 'e kst" where
  "wakeup pol ch s = wakeup1 pol (Some ch) s"

text \<open>
  \<^verbatim>\<open>sleep\<close> up to its call of \<^verbatim>\<open>sched\<close>, and from the return of \<^verbatim>\<open>sched\<close>. The lock
  \<open>l0\<close>, a pointer that may be null, is given up for \<^verbatim>\<open>ptable.lock\<close> and taken again at
  the end.
\<close>

definition sleep_begin :: "policy \<Rightarrow> nat \<Rightarrow> chan \<Rightarrow> lockid option \<Rightarrow> lockst \<Rightarrow> 'e kst \<Rightarrow> (lockst \<times> 'e kst) kres" where
  "sleep_begin pol c ch l0 L s =
     (case c_proc (cpus s c) of
        None \<Rightarrow> Inl ''sleep''
      | Some p \<Rightarrow>
          (case l0 of
             None \<Rightarrow> Inl ''sleep without lk''
           | Some l \<Rightarrow>
               and_then (if l \<noteq> Ptable_lock then and_then (acquire c Ptable_lock L) (release c l) else Inr L) (\<lambda>L.
                 sched pol c L (upd_proc p (\<lambda>x. x\<lparr>p_chan := Some ch, p_state := SLEEPING\<rparr>) s))))"

definition sleep_end :: "nat \<Rightarrow> 'e kst \<Rightarrow> 'e kst" where
  "sleep_end p s = upd_proc p (\<lambda>x. x\<lparr>p_chan := None\<rparr>) s"

definition sleep_relock :: "nat \<Rightarrow> lockid \<Rightarrow> bool \<Rightarrow> lockst \<Rightarrow> lockst kres" where
  "sleep_relock c l saved L =
     (let L = sched_end c saved L
      in if l \<noteq> Ptable_lock then and_then (release c Ptable_lock L) (acquire c l) else Inr L)"

lemma sleep_begin_Inr:
  "sleep_begin pol c ch l0 L s = Inr (L', t) \<Longrightarrow>
     \<exists>p. c_proc (cpus s c) = Some p
       \<and> t = scheduler_return pol c p (upd_proc p (\<lambda>x. x\<lparr>p_chan := Some ch, p_state := SLEEPING\<rparr>) s)"
  by (auto simp: sleep_begin_def and_then_Inr_iff split: option.splits if_splits dest: sched_Inr)

lemma sleep_begin_only:
  assumes "only_lock c l L" "l = Ptable_lock \<or> \<not> lk_locked (lk L Ptable_lock)" "c_proc (cpus s c) = Some p"
  shows "\<exists>L'. sleep_begin pol c ch (Some l) L s
      = Inr (L', scheduler_return pol c p (upd_proc p (\<lambda>x. x\<lparr>p_chan := Some ch, p_state := SLEEPING\<rparr>) s))
    \<and> only_lock c Ptable_lock L'"
proof (cases "l = Ptable_lock")
  case True
  then show ?thesis using assms by (simp add: sleep_begin_def sched_only)
next
  case False
  then obtain K M where "acquire c Ptable_lock L = Inr K" "release c l K = Inr M" "only_lock c Ptable_lock M"
    using exchange_locks [OF assms(1), of Ptable_lock] assms(2) by auto
  then show ?thesis using False assms(3) by (simp add: sleep_begin_def sched_only)
qed

text \<open>A sleeper that runs again has its lock back, unless another CPU holds it.\<close>

lemma sleep_relock_only:
  assumes "only_lock c Ptable_lock L" "l = Ptable_lock \<or> \<not> lk_locked (lk L l)"
  shows "\<exists>M. sleep_relock c l saved L = Inr M \<and> only_lock c l M"
proof (cases "l = Ptable_lock")
  case True
  then show ?thesis using assms by (simp add: sleep_relock_def sched_end_def only_lock_def)
next
  case False
  let ?L = "sched_end c saved L"
  have o: "only_lock c Ptable_lock ?L" using assms(1) by (simp add: sched_end_def only_lock_def)
  obtain M where M: "release c Ptable_lock ?L = Inr M" "ncli M c = 0" "lk M l = lk L l"
    using release_only [OF o] False by (auto simp: sched_end_def)
  then show ?thesis using False assms(2) acquire_only [of M c l] by (simp add: sleep_relock_def)
qed

section \<open>Exit\<close>

definition close_fd :: "'e kops \<Rightarrow> nat \<Rightarrow> nat \<Rightarrow> 'e kst \<Rightarrow> 'e kst kres" where
  "close_fd ops p fd s =
     (case p_ofile (ptable s p) fd of
        None \<Rightarrow> Inr s
      | Some f \<Rightarrow> and_then (upd_env (op_fileclose ops f) s)
          (\<lambda>s. Inr (upd_proc p (\<lambda>x. x\<lparr>p_ofile := (p_ofile x)(fd := None)\<rparr>) s)))"

definition exit_files :: "'e kops \<Rightarrow> nat \<Rightarrow> 'e kst \<Rightarrow> 'e kst kres" where
  "exit_files ops p s =
     and_then (foldk (close_fd ops p) [0..<NOFILE] s) (\<lambda>s.
       case p_cwd (ptable s p) of
         None \<Rightarrow> Inl ''trap''
       | Some ip \<Rightarrow> and_then (upd_env (op_iput ops ip) s)
           (\<lambda>s. Inr (upd_proc p (\<lambda>x. x\<lparr>p_cwd := None\<rparr>) s)))"

definition abandon :: "policy \<Rightarrow> nat \<Rightarrow> nat \<Rightarrow> 'e kst \<Rightarrow> 'e kst" where
  "abandon pol cur p s =
     (if p_parent (ptable s p) = Some cur
      then let s = upd_proc p (\<lambda>x. x\<lparr>p_parent := initproc s\<rparr>) s
           in if p_state (ptable s p) = ZOMBIE then wakeup1 pol (map_option ChanProc (initproc s)) s else s
      else s)"

text \<open>The critical section of \<^verbatim>\<open>exit\<close>, up to the switch that never returns.\<close>

definition exit_final :: "policy \<Rightarrow> nat \<Rightarrow> nat \<Rightarrow> lockst \<Rightarrow> 'e kst \<Rightarrow> (lockst \<times> 'e kst) kres" where
  "exit_final pol c p L s =
     and_then (acquire c Ptable_lock L) (\<lambda>L.
       let s = wakeup1 pol (map_option ChanProc (p_parent (ptable s p))) s;
           s = fold (abandon pol p) [0..<NPROC] s
       in sched pol c L (upd_proc p (\<lambda>x. x\<lparr>etime := sint (ticks s), p_state := ZOMBIE\<rparr>) s))"

text \<open>\<open>L\<close> is the state of the locks when \<^verbatim>\<open>exit\<close> is called; closing the files leaves it as it is.\<close>

definition exit :: "policy \<Rightarrow> 'e kops \<Rightarrow> nat \<Rightarrow> lockst \<Rightarrow> 'e kst \<Rightarrow> 'e kst kres" where
  "exit pol ops c L s =
     (case c_proc (cpus s c) of
        None \<Rightarrow> if initproc s = None then Inl ''init exiting'' else Inl ''trap''
      | Some p \<Rightarrow>
          if initproc s = Some p then Inl ''init exiting''
          else and_then (exit_files ops p s) (\<lambda>s. and_then (exit_final pol c p L s) (\<lambda>(L, s). Inr s)))"

section \<open>Wait\<close>

datatype wait_result = Reaped int | No_children | Must_sleep

definition reap :: "'e kops \<Rightarrow> nat \<Rightarrow> 'e kst \<Rightarrow> 'e kst kres" where
  "reap ops p s =
     and_then (upd_env (op_kfree ops (p_kstack (ptable s p))) s) (\<lambda>s.
       let s = upd_proc p (\<lambda>x. x\<lparr>p_kstack := 0\<rparr>) s
       in and_then (upd_env (op_freevm ops (p_pgdir (ptable s p))) s) (\<lambda>s.
            Inr (upd_proc p (\<lambda>x. x\<lparr>p_pid := 0, p_parent := None, p_name := [], p_killed := False,
                   p_state := UNUSED\<rparr>) s)))"

definition is_child :: "'e kst \<Rightarrow> nat \<Rightarrow> nat \<Rightarrow> bool" where
  "is_child s cur p \<longleftrightarrow> p_parent (ptable s p) = Some cur"

text \<open>One pass of the loop of \<^verbatim>\<open>wait\<close> over the table.\<close>

definition wait_pass :: "'e kops \<Rightarrow> nat \<Rightarrow> 'e kst \<Rightarrow> (wait_result \<times> 'e kst) kres" where
  "wait_pass ops cur s =
     (case find (\<lambda>p. is_child s cur p \<and> p_state (ptable s p) = ZOMBIE) [0..<NPROC] of
        Some p \<Rightarrow> and_then (reap ops p s) (\<lambda>t. Inr (Reaped (p_pid (ptable s p)), t))
      | None \<Rightarrow>
          if \<not> list_ex (is_child s cur) [0..<NPROC] \<or> p_killed (ptable s cur)
          then Inr (No_children, s) else Inr (Must_sleep, s))"

text \<open>
  \<^verbatim>\<open>wait\<close> by the process on CPU \<open>c\<close>, until it returns a value or gives up the CPU in
  \<^verbatim>\<open>sleep(curproc, &ptable.lock)\<close>, after which it starts again, with the lock that
  \<^verbatim>\<open>sleep\<close> has given back to it (\<open>sleep_relock_only\<close>). A system call is entered
  with no lock held and with interrupts on; the lock taken first is the one given to
  \<^verbatim>\<open>sleep\<close>.
\<close>

definition wait :: "policy \<Rightarrow> 'e kops \<Rightarrow> nat \<Rightarrow> 'e kst \<Rightarrow> (int option \<times> 'e kst) kres" where
  "wait pol ops c s =
     (case c_proc (cpus s c) of
        None \<Rightarrow> Inl ''trap''
      | Some cur \<Rightarrow> and_then (acquire c Ptable_lock (no_locks True)) (\<lambda>L.
          and_then (wait_pass ops cur s) (\<lambda>(r, s).
            case r of
              Reaped pid \<Rightarrow> and_then (release c Ptable_lock L) (\<lambda>_. Inr (Some pid, s))
            | No_children \<Rightarrow> and_then (release c Ptable_lock L) (\<lambda>_. Inr (Some (-1), s))
            | Must_sleep \<Rightarrow> and_then (sleep_begin pol c (ChanProc cur) (Some Ptable_lock) L s) (\<lambda>(_, s). Inr (None, s)))))"

text \<open>
  \<^verbatim>\<open>waitx\<close> also reports the times of the child, \<open>(wtime, rtime)\<close>, and overwrites its
  \<^verbatim>\<open>etime\<close> with the current time.
\<close>

definition waitx_times :: "'e kst \<Rightarrow> nat \<Rightarrow> int \<times> int" where
  "waitx_times s p =
     (let w = (sint (ticks s) - ctime (ptable s p)) - runtime (ptable s p)
      in (if w < 0 then - w else w, runtime (ptable s p)))"

definition waitx :: "policy \<Rightarrow> 'e kops \<Rightarrow> nat \<Rightarrow> 'e kst \<Rightarrow> ((int \<times> (int \<times> int) option) option \<times> 'e kst) kres" where
  "waitx pol ops c s =
     (case c_proc (cpus s c) of
        None \<Rightarrow> Inl ''trap''
      | Some cur \<Rightarrow> and_then (acquire c Ptable_lock (no_locks True)) (\<lambda>L.
          case find (\<lambda>p. is_child s cur p \<and> p_state (ptable s p) = ZOMBIE) [0..<NPROC] of
             Some p \<Rightarrow> and_then (reap ops p s) (\<lambda>t. and_then (release c Ptable_lock L) (\<lambda>_.
               Inr (Some (p_pid (ptable s p), Some (waitx_times s p)),
                    upd_proc p (\<lambda>x. x\<lparr>etime := sint (ticks s)\<rparr>) t)))
           | None \<Rightarrow>
               if \<not> list_ex (is_child s cur) [0..<NPROC] \<or> p_killed (ptable s cur)
               then and_then (release c Ptable_lock L) (\<lambda>_. Inr (Some (-1, None), s))
               else and_then (sleep_begin pol c (ChanProc cur) (Some Ptable_lock) L s) (\<lambda>(_, s). Inr (None, s))))"

text \<open>
  The locks never get in the way of \<^verbatim>\<open>wait\<close> and \<^verbatim>\<open>waitx\<close>: what they do but for
  \<^verbatim>\<open>ptable.lock\<close>.
\<close>

lemma wait_unfold:
  "wait pol ops c s =
     (case c_proc (cpus s c) of
        None \<Rightarrow> Inl ''trap''
      | Some cur \<Rightarrow> and_then (wait_pass ops cur s) (\<lambda>(r, s).
          case r of
            Reaped pid \<Rightarrow> Inr (Some pid, s)
          | No_children \<Rightarrow> Inr (Some (-1), s)
          | Must_sleep \<Rightarrow> and_then (sleep_begin pol c (ChanProc cur) (Some Ptable_lock) (projr (acquire c Ptable_lock (no_locks True))) s)
              (\<lambda>(_, s). Inr (None, s))))"
  by (rule entry_lock [of c Ptable_lock True]) (auto simp: wait_def and_then_def split: option.splits sum.splits wait_result.splits)

lemma waitx_unfold:
  "waitx pol ops c s =
     (case c_proc (cpus s c) of
        None \<Rightarrow> Inl ''trap''
      | Some cur \<Rightarrow>
          (case find (\<lambda>p. is_child s cur p \<and> p_state (ptable s p) = ZOMBIE) [0..<NPROC] of
             Some p \<Rightarrow> and_then (reap ops p s) (\<lambda>t.
               Inr (Some (p_pid (ptable s p), Some (waitx_times s p)),
                    upd_proc p (\<lambda>x. x\<lparr>etime := sint (ticks s)\<rparr>) t))
           | None \<Rightarrow>
               if \<not> list_ex (is_child s cur) [0..<NPROC] \<or> p_killed (ptable s cur)
               then Inr (Some (-1, None), s)
               else and_then (sleep_begin pol c (ChanProc cur) (Some Ptable_lock) (projr (acquire c Ptable_lock (no_locks True))) s)
                 (\<lambda>(_, s). Inr (None, s))))"
  by (rule entry_lock [of c Ptable_lock True]) (auto simp: waitx_def and_then_def split: option.splits sum.splits)

section \<open>Kill and priorities\<close>

definition find_pid :: "int \<Rightarrow> 'e kst \<Rightarrow> nat option" where
  "find_pid pid s = find (\<lambda>p. p_pid (ptable s p) = pid) [0..<NPROC]"

definition kill :: "policy \<Rightarrow> int \<Rightarrow> 'e kst \<Rightarrow> int \<times> 'e kst" where
  "kill pol pid s =
     (case find_pid pid s of
        None \<Rightarrow> (-1, s)
      | Some p \<Rightarrow>
          let s = upd_proc p (\<lambda>x. x\<lparr>p_killed := True\<rparr>) s
          in (0, if p_state (ptable s p) = SLEEPING
                 then let s = upd_proc p (\<lambda>x. x\<lparr>p_state := RUNNABLE\<rparr>) s
                      in if pol = MLFQ then push (nat (qn (ptable s p))) p s else s
                 else s))"

definition set_priority :: "int \<Rightarrow> int \<Rightarrow> 'e kst \<Rightarrow> int \<times> 'e kst" where
  "set_priority new_priority pid s =
     (case find_pid pid s of
        None \<Rightarrow> (-1, cprintf ''NO such pid found\<newline>'' s)
      | Some a \<Rightarrow> (priority (ptable s a), upd_proc a (\<lambda>x. x\<lparr>priority := new_priority\<rparr>) s))"

text \<open>Whether a process of better (or, for \<open>i = 1\<close>, equal) priority exists.\<close>

definition preempt :: "int \<Rightarrow> int \<Rightarrow> 'e kst \<Rightarrow> bool" where
  "preempt prior i s =
     list_ex (\<lambda>a. (if i = 1 then priority (ptable s a) \<le> prior else priority (ptable s a) < prior)
                  \<and> p_pid (ptable s a) \<noteq> 0) [0..<NPROC]"

section \<open>Accounting\<close>

definition tick_slot :: "policy \<Rightarrow> nat \<Rightarrow> 'e kst \<Rightarrow> 'e kst" where
  "tick_slot pol a s =
     (if p_state (ptable s a) \<noteq> RUNNING
      then upd_proc a (\<lambda>x. x\<lparr>waittime := waittime x + 1\<rparr>) s
      else upd_proc a (\<lambda>x. if pol = MLFQ
             then x\<lparr>runtime := runtime x + 1, curtime := curtime x + 1, qnt := (qnt x)(qn x := qnt x (qn x) + 1)\<rparr>
             else x\<lparr>runtime := runtime x + 1\<rparr>) s)"

definition change_ticks :: "policy \<Rightarrow> 'e kst \<Rightarrow> 'e kst" where
  "change_ticks pol s = fold (tick_slot pol) [0..<NPROC] s"

section \<open>Listings\<close>

definition state_word :: "procstate \<Rightarrow> string" where
  "state_word st = (case st of UNUSED \<Rightarrow> ''unused'' | EMBRYO \<Rightarrow> ''embryo'' | SLEEPING \<Rightarrow> ''sleep ''
     | RUNNABLE \<Rightarrow> ''runble'' | RUNNING \<Rightarrow> ''run   '' | ZOMBIE \<Rightarrow> ''zombie'')"

definition dump_slot :: "'e kops \<Rightarrow> nat \<Rightarrow> 'e kst \<Rightarrow> 'e kst" where
  "dump_slot ops p s =
     (if p_state (ptable s p) = UNUSED then s
      else
        let s = printk ''%d %s %s'' [Num (of_int (p_pid (ptable s p))), Str (Some (state_word (p_state (ptable s p)))),
                  Str (Some (p_name (ptable s p)))] s;
            s = (if p_state (ptable s p) = SLEEPING
                 then fold (\<lambda>pc s. printk '' %p'' [Num pc] s)
                        (takeWhile (\<lambda>pc. pc \<noteq> 0) (take 10 (op_callerpcs ops (cx_ebp (p_context (ptable s p)) + 8) (env s)))) s
                 else s)
        in cprintf ''\<newline>'' s)"

definition procdump :: "'e kops \<Rightarrow> 'e kst \<Rightarrow> 'e kst" where
  "procdump ops s = fold (dump_slot ops) [0..<NPROC] s"

definition state_name :: "procstate \<Rightarrow> string" where
  "state_name st = (case st of UNUSED \<Rightarrow> ''UNUSED'' | EMBRYO \<Rightarrow> ''EMBRYO'' | SLEEPING \<Rightarrow> ''SLEEPING''
     | RUNNABLE \<Rightarrow> ''RUNNABLE'' | RUNNING \<Rightarrow> ''RUNNING'' | ZOMBIE \<Rightarrow> ''ZOMBIE'')"

definition showps_row :: "nat \<Rightarrow> 'e kst \<Rightarrow> 'e kst" where
  "showps_row a s =
     (let x = ptable s a; n = (\<lambda>v. Num (of_int v))
      in if p_pid x = 0 then s
         else printk (''%d'' @ [CHR 0x09] @ ''%d'' @ [CHR 0x09] @ ''%s  %d'' @ [CHR 0x09] @ ''%d'' @ [CHR 0x09] @ ''%d'' @ [CHR 0x09]
                @ ''%d'' @ [CHR 0x09] @ ''%d'' @ [CHR 0x09] @ ''%d'' @ [CHR 0x09] @ ''%d'' @ [CHR 0x09] @ ''%d'' @ [CHR 0x09] @ ''%d\<newline>'')
                [n (p_pid x), n (priority x), Str (Some (state_name (p_state x))), n (runtime x), n (waittime x), n (nrun x),
                 n (qn x), n (qnt x 0), n (qnt x 1), n (qnt x 2), n (qnt x 3), n (qnt x 4)] s)"

definition showps :: "'e kst \<Rightarrow> int \<times> 'e kst" where
  "showps s =
     (0, fold showps_row [0..<NPROC]
        (cprintf ''\<newline>PID  Priority  State  r_time  w_time  n_run  cur_q     q0     q1      q2       q3        q4\<newline>'' s))"

section \<open>Committing to a new program image\<close>

text \<open>
  The end of \<^verbatim>\<open>exec\<close> (lines 90 to 104 of \<^verbatim>\<open>exec.c\<close>): the name is the part of the path
  after its last slash.
\<close>

fun last_component :: "string \<Rightarrow> string \<Rightarrow> string" where
  "last_component l [] = l"
| "last_component l (c # s) = last_component (if c = CHR ''/'' then s else l) s"

definition exec_commit :: "'e kops \<Rightarrow> nat \<Rightarrow> string \<Rightarrow> u32 \<Rightarrow> u32 \<Rightarrow> u32 \<Rightarrow> u32 \<Rightarrow> 'e kst \<Rightarrow> (int \<times> 'e kst) kres" where
  "exec_commit ops c path pd sz entry sp s =
     (case c_proc (cpus s c) of
        None \<Rightarrow> Inl ''trap''
      | Some p \<Rightarrow>
          let old = p_pgdir (ptable s p);
              s = upd_proc p (\<lambda>x. x\<lparr>p_name := copy_name (last_component path path), p_pgdir := pd, p_sz := sz,
                    p_tf := (p_tf x)\<lparr>tf_eip := entry, tf_esp := sp\<rparr>\<rparr>) s
          in and_then (switchuvm c p s) (\<lambda>s.
             and_then (upd_env (op_freevm ops old) s) (\<lambda>s. Inr (0, s))))"

end
