(* ===== verification/ProcInv.thy ===== *)
theory ProcInv
  imports Proc
begin

text \<open>
  The invariant of the process table and that every operation of \<open>Proc\<close> and \<open>Sched\<close>
  keeps it, whatever the layers below answer; the steps of the kernel as a relation, and
  what holds in every reachable state.
\<close>

section \<open>The invariant\<close>

definition born :: "procstate \<Rightarrow> bool" where
  "born st \<longleftrightarrow> st \<notin> {UNUSED, EMBRYO}"

definition alive :: "procstate \<Rightarrow> bool" where
  "alive st \<longleftrightarrow> st \<in> {SLEEPING, RUNNABLE, RUNNING}"

abbreviation pstate :: "'e kst \<Rightarrow> nat \<Rightarrow> procstate" where
  "pstate s p \<equiv> p_state (ptable s p)"

text \<open>A process is running exactly when one CPU runs it.\<close>

definition cpu_inv :: "'e kst \<Rightarrow> bool" where
  "cpu_inv s \<longleftrightarrow>
     (\<forall>c p. c_proc (cpus s c) = Some p \<longrightarrow> c < ncpu s \<and> p < NPROC \<and> pstate s p = RUNNING)
   \<and> (\<forall>p<NPROC. pstate s p = RUNNING \<longrightarrow> (\<exists>c. c_proc (cpus s c) = Some p))
   \<and> (\<forall>c c' p. c_proc (cpus s c) = Some p \<longrightarrow> c_proc (cpus s c') = Some p \<longrightarrow> c = c')"

text \<open>Process ids are never shared, and the next one is fresh and an \<^verbatim>\<open>int\<close>.\<close>

definition pid_inv :: "'e kst \<Rightarrow> bool" where
  "pid_inv s \<longleftrightarrow> 0 < nextpid s
   \<and> (\<forall>p<NPROC. 0 \<le> p_pid (ptable s p) \<and> p_pid (ptable s p) < nextpid s
        \<and> (pstate s p \<noteq> UNUSED \<longrightarrow> p_pid (ptable s p) \<noteq> 0))
   \<and> (\<forall>p<NPROC. \<forall>q<NPROC. p_pid (ptable s p) = p_pid (ptable s q) \<and> p_pid (ptable s p) \<noteq> 0 \<longrightarrow> p = q)
   \<and> nextpid s \<le> INT_MAX"

text \<open>
  The first process never dies, every other process has a parent that is alive, and slots
  that are not in use have none.
\<close>

definition tree_inv :: "'e kst \<Rightarrow> bool" where
  "tree_inv s \<longleftrightarrow> (\<exists>i<NPROC. initproc s = Some i \<and> alive (pstate s i)
     \<and> (\<forall>p<NPROC. born (pstate s p) \<and> p \<noteq> i \<longrightarrow> p_parent (ptable s p) \<noteq> None))
   \<and> (\<forall>p<NPROC. \<forall>q. p_parent (ptable s p) = Some q \<longrightarrow>
        q < NPROC \<and> alive (pstate s q) \<and> born (pstate s p))"

text \<open>A process that can run has a kernel stack and a page table.\<close>

definition res_inv :: "'e kst \<Rightarrow> bool" where
  "res_inv s \<longleftrightarrow> (\<forall>p<NPROC. born (pstate s p) \<longrightarrow>
     p_kstack (ptable s p) \<noteq> 0 \<and> p_pgdir (ptable s p) \<noteq> 0)"

text \<open>A queued process is runnable and in the queue of its level; a new one is at level 0.\<close>

definition queue_inv :: "policy \<Rightarrow> 'e kst \<Rightarrow> bool" where
  "queue_inv pol s \<longleftrightarrow> mlfq_inv s \<and> (pol \<noteq> MLFQ \<longrightarrow> (\<forall>p. \<not> queued s p))
     \<and> (\<forall>p<NPROC. pstate s p = EMBRYO \<longrightarrow> qn (ptable s p) = 0)"

definition kinv :: "policy \<Rightarrow> 'e kst \<Rightarrow> bool" where
  "kinv pol s \<longleftrightarrow> cpu_inv s \<and> pid_inv s \<and> tree_inv s \<and> res_inv s \<and> queue_inv pol s"

lemmas kinvD = kinv_def [THEN iffD1, THEN conjunct1]
  kinv_def [THEN iffD1, THEN conjunct2, THEN conjunct1]
  kinv_def [THEN iffD1, THEN conjunct2, THEN conjunct2, THEN conjunct1]
  kinv_def [THEN iffD1, THEN conjunct2, THEN conjunct2, THEN conjunct2, THEN conjunct1]
  kinv_def [THEN iffD1, THEN conjunct2, THEN conjunct2, THEN conjunct2, THEN conjunct2]

lemma born_simps [simp]:
  "born RUNNABLE" "born RUNNING" "born SLEEPING" "born ZOMBIE" "\<not> born UNUSED" "\<not> born EMBRYO"
  "alive RUNNABLE" "alive RUNNING" "alive SLEEPING" "\<not> alive ZOMBIE" "\<not> alive UNUSED" "\<not> alive EMBRYO"
  by (simp_all add: born_def alive_def)

lemma alive_born: "alive st \<Longrightarrow> born st"
  by (auto simp: born_def alive_def)

section \<open>Changing one slot\<close>

lemma cpu_inv_upd:
  assumes "cpu_inv s" "p_state (f (ptable s p)) = RUNNING \<longleftrightarrow> pstate s p = RUNNING"
  shows "cpu_inv (upd_proc p f s)"
proof -
  have eq: "pstate (upd_proc p f s) q = RUNNING \<longleftrightarrow> pstate s q = RUNNING" for q
    using assms(2) by simp
  show ?thesis using assms(1) unfolding cpu_inv_def eq by simp
qed

lemma pid_inv_upd:
  assumes "pid_inv s" "p_pid (f (ptable s p)) = p_pid (ptable s p)"
    "p_state (f (ptable s p)) \<noteq> UNUSED \<Longrightarrow> pstate s p \<noteq> UNUSED"
  shows "pid_inv (upd_proc p f s)"
proof -
  have eq: "p_pid (ptable (upd_proc p f s) q) = p_pid (ptable s q)" for q using assms(2) by simp
  have "pstate (upd_proc p f s) q \<noteq> UNUSED \<longrightarrow> pstate s q \<noteq> UNUSED" for q using assms(3) by simp
  with assms(1) show ?thesis unfolding pid_inv_def eq by simp
qed

lemma tree_inv_upd:
  assumes "tree_inv s" "p_parent (f (ptable s p)) = p_parent (ptable s p)"
    "born (p_state (f (ptable s p))) = born (pstate s p)" "alive (p_state (f (ptable s p))) = alive (pstate s p)"
  shows "tree_inv (upd_proc p f s)"
proof -
  have eq: "p_parent (ptable (upd_proc p f s) q) = p_parent (ptable s q)"
    "born (pstate (upd_proc p f s) q) = born (pstate s q)" "alive (pstate (upd_proc p f s) q) = alive (pstate s q)"
    "initproc (upd_proc p f s) = initproc s" for q
    using assms(2-4) by simp_all
  show ?thesis using assms(1) unfolding tree_inv_def eq .
qed

lemma res_inv_upd:
  assumes "res_inv s" "born (p_state (f (ptable s p))) \<Longrightarrow> p < NPROC \<Longrightarrow>
     p_kstack (f (ptable s p)) \<noteq> 0 \<and> p_pgdir (f (ptable s p)) \<noteq> 0"
  shows "res_inv (upd_proc p f s)"
  using assms unfolding res_inv_def by simp

lemma queue_inv_slot:
  assumes inv: "queue_inv pol s" and nq: "\<not> queued s p" and pt: "ptable u = (ptable s)(p := x)"
    and u: "qface u = qface s" "qback u = qback s" "queue u = queue s"
    and x: "0 \<le> qn x" "qn x \<le> 4" "p_state x = EMBRYO \<Longrightarrow> qn x = 0"
  shows "queue_inv pol u"
proof -
  have ok: "mlfq_ok s" using inv by (simp add: queue_inv_def mlfq_inv_def)
  have "q \<noteq> p" if "i < NQUEUE" "q \<in> set (qlist s i)" for i q
    using nq that by (auto simp: queued_qlist [OF ok])
  then show ?thesis using inv x by (auto simp: queue_inv_def mlfq_inv_def queue_view [OF u] pt)
qed

lemma queue_inv_upd:
  assumes "queue_inv pol s" "\<not> queued s p" "0 \<le> qn (f (ptable s p))" "qn (f (ptable s p)) \<le> 4"
    "p_state (f (ptable s p)) = EMBRYO \<Longrightarrow> qn (f (ptable s p)) = 0"
  shows "queue_inv pol (upd_proc p f s)"
  by (rule queue_inv_slot [OF assms(1,2)]) (use assms in simp_all)

lemma queue_inv_frame:
  assumes "queue_inv pol s" "p_state (f (ptable s p)) = pstate s p" "qn (f (ptable s p)) = qn (ptable s p)"
  shows "queue_inv pol (upd_proc p f s)"
  using assms by (auto simp: queue_inv_def mlfq_inv_def)

lemma not_queued:
  "queue_inv pol s \<Longrightarrow> pstate s p \<noteq> RUNNABLE \<or> pol \<noteq> MLFQ \<Longrightarrow> \<not> queued s p"
  by (auto simp: queue_inv_def mlfq_inv_def queued_qlist)

lemma qn_range:
  "queue_inv pol s \<Longrightarrow> p < NPROC \<Longrightarrow> 0 \<le> qn (ptable s p) \<and> qn (ptable s p) \<le> 4"
  by (simp add: queue_inv_def mlfq_inv_def)

text \<open>Changes that touch none of the fields the invariant reads.\<close>

definition same_view :: "proc \<Rightarrow> proc \<Rightarrow> bool" where
  "same_view x y \<longleftrightarrow> p_state x = p_state y \<and> p_pid x = p_pid y \<and> p_parent x = p_parent y
     \<and> p_kstack x = p_kstack y \<and> p_pgdir x = p_pgdir y \<and> qn x = qn y"

lemma kinv_view:
  assumes "kinv pol s" "\<And>p. same_view (ptable t p) (ptable s p)"
    "\<And>c. c_proc (cpus t c) = c_proc (cpus s c)" "ncpu t = ncpu s" "nextpid t = nextpid s" "initproc t = initproc s"
    "qface t = qface s" "qback t = qback s" "queue t = queue s"
  shows "kinv pol t"
proof -
  note v = queue_view [OF assms(7-9)]
  have p: "pstate t p = pstate s p" "p_pid (ptable t p) = p_pid (ptable s p)" "p_parent (ptable t p) = p_parent (ptable s p)"
    "p_kstack (ptable t p) = p_kstack (ptable s p)" "p_pgdir (ptable t p) = p_pgdir (ptable s p)" "qn (ptable t p) = qn (ptable s p)" for p
    using assms(2) by (simp_all add: same_view_def)
  show ?thesis
    using assms(1)
    unfolding kinv_def cpu_inv_def pid_inv_def tree_inv_def res_inv_def queue_inv_def mlfq_inv_def p v assms(3-6) .
qed

lemma kinv_upd_view:
  assumes "kinv pol s" "same_view (f (ptable s p)) (ptable s p)"
  shows "kinv pol (upd_proc p f s)"
  by (rule kinv_view [OF assms(1)]) (use assms(2) in \<open>auto simp: same_view_def\<close>)

lemma kinv_env: "kinv pol s \<Longrightarrow> kinv pol (s\<lparr>env := e\<rparr>)"
  by (erule kinv_view) (simp_all add: same_view_def)

lemma kinv_cprintf: "kinv pol s \<Longrightarrow> kinv pol (cprintf m s)"
  by (erule kinv_view) (simp_all add: same_view_def)

lemma kinv_scan: "kinv pol s \<Longrightarrow> kinv pol (set_scan c n s)"
  by (erule kinv_view) (simp_all add: same_view_def set_scan_def)

lemma kinv_nrun: "kinv pol s \<Longrightarrow> kinv pol (inc_nrun p s)"
  by (erule kinv_view) (simp_all add: same_view_def inc_nrun_def)

text \<open>Changes of the queues.\<close>

lemma kinv_requeues:
  assumes "kinv pol s" "requeues s t" "queue_inv pol t"
  shows "kinv pol t"
proof -
  have p: "pstate t p = pstate s p" "p_pid (ptable t p) = p_pid (ptable s p)" "p_parent (ptable t p) = p_parent (ptable s p)"
    "p_kstack (ptable t p) = p_kstack (ptable s p)" "p_pgdir (ptable t p) = p_pgdir (ptable s p)" for p
    using sched_core_fields(2-6) [of "ptable t p" "ptable s p"] assms(2) by (auto simp: requeues_def)
  have q: "cpus t = cpus s" "ncpu t = ncpu s" "nextpid t = nextpid s" "initproc t = initproc s"
    using assms(2) by (simp_all add: requeues_def)
  have "cpu_inv t \<and> pid_inv t \<and> tree_inv t \<and> res_inv t"
    using assms(1) unfolding kinv_def cpu_inv_def pid_inv_def tree_inv_def res_inv_def p q by blast
  with assms(3) show ?thesis by (simp add: kinv_def)
qed

lemma mlfq_inv_push_at:
  assumes inv: "mlfq_inv s" and p: "p < NPROC" "runnable s p" "\<not> queued s p"
    and a: "a < NQUEUE" "qn (ptable s p) = int a"
  shows "mlfq_inv (push a p s)"
proof -
  have ok: "mlfq_ok s" using inv by (simp add: mlfq_inv_def)
  note m = push_mlfq [OF ok a(1) p(1,3)]
  have tp: "runnable (push a p s) p" "qn (ptable (push a p s) p) = int a"
    using requeues_state [OF requeues_push, of a p s p] p(2) m(4) a(2) by auto
  have np: "p \<notin> set (qlist s i)" if "i < NQUEUE" for i
    using p(3) that by (auto simp: queued_qlist [OF ok])
  have "runnable (push a p s) q \<and> qn (ptable (push a p s) q) = int i"
    if "i < NQUEUE" "q \<in> set (qlist (push a p s) i)" for i q
  proof (cases "q = p")
    case True
    then have "i = a" using m(2) [OF that(1)] np [OF that(1)] that(2) by metis
    then show ?thesis using tp True by simp
  next
    case False
    then have "q \<in> set (qlist s i)" using m(2) [OF that(1)] that(2) by auto
    then have "runnable s q \<and> qn (ptable s q) = int i" using inv that(1) by (simp add: mlfq_inv_def)
    then show ?thesis by (simp only: m(3) [OF False])
  qed
  moreover have "0 \<le> qn (ptable (push a p s) q) \<and> qn (ptable (push a p s) q) \<le> 4" if "q < NPROC" for q
  proof (cases "q = p")
    case True then show ?thesis using tp a(1) by (simp add: NQUEUE_def)
  next
    case False
    have "0 \<le> qn (ptable s q) \<and> qn (ptable s q) \<le> 4" using inv that by (simp add: mlfq_inv_def)
    then show ?thesis by (simp only: m(3) [OF False])
  qed
  ultimately show ?thesis using m(1) by (simp add: mlfq_inv_def)
qed

lemma mlfq_inv_push:
  assumes "mlfq_inv s" "p < NPROC" "runnable s p" "\<not> queued s p"
  shows "mlfq_inv (push (nat (qn (ptable s p))) p s)"
proof -
  have "0 \<le> qn (ptable s p) \<and> qn (ptable s p) \<le> 4" using assms(1,2) by (simp add: mlfq_inv_def)
  then show ?thesis using assms by (intro mlfq_inv_push_at) (auto simp: NQUEUE_def)
qed

lemma kinv_push:
  assumes "kinv MLFQ s" "p < NPROC" "runnable s p" "\<not> queued s p"
  shows "kinv MLFQ (push (nat (qn (ptable s p))) p s)"
proof -
  have q: "mlfq_inv s" "\<forall>q<NPROC. pstate s q = EMBRYO \<longrightarrow> qn (ptable s q) = 0"
    using kinvD(5) [OF assms(1)] by (simp_all add: queue_inv_def)
  let ?t = "push (nat (qn (ptable s p))) p s"
  have "qn (ptable ?t q) = 0" if "q < NPROC" "pstate ?t q = EMBRYO" for q
  proof -
    have e: "pstate s q = EMBRYO" using that(2) requeues_state [OF requeues_push] by metis
    then have "q \<noteq> p" using assms(3) by auto
    then have "ptable ?t q = ptable s q" by (simp add: push_def)
    then show ?thesis using q(2) e that(1) by simp
  qed
  with mlfq_inv_push [OF q(1) assms(2-4)] show ?thesis
    by (intro kinv_requeues [OF assms(1) requeues_push]) (simp add: queue_inv_def)
qed

section \<open>Transitions\<close>

lemma kinv_upd:
  assumes inv: "kinv pol s"
    and f: "p_state (f (ptable s p)) = RUNNING \<longleftrightarrow> pstate s p = RUNNING" "p_pid (f (ptable s p)) = p_pid (ptable s p)"
      "p_parent (f (ptable s p)) = p_parent (ptable s p)"
      "born (p_state (f (ptable s p))) = born (pstate s p)" "alive (p_state (f (ptable s p))) = alive (pstate s p)"
      "p_state (f (ptable s p)) \<noteq> UNUSED \<Longrightarrow> pstate s p \<noteq> UNUSED"
      "born (p_state (f (ptable s p))) \<Longrightarrow> p < NPROC \<Longrightarrow>
         p_kstack (f (ptable s p)) \<noteq> 0 \<and> p_pgdir (f (ptable s p)) \<noteq> 0"
      "0 \<le> qn (f (ptable s p))" "qn (f (ptable s p)) \<le> 4" "p_state (f (ptable s p)) = EMBRYO \<Longrightarrow> qn (f (ptable s p)) = 0"
    and q: "\<not> queued s p"
  shows "kinv pol (upd_proc p f s)"
  unfolding kinv_def
  using kinvD [OF inv] f q
  by (intro conjI cpu_inv_upd pid_inv_upd tree_inv_upd res_inv_upd queue_inv_upd) simp_all

lemma res_slot:
  "kinv pol s \<Longrightarrow> p < NPROC \<Longrightarrow> born (pstate s p) \<Longrightarrow> p_kstack (ptable s p) \<noteq> 0 \<and> p_pgdir (ptable s p) \<noteq> 0"
  using kinvD(4) [of pol s] by (simp add: res_inv_def)

text \<open>A sleeping process becomes runnable.\<close>

lemma kinv_wake:
  assumes inv: "kinv pol s" and p: "p < NPROC" "pstate s p = SLEEPING"
  defines "u \<equiv> upd_proc p (\<lambda>x. x\<lparr>p_state := RUNNABLE\<rparr>) s"
  shows "kinv pol u" "\<not> queued u p" "runnable u p"
proof -
  have nq: "\<not> queued s p" using not_queued [OF kinvD(5) [OF inv]] p(2) by simp
  show "kinv pol u"
    unfolding u_def using p res_slot [OF inv p(1)] qn_range [OF kinvD(5) [OF inv] p(1)]
    by (intro kinv_upd [OF inv _ _ _ _ _ _ _ _ _ _ nq]) simp_all
  show "\<not> queued u p" "runnable u p" using nq by (simp_all add: u_def)
qed

lemma kinv_wakeup_slot:
  assumes inv: "kinv pol s" and p: "p < NPROC"
  shows "kinv pol (wakeup_slot pol ch p s)"
proof (cases "pstate s p = SLEEPING \<and> p_chan (ptable s p) = ch")
  case True
  let ?u = "upd_proc p (\<lambda>x. x\<lparr>p_state := RUNNABLE\<rparr>) s"
  note w = kinv_wake [OF inv p] conjunct1 [OF True]
  show ?thesis
  proof (cases "pol = MLFQ")
    case mlfq: True
    let ?v = "upd_proc p (\<lambda>x. x\<lparr>curtime := 0\<rparr>) ?u"
    have "kinv MLFQ ?v" by (rule kinv_upd_view) (use w mlfq in \<open>simp_all add: same_view_def\<close>)
    then have "kinv MLFQ (push (nat (qn (ptable ?v p))) p ?v)"
      using w p by (intro kinv_push) simp_all
    then show ?thesis using True mlfq by (simp add: wakeup_slot_def Let_def)
  next
    case False
    then show ?thesis using True w by (simp add: wakeup_slot_def Let_def)
  qed
qed (use inv in \<open>auto simp: wakeup_slot_def\<close>)

lemma kinv_wakeup1: "kinv pol s \<Longrightarrow> kinv pol (wakeup1 pol ch s)"
  unfolding wakeup1_def by (rule fold_keeps) (simp_all add: kinv_wakeup_slot)

lemma kinv_kill: "kinv pol s \<Longrightarrow> kinv pol (snd (kill pol pid s))"
proof -
  assume inv: "kinv pol s"
  show ?thesis
  proof (cases "find_pid pid s")
    case None
    then show ?thesis using inv by (simp add: kill_def)
  next
    case (Some p)
    then have p: "p < NPROC" by (simp add: find_pid_def find_upt_Some_iff)
    let ?k = "upd_proc p (\<lambda>x. x\<lparr>p_killed := True\<rparr>) s"
    have k: "kinv pol ?k" using inv by (intro kinv_upd_view) (simp_all add: same_view_def)
    note w = kinv_wake [OF k p]
    show ?thesis
    proof (cases "pstate s p = SLEEPING")
      case True
      let ?u = "upd_proc p (\<lambda>x. x\<lparr>p_state := RUNNABLE\<rparr>) ?k"
      have "kinv pol ?u" "\<not> queued ?u p" using w True by simp_all
      then have "pol = MLFQ \<Longrightarrow> kinv MLFQ (push (nat (qn (ptable ?u p))) p ?u)"
        using p by (intro kinv_push) simp_all
      with \<open>kinv pol ?u\<close> Some True show ?thesis by (simp add: kill_def Let_def)
    qed (use Some k in \<open>simp add: kill_def Let_def\<close>)
  qed
qed

text \<open>A process leaves its CPU.\<close>

lemma cpu_inv_leave:
  assumes inv: "cpu_inv s" and c: "c_proc (cpus s c) = Some p"
    and x: "p_state x \<noteq> RUNNING" and pt: "ptable u = (ptable s)(p := x)"
    and cp: "c_proc (cpus u c) = None" "\<And>d. d \<noteq> c \<Longrightarrow> c_proc (cpus u d) = c_proc (cpus s d)" and n: "ncpu u = ncpu s"
  shows "cpu_inv u"
proof -
  have one: "c_proc (cpus s d) = Some p \<Longrightarrow> d = c" for d using inv c unfolding cpu_inv_def by blast
  have some: "d \<noteq> c \<and> c_proc (cpus s d) = Some q" if "c_proc (cpus u d) = Some q" for d q
    using that cp by (cases "d = c") auto
  have neq: "q \<noteq> p" if "c_proc (cpus u d) = Some q" for d q using some [OF that] one by auto
  have "d < ncpu u \<and> q < NPROC \<and> pstate u q = RUNNING" if "c_proc (cpus u d) = Some q" for d q
    using some [OF that] neq [OF that] inv pt n unfolding cpu_inv_def by (metis fun_upd_other)
  moreover have "\<exists>d. c_proc (cpus u d) = Some q" if q: "q < NPROC" "pstate u q = RUNNING" for q
  proof -
    have "q \<noteq> p" "pstate s q = RUNNING" using q(2) x pt by (auto split: if_splits)
    then obtain d where "c_proc (cpus s d) = Some q" using inv q(1) unfolding cpu_inv_def by blast
    moreover have "d \<noteq> c" using calculation c \<open>q \<noteq> p\<close> by auto
    ultimately show ?thesis by (intro exI [of _ d]) (simp add: cp(2))
  qed
  moreover have "d = d'" if "c_proc (cpus u d) = Some q" "c_proc (cpus u d') = Some q" for d d' q
    using some [OF that(1)] some [OF that(2)] inv unfolding cpu_inv_def by blast
  ultimately show ?thesis unfolding cpu_inv_def by blast
qed

lemma running_slot:
  assumes "kinv pol s" "c_proc (cpus s c) = Some p"
  shows "c < ncpu s" "p < NPROC" "pstate s p = RUNNING" "\<not> queued s p"
  using kinvD(1) [OF assms(1)] not_queued [OF kinvD(5) [OF assms(1)], of p] assms(2)
  unfolding cpu_inv_def by auto

lemma tree_inv_leave:
  assumes inv: "tree_inv s" and p: "pstate s p = RUNNING" and par: "p_parent x = p_parent (ptable s p)"
    and x: "p_state x \<in> {RUNNABLE, SLEEPING} \<or>
      p_state x = ZOMBIE \<and> initproc s \<noteq> Some p \<and> (\<forall>q<NPROC. p_parent (ptable s q) \<noteq> Some p)"
    and u: "ptable u = (ptable s)(p := x)" "initproc u = initproc s"
  shows "tree_inv u"
proof -
  have par': "p_parent (ptable u q) = p_parent (ptable s q)" for q using par u by simp
  have b: "born (pstate u q) = born (pstate s q)" for q using p x u by auto
  have a: "alive (pstate u q) = alive (pstate s q)" if "p_state x \<noteq> ZOMBIE \<or> q \<noteq> p" for q
    using p x u that by auto
  show ?thesis
  proof (cases "p_state x = ZOMBIE")
    case False
    then have a': "alive (pstate u q) = alive (pstate s q)" for q using a by simp
    show ?thesis using inv unfolding tree_inv_def par' b a' u(2) .
  next
    case True
    then have z: "initproc s \<noteq> Some p" "\<forall>q<NPROC. p_parent (ptable s q) \<noteq> Some p" using x by auto
    obtain i where i: "i < NPROC" "initproc s = Some i" "alive (pstate s i)"
      "\<forall>q<NPROC. born (pstate s q) \<and> q \<noteq> i \<longrightarrow> p_parent (ptable s q) \<noteq> None" using inv unfolding tree_inv_def by blast
    then have "alive (pstate u i)" using a [of i] z(1) by auto
    moreover have "r < NPROC \<and> alive (pstate u r) \<and> born (pstate s q)"
      if "q < NPROC" "p_parent (ptable s q) = Some r" for q r
    proof -
      have "r \<noteq> p" using z(2) that by auto
      moreover have "r < NPROC \<and> alive (pstate s r) \<and> born (pstate s q)" using inv that unfolding tree_inv_def by blast
      ultimately show ?thesis using a [of r] by simp
    qed
    ultimately show ?thesis using i unfolding tree_inv_def par' b u(2) by blast
  qed
qed

lemma kinv_leave:
  assumes inv: "kinv pol s" and c: "c_proc (cpus s c) = Some p"
    and x: "p_state x \<in> {RUNNABLE, SLEEPING} \<or>
      p_state x = ZOMBIE \<and> initproc s \<noteq> Some p \<and> (\<forall>q<NPROC. p_parent (ptable s q) \<noteq> Some p)"
    and same: "p_pid x = p_pid (ptable s p)" "p_parent x = p_parent (ptable s p)"
      "p_kstack x = p_kstack (ptable s p)" "p_pgdir x = p_pgdir (ptable s p)" "qn x = qn (ptable s p)"
    and u: "ptable u = (ptable s)(p := x)" "initproc u = initproc s" "nextpid u = nextpid s" "ncpu u = ncpu s"
      "qface u = qface s" "qback u = qback s" "queue u = queue s"
    and cp: "c_proc (cpus u c) = None" "\<And>d. d \<noteq> c \<Longrightarrow> c_proc (cpus u d) = c_proc (cpus s d)"
  shows "kinv pol u" "\<not> queued u p"
proof -
  note r = running_slot [OF inv c] and v = queue_view [OF u(5-7)]
  have p: "p_pid (ptable u q) = p_pid (ptable s q)" "p_kstack (ptable u q) = p_kstack (ptable s q)"
    "p_pgdir (ptable u q) = p_pgdir (ptable s q)" "qn (ptable u q) = qn (ptable s q)" for q
    using u(1) same by simp_all
  have b: "born (pstate u q) = born (pstate s q)" "pstate u q \<noteq> UNUSED \<longleftrightarrow> pstate s q \<noteq> UNUSED" for q
    using r(3) x u(1) by auto
  have "p_state x \<noteq> RUNNING" using x by auto
  then have "cpu_inv u" using cpu_inv_leave [OF kinvD(1) [OF inv] c _ u(1) cp u(4)] by simp
  moreover have "tree_inv u" by (rule tree_inv_leave [OF kinvD(3) [OF inv] r(3) same(2) x u(1,2)])
  moreover have "pid_inv u" using kinvD(2) [OF inv] unfolding pid_inv_def p b(2) u(3) .
  moreover have "res_inv u" using kinvD(4) [OF inv] unfolding res_inv_def p b .
  moreover have "queue_inv pol u"
    by (rule queue_inv_slot [OF kinvD(5) [OF inv] r(4) u(1,5-7)])
      (use x same(5) qn_range [OF kinvD(5) [OF inv] r(2)] in auto)
  ultimately show "kinv pol u" by (simp add: kinv_def)
  show "\<not> queued u p" using r(4) v by simp
qed

lemma kinv_requeue:
  assumes inv: "kinv MLFQ s" and p: "p < NPROC" "\<not> queued s p"
  shows "kinv MLFQ (mlfq_requeue p s)"
proof (cases "runnable s p")
  case True
  define f :: "proc \<Rightarrow> proc" where "f = (if flagq (ptable s p) = 1
      then (\<lambda>x. x\<lparr>flagq := 0, curtime := 0, waittime := 0, qn := (if qn x \<noteq> 4 then qn x + 1 else qn x)\<rparr>)
      else (\<lambda>x. x\<lparr>curtime := 0\<rparr>))"
  let ?u = "upd_proc p f s"
  have "kinv MLFQ ?u"
    using True p res_slot [OF inv p(1)] qn_range [OF kinvD(5) [OF inv] p(1)]
    by (intro kinv_upd [OF inv _ _ _ _ _ _ _ _ _ _ p(2)]) (auto simp: f_def split: if_splits)
  moreover have "runnable ?u p" using True by (simp add: f_def)
  ultimately have "kinv MLFQ (push (nat (qn (ptable ?u p))) p ?u)"
    using p by (intro kinv_push) simp_all
  moreover have "mlfq_requeue p s = push (nat (qn (ptable ?u p))) p ?u"
    using True by (auto simp: mlfq_requeue_def f_def Let_def)
  ultimately show ?thesis by simp
next
  case False
  then show ?thesis using inv by (simp add: mlfq_requeue_def)
qed

lemma kinv_switch:
  assumes inv: "kinv pol s" and c: "c_proc (cpus s c) = Some p"
    and x: "p_state (f (ptable s p)) \<in> {RUNNABLE, SLEEPING} \<or>
      p_state (f (ptable s p)) = ZOMBIE \<and> initproc s \<noteq> Some p \<and> (\<forall>q<NPROC. p_parent (ptable s q) \<noteq> Some p)"
    and same: "p_pid (f (ptable s p)) = p_pid (ptable s p)" "p_parent (f (ptable s p)) = p_parent (ptable s p)"
      "p_kstack (f (ptable s p)) = p_kstack (ptable s p)" "p_pgdir (f (ptable s p)) = p_pgdir (ptable s p)"
      "qn (f (ptable s p)) = qn (ptable s p)"
  shows "kinv pol (scheduler_return pol c p (upd_proc p f s))"
proof -
  let ?u = "upd_cpu c (\<lambda>x. x\<lparr>c_proc := None\<rparr>) (switchkvm c (upd_proc p f s))"
  have u: "kinv pol ?u" "\<not> queued ?u p"
    by (rule kinv_leave [OF inv c x same]; simp add: switchkvm_def)+
  note r = running_slot [OF inv c]
  have "pol = MLFQ \<Longrightarrow> kinv MLFQ (mlfq_requeue p ?u)" using u kinv_requeue [OF _ r(2)] by blast
  then show ?thesis using u(1) kinv_scan by (cases pol) (simp_all add: scheduler_return_def)
qed

lemma kinv_yield:
  assumes inv: "kinv pol s" and y: "yield pol c L s = Inr (L', t)"
  shows "kinv pol t"
proof -
  obtain p where c: "c_proc (cpus s c) = Some p" using y by (auto simp: yield_def and_then_Inr_iff split: option.splits)
  let ?s = "if pol = MLFQ then upd_proc p (\<lambda>x. x\<lparr>curtime := 0, waittime := 0\<rparr>) s else s"
  have "kinv pol ?s" using inv kinv_upd_view [OF inv, of "\<lambda>x. x\<lparr>curtime := 0, waittime := 0\<rparr>" p]
    by (auto simp: same_view_def)
  then show ?thesis unfolding yield_Inr [OF y c] by (rule kinv_switch) (use c in simp_all)
qed

lemma kinv_sleep_begin:
  assumes inv: "kinv pol s" and b: "sleep_begin pol c ch l0 L s = Inr (L', t)"
  shows "kinv pol t"
  using sleep_begin_Inr [OF b] kinv_switch [OF inv, of c _ "\<lambda>x. x\<lparr>p_chan := Some ch, p_state := SLEEPING\<rparr>"] by auto

text \<open>A process gets a CPU.\<close>

lemma kinv_enter:
  assumes inv: "kinv pol s" and c: "c < ncpu s" "c_proc (cpus s c) = None"
    and p: "p < NPROC" "runnable s p" "\<not> queued s p"
  shows "\<exists>t. run_on c p s = Inr t \<and> kinv pol t"
proof -
  have res: "p_kstack (ptable s p) \<noteq> 0" "p_pgdir (ptable s p) \<noteq> 0" using res_slot [OF inv p(1)] p(2) by simp_all
  then obtain t where t: "run_on c p s = Inr t" using run_on_eq by blast
  note f = run_on_Inr [OF t]
  have np: "c_proc (cpus s d) \<noteq> Some p" for d using running_slot(3) [OF inv, of d p] p(2) by auto
  have cp: "c_proc (cpus t d) = (if d = c then Some p else c_proc (cpus s d))" for d using f(4,6) by simp
  have fld: "p_pid (ptable t q) = p_pid (ptable s q)" "p_kstack (ptable t q) = p_kstack (ptable s q)"
    "p_pgdir (ptable t q) = p_pgdir (ptable s q)" "qn (ptable t q) = qn (ptable s q)"
    "p_parent (ptable t q) = p_parent (ptable s q)" for q using f(3) by simp_all
  have st: "born (pstate t q) = born (pstate s q)" "alive (pstate t q) = alive (pstate s q)"
    "pstate t q \<noteq> UNUSED \<longleftrightarrow> pstate s q \<noteq> UNUSED" "pstate t q = RUNNING \<longleftrightarrow> q = p \<or> pstate s q = RUNNING" for q
    using f(3) p(2) by auto
  have "cpu_inv t"
    using kinvD(1) [OF inv] np c p(1) unfolding cpu_inv_def cp st f(13)
    by (auto split: if_splits) (metis option.distinct(1))
  moreover have "pid_inv t" using kinvD(2) [OF inv] unfolding pid_inv_def fld st(3) f(10) .
  moreover have "tree_inv t" using kinvD(3) [OF inv] unfolding tree_inv_def fld st(1,2) f(11) .
  moreover have "res_inv t" using kinvD(4) [OF inv] unfolding res_inv_def fld st(1) .
  moreover have "queue_inv pol t"
    by (rule queue_inv_slot [OF kinvD(5) [OF inv] p(3) f(3)])
      (use f(18-20) qn_range [OF kinvD(5) [OF inv] p(1)] in simp_all)
  ultimately show ?thesis using t by (simp add: kinv_def)
qed

section \<open>The scheduler keeps the invariant\<close>

lemma kinv_rr_step:
  assumes inv: "kinv ROUND_ROBIN s" and c: "c < ncpu s" "c_proc (cpus s c) = None"
  shows "\<exists>t. rr_step c s = Inr t \<and> kinv ROUND_ROBIN t"
proof (cases "find (runnable s) [c_scan (cpus s c)..<NPROC]")
  case None
  then show ?thesis using kinv_scan [OF inv] by (simp add: rr_step_def)
next
  case (Some p)
  then have p: "p < NPROC" "runnable s p" by (auto simp: find_upt_Some_iff)
  obtain t where t: "run_on c p s = Inr t" "kinv ROUND_ROBIN t"
    using kinv_enter [OF inv c p] not_queued [OF kinvD(5) [OF inv]] by blast
  then show ?thesis using Some kinv_scan [OF kinv_nrun [OF t(2)]] by (simp add: rr_step_def)
qed

lemma kinv_fcfs_step:
  assumes inv: "kinv FCFS s" and c: "c < ncpu s" "c_proc (cpus s c) = None"
  shows "\<exists>t. fcfs_step c s = Inr t \<and> kinv FCFS t"
proof (cases "fcfs_pick s")
  case None
  then show ?thesis using inv by (simp add: fcfs_step_def)
next
  case (Some p)
  then have p: "p < NPROC" "runnable s p" using fcfs_pick_cases(2) by blast+
  have "\<exists>t. run_on c p (inc_nrun NPROC s) = Inr t \<and> kinv FCFS t"
    using p c not_queued [OF kinvD(5) [OF kinv_nrun [OF inv]]]
    by (intro kinv_enter [OF kinv_nrun [OF inv]]) (simp_all add: inc_nrun_def)
  then show ?thesis using Some by (simp add: fcfs_step_def)
qed

lemma kinv_pbs_step:
  assumes inv: "kinv PBS s" and c: "c < ncpu s" "c_proc (cpus s c) = None"
  shows "\<exists>t. pbs_step c s = Inr t \<and> kinv PBS t"
proof (cases "find (runnable s) [c_scan (cpus s c)..<NPROC]")
  case None
  then show ?thesis using kinv_scan [OF inv] by (simp add: pbs_step_def)
next
  case (Some p)
  then have p: "p < NPROC" "runnable s p" by (auto simp: find_upt_Some_iff)
  let ?h = "pbs_pick s p"
  obtain e where "?h = (p + e) mod NPROC" and h: "runnable s ?h" using pbs_pick_spec [OF p] by metis
  then have "?h < NPROC" by (simp add: NPROC_def)
  then have "\<exists>t. run_on c ?h (inc_nrun ?h s) = Inr t \<and> kinv PBS t"
    using h c not_queued [OF kinvD(5) [OF kinv_nrun [OF inv]]]
    by (intro kinv_enter [OF kinv_nrun [OF inv]]) (simp_all add: inc_nrun_def)
  then show ?thesis using Some kinv_scan by (auto simp: pbs_step_def Let_def)
qed

lemma mlfq_pop_inv:
  assumes inv: "mlfq_inv s" and m: "mlfq_pop s = (Some p, t)"
  shows "mlfq_inv t" "requeues s t" "p < NPROC" "runnable t p" "\<not> queued t p"
proof -
  have ok: "mlfq_ok s" using inv by (simp add: mlfq_inv_def)
  obtain i where i: "i < NQUEUE" "qlist s i \<noteq> []" "mlfq_pop s = pop i s"
    using mlfq_pop_cases [OF ok] m by (cases "find (\<lambda>i. qlist s i \<noteq> []) [0..<NQUEUE]") auto
  then obtain q ps where q: "qlist s i = q # ps" by (cases "qlist s i") auto
  note d = pop_qlist [OF ok i(1) q]
  have t: "t = snd (pop i s)" "q = p" using m i(3) d(1) by simp_all
  have pt: "ptable t = ptable s" using t by simp
  show "requeues s t" using t requeues_pop by simp
  have sub: "r \<in> set (qlist s j)" if "j < NQUEUE" "r \<in> set (qlist t j)" for r j
    using d(2) [OF that(1)] that q t by (auto split: if_splits)
  show "mlfq_inv t" using inv sub d(3) t unfolding mlfq_inv_def pt by blast
  show "p < NPROC" using mlfq.items_elem [OF ok i(1), of p] q t by simp
  show "runnable t p" using inv i(1) q t unfolding mlfq_inv_def pt by auto
  show "\<not> queued t p" using d(4) t by simp
qed

lemma mlfq_pop_ptable: "ptable (snd (mlfq_pop s)) = ptable s"
  by (simp add: mlfq_pop_def split: option.splits)

lemma mlfq_pop_None:
  assumes ok: "mlfq_ok s" and m: "mlfq_pop s = (None, t)"
  shows "t = s"
proof (cases "find (\<lambda>i. qlist s i \<noteq> []) [0..<NQUEUE]")
  case None
  then show ?thesis using mlfq_pop_cases(1) [OF ok] m by simp
next
  case (Some i)
  then have i: "i < NQUEUE" "qlist s i \<noteq> []" "mlfq_pop s = pop i s" using mlfq_pop_cases(2) [OF ok] by blast+
  then obtain q ps where "qlist s i = q # ps" by (cases "qlist s i") auto
  then have "fst (mlfq_pop s) = Some q" using pop_qlist(1) [OF ok i(1)] i(3) by simp
  with m show ?thesis by simp
qed

lemma kinv_mlfq_step:
  assumes inv: "kinv MLFQ s" and c: "c < ncpu s" "c_proc (cpus s c) = None"
  shows "\<exists>t. mlfq_step c s = Inr t \<and> kinv MLFQ t"
proof -
  have "mlfq_inv s" using kinvD(5) [OF inv] by (simp add: queue_inv_def)
  then obtain u where u: "mlfq_aging s = Inr u" "mlfq_inv u" "requeues s u"
    "\<forall>q. \<not> runnable s q \<longrightarrow> ptable u q = ptable s q" using mlfq_aging_inv by blast
  have "qn (ptable u q) = 0" if "q < NPROC" "pstate u q = EMBRYO" for q
  proof -
    have "pstate s q = EMBRYO" using requeues_state [OF u(3)] that(2) by simp
    then show ?thesis using u(4) kinvD(5) [OF inv] that(1) by (simp add: queue_inv_def)
  qed
  then have iu: "kinv MLFQ u" using kinv_requeues [OF inv u(3)] u(2) by (simp add: queue_inv_def)
  obtain r v where v: "mlfq_pop u = (r, v)" by fastforce
  show ?thesis
  proof (cases r)
    case None
    have "mlfq_ok u" using u(2) by (simp add: mlfq_inv_def)
    then have "v = u" using mlfq_pop_None v None by blast
    then show ?thesis using u(1) v None iu by (simp add: mlfq_step_def)
  next
    case (Some p)
    note m = mlfq_pop_inv [OF u(2) v [unfolded Some]]
    have "ptable v = ptable u" using mlfq_pop_ptable [of u] v by simp
    then have iv: "kinv MLFQ v" using kinv_requeues [OF iu m(2)] m(1) kinvD(5) [OF iu] by (simp add: queue_inv_def)
    let ?w = "upd_proc p (\<lambda>x. x\<lparr>waittime := 0, curtime := 0, nrun := nrun x + 1\<rparr>) v"
    have iw: "kinv MLFQ ?w" using iv by (intro kinv_upd_view) (simp_all add: same_view_def)
    have "cpus v = cpus s" "ncpu v = ncpu s" using u(3) m(2) by (simp_all add: requeues_def)
    then have "\<exists>t. run_on c p ?w = Inr t \<and> kinv MLFQ t"
      using c m by (intro kinv_enter [OF iw]) simp_all
    then show ?thesis using u(1) v Some m(4) by (simp add: mlfq_step_def)
  qed
qed

lemma kinv_scheduler_step:
  assumes "kinv pol s" "c < ncpu s" "c_proc (cpus s c) = None"
  shows "\<exists>t. scheduler_step pol c s = Inr t \<and> kinv pol t"
  using assms kinv_rr_step kinv_fcfs_step kinv_pbs_step kinv_mlfq_step
  by (cases pol) (simp_all add: scheduler_step_def)

section \<open>Process creation and destruction keep the invariant\<close>

lemma kinv_alloc_init:
  assumes inv: "kinv pol s" and f: "find_slot UNUSED s = Some p" and n: "nextpid s < INT_MAX"
  shows "kinv pol (alloc_init p s)" "pstate (alloc_init p s) p = EMBRYO" "p < NPROC"
proof -
  have p: "p < NPROC" "pstate s p = UNUSED" using f by (auto simp: find_slot_def find_upt_Some_iff)
  let ?t = "alloc_init p s"
  have pt: "ptable ?t q = ptable s q" if "q \<noteq> p" for q using that by (simp add: alloc_init_def)
  have tp: "pstate ?t p = EMBRYO" "p_pid (ptable ?t p) = nextpid s" "p_parent (ptable ?t p) = p_parent (ptable s p)"
    "qn (ptable ?t p) = 0" by (simp_all add: alloc_init_def)
  have fr: "cpus ?t = cpus s" "ncpu ?t = ncpu s" "initproc ?t = initproc s" "nextpid ?t = nextpid s + 1"
    "qface ?t = qface s" "qback ?t = qback s" "queue ?t = queue s" by (simp_all add: alloc_init_def)
  note v = queue_view [OF fr(5-7)]
  have b: "born (pstate ?t q) = born (pstate s q)" "alive (pstate ?t q) = alive (pstate s q)"
    "pstate ?t q = RUNNING \<longleftrightarrow> pstate s q = RUNNING" "p_parent (ptable ?t q) = p_parent (ptable s q)" for q
    using p tp pt by (cases "q = p"; simp)+
  have "cpu_inv ?t" using kinvD(1) [OF inv] unfolding cpu_inv_def fr b .
  moreover have "tree_inv ?t" using kinvD(3) [OF inv] unfolding tree_inv_def fr b .
  moreover have "res_inv ?t"
    using kinvD(4) [OF inv] tp(1) pt unfolding res_inv_def by (metis born_simps(6))
  moreover have "pid_inv ?t"
  proof -
    have old: "0 < nextpid s" "\<And>q. q < NPROC \<Longrightarrow> 0 \<le> p_pid (ptable s q) \<and> p_pid (ptable s q) < nextpid s
        \<and> (pstate s q \<noteq> UNUSED \<longrightarrow> p_pid (ptable s q) \<noteq> 0)"
      "\<And>q r. q < NPROC \<Longrightarrow> r < NPROC \<Longrightarrow> p_pid (ptable s q) = p_pid (ptable s r) \<Longrightarrow> p_pid (ptable s q) \<noteq> 0 \<Longrightarrow> q = r"
      using kinvD(2) [OF inv] unfolding pid_inv_def by blast+
    have "0 \<le> p_pid (ptable ?t q) \<and> p_pid (ptable ?t q) < nextpid ?t \<and> (pstate ?t q \<noteq> UNUSED \<longrightarrow> p_pid (ptable ?t q) \<noteq> 0)"
      if "q < NPROC" for q using old(1) old(2) [OF that] tp(2) pt [of q] fr(4) by (cases "q = p") auto
    moreover have "q = r" if "q < NPROC" "r < NPROC" "p_pid (ptable ?t q) = p_pid (ptable ?t r)" "p_pid (ptable ?t q) \<noteq> 0" for q r
      using old(3) [OF that(1,2)] old(2) [OF that(1)] old(2) [OF that(2)] that tp(2) pt [of q] pt [of r]
      by (cases "q = p"; cases "r = p") auto
    ultimately show ?thesis using old(1) fr(4) n unfolding pid_inv_def by auto
  qed
  moreover have "queue_inv pol ?t"
  proof (rule queue_inv_slot [OF kinvD(5) [OF inv] _ _ fr(5-7)])
    show "\<not> queued s p" using not_queued [OF kinvD(5) [OF inv]] p(2) by simp
    show "ptable ?t = (ptable s)(p := ptable ?t p)" using pt by auto
  qed (simp_all add: tp(4))
  ultimately show "kinv pol ?t" by (simp add: kinv_def)
  show "pstate ?t p = EMBRYO" "p < NPROC" by (fact tp(1), fact p(1))
qed

text \<open>Slots that are not in use, and slots being set up, may change in any way that keeps
  them so.\<close>

lemma kinv_upd_unborn:
  assumes inv: "kinv pol s" and p: "\<not> born (pstate s p)"
    and f: "p_pid (f (ptable s p)) = p_pid (ptable s p)" "p_parent (f (ptable s p)) = p_parent (ptable s p)"
      "\<not> born (p_state (f (ptable s p)))" "p_state (f (ptable s p)) \<noteq> UNUSED \<Longrightarrow> pstate s p \<noteq> UNUSED"
      "qn (f (ptable s p)) = qn (ptable s p)"
  shows "kinv pol (upd_proc p f s)"
proof (cases "p < NPROC")
  case True
  have nr: "pstate s p \<noteq> RUNNABLE" "pstate s p \<noteq> RUNNING" using p by auto
  have nq: "\<not> queued s p" using not_queued [OF kinvD(5) [OF inv]] nr(1) by simp
  show ?thesis
  proof (rule kinv_upd [OF inv _ _ _ _ _ _ _ _ _ _ nq])
    show "p_state (f (ptable s p)) = RUNNING \<longleftrightarrow> pstate s p = RUNNING" using nr f(3) by auto
    show "alive (p_state (f (ptable s p))) = alive (pstate s p)" using p f(3) alive_born by blast
    have e: "p_state (f (ptable s p)) = EMBRYO \<Longrightarrow> pstate s p = EMBRYO" using f(4) p by (auto simp: born_def)
    then show "p_state (f (ptable s p)) = EMBRYO \<Longrightarrow> qn (f (ptable s p)) = 0"
      using f(5) kinvD(5) [OF inv] True by (simp add: queue_inv_def)
  qed (use f p qn_range [OF kinvD(5) [OF inv] True] in auto)
next
  case False
  have nq: "\<not> queued s p"
    using False kinvD(5) [OF inv] mlfq.items_elem by (auto simp: queue_inv_def mlfq_inv_def queued_qlist)
  have cp: "c_proc (cpus s c) \<noteq> Some p" for c using running_slot(2) [OF inv] False by auto
  have "cpu_inv (upd_proc p f s)" using kinvD(1) [OF inv] False cp unfolding cpu_inv_def by auto
  moreover have "pid_inv (upd_proc p f s)" using kinvD(2) [OF inv] False unfolding pid_inv_def by auto
  moreover have "tree_inv (upd_proc p f s)" using kinvD(3) [OF inv] False unfolding tree_inv_def by auto
  moreover have "res_inv (upd_proc p f s)" using kinvD(4) [OF inv] False unfolding res_inv_def by auto
  moreover have "queue_inv pol (upd_proc p f s)"
  proof -
    have "q \<noteq> p" if "i < NQUEUE" "q \<in> set (qlist s i)" for q i
      using nq that kinvD(5) [OF inv] by (auto simp: queue_inv_def mlfq_inv_def queued_qlist)
    then show ?thesis using kinvD(5) [OF inv] False by (auto simp: queue_inv_def mlfq_inv_def)
  qed
  ultimately show ?thesis by (simp add: kinv_def)
qed

lemma kinv_alloc_stack:
  assumes inv: "kinv pol s" and p: "pstate s p = EMBRYO"
  shows "kinv pol (snd (alloc_stack ops p s))"
    and "fst (alloc_stack ops p s) \<Longrightarrow> pstate (snd (alloc_stack ops p s)) p = EMBRYO
           \<and> p_kstack (ptable (snd (alloc_stack ops p s)) p) \<noteq> 0"
proof -
  obtain k e where k: "op_kalloc ops (env s) = (k, e)" by fastforce
  let ?s = "upd_proc p (\<lambda>x. x\<lparr>p_kstack := k\<rparr>) (s\<lparr>env := e\<rparr>)"
  have i: "kinv pol ?s" using p by (intro kinv_upd_unborn kinv_env inv) simp_all
  have "kinv pol (upd_proc p g ?s)"
    if "\<And>x. p_pid (g x) = p_pid x \<and> p_parent (g x) = p_parent x \<and> qn (g x) = qn x"
      "\<And>x. p_state x = EMBRYO \<Longrightarrow> p_state (g x) \<in> {UNUSED, EMBRYO}" for g
    by (rule kinv_upd_unborn [OF i]) (use p that in \<open>auto simp: born_def\<close>)
  then show "kinv pol (snd (alloc_stack ops p s))"
    using k by (auto simp: alloc_stack_def Let_def intro!: kinv_env)
  show "fst (alloc_stack ops p s) \<Longrightarrow> pstate (snd (alloc_stack ops p s)) p = EMBRYO
           \<and> p_kstack (ptable (snd (alloc_stack ops p s)) p) \<noteq> 0"
    using k p by (simp add: alloc_stack_def Let_def split: if_splits)
qed

text \<open>Everything but slot \<open>np\<close>, the console and the layers below is unchanged.\<close>

definition slot_only :: "nat \<Rightarrow> 'e kst \<Rightarrow> 'e kst \<Rightarrow> bool" where
  "slot_only np s u \<longleftrightarrow> (\<forall>q. q \<noteq> np \<longrightarrow> ptable u q = ptable s q) \<and> cpus u = cpus s \<and> ncpu u = ncpu s
     \<and> nextpid u = nextpid s \<and> initproc u = initproc s \<and> ticks u = ticks s
     \<and> qface u = qface s \<and> qback u = qback s \<and> queue u = queue s"

lemma slot_only_refl [simp]: "slot_only np s s"
  by (simp add: slot_only_def)

lemma slot_only_trans: "slot_only np s u \<Longrightarrow> slot_only np u v \<Longrightarrow> slot_only np s v"
  by (simp add: slot_only_def)

lemma slot_only_upd [simp]: "slot_only np s (upd_proc np f u) \<longleftrightarrow> slot_only np s u"
  by (auto simp: slot_only_def)

lemma slot_only_env [simp]: "slot_only np s (u\<lparr>env := e\<rparr>) \<longleftrightarrow> slot_only np s u"
  by (simp add: slot_only_def)

lemma slot_only_ptable: "slot_only np s u \<Longrightarrow> ptable u = (ptable s)(np := ptable u np)"
  by (auto simp: slot_only_def)

lemma upd_env_Inr: "upd_env f s = Inr t \<longleftrightarrow> (\<exists>e. f (env s) = Inr e \<and> t = s\<lparr>env := e\<rparr>)"
  by (auto simp: upd_env_def and_then_Inr_iff)

lemma kinv_slot_view:
  assumes "kinv pol s" "slot_only p s u" "same_view (ptable u p) (ptable s p)"
  shows "kinv pol u"
proof (rule kinv_view [OF assms(1)])
  show "same_view (ptable u q) (ptable s q)" for q
    using assms(2,3) by (cases "q = p") (auto simp: slot_only_def same_view_def)
qed (use assms(2) in \<open>simp_all add: slot_only_def\<close>)

lemma kinv_birth:
  assumes inv: "kinv pol s" and np: "np < NPROC" "pstate s np = EMBRYO"
    and cur: "cur < NPROC" "alive (pstate s cur)" and u: "slot_only np s u"
    and x: "runnable u np" "p_pid (ptable u np) = p_pid (ptable s np)" "p_parent (ptable u np) = Some cur"
      "p_kstack (ptable u np) \<noteq> 0" "p_pgdir (ptable u np) \<noteq> 0" "qn (ptable u np) = qn (ptable s np)"
  shows "kinv pol u" "\<not> queued u np"
proof -
  note pt = slot_only_ptable [OF u]
  have fr: "cpus u = cpus s" "ncpu u = ncpu s" "nextpid u = nextpid s" "initproc u = initproc s"
    "qface u = qface s" "qback u = qback s" "queue u = queue s" using u by (simp_all add: slot_only_def)
  have oth: "ptable u q = ptable s q" if "q \<noteq> np" for q using u that by (simp add: slot_only_def)
  have q0: "qn (ptable s np) = 0" and nq: "\<not> queued s np"
    using kinvD(5) [OF inv] np not_queued [OF kinvD(5) [OF inv], of np] by (simp_all add: queue_inv_def)
  have run: "pstate u q = RUNNING \<longleftrightarrow> pstate s q = RUNNING" for q using oth np x by (cases "q = np") simp_all
  have "cpu_inv u" using kinvD(1) [OF inv] unfolding cpu_inv_def run fr .
  moreover have "pid_inv u"
  proof -
    have pid: "p_pid (ptable u q) = p_pid (ptable s q)" for q using oth x by (cases "q = np") simp_all
    have un: "pstate u q \<noteq> UNUSED \<longleftrightarrow> pstate s q \<noteq> UNUSED" for q using oth np x by (cases "q = np") simp_all
    show ?thesis using kinvD(2) [OF inv] unfolding pid_inv_def pid un fr .
  qed
  moreover have "res_inv u"
    using kinvD(4) [OF inv] x oth unfolding res_inv_def by metis
  moreover have "tree_inv u"
  proof -
    obtain i where i: "i < NPROC" "initproc s = Some i" "alive (pstate s i)"
      "\<forall>q<NPROC. born (pstate s q) \<and> q \<noteq> i \<longrightarrow> p_parent (ptable s q) \<noteq> None"
      using kinvD(3) [OF inv] unfolding tree_inv_def by blast
    have al: "alive (pstate u q)" if "alive (pstate s q)" for q using that oth x by (cases "q = np") simp_all
    have "p_parent (ptable u q) \<noteq> None" if "q < NPROC" "born (pstate u q)" "q \<noteq> i" for q
      using i(4) that oth x by (cases "q = np") simp_all
    moreover have "r < NPROC \<and> alive (pstate u r) \<and> born (pstate u q)" if "q < NPROC" "p_parent (ptable u q) = Some r" for q r
    proof (cases "q = np")
      case True then show ?thesis using x that al cur by simp
    next
      case False
      then have "r < NPROC \<and> alive (pstate s r) \<and> born (pstate s q)"
        using kinvD(3) [OF inv] that oth [OF False] unfolding tree_inv_def by auto
      then show ?thesis using al oth [OF False] by simp
    qed
    ultimately show ?thesis using i(1,2) al [OF i(3)] unfolding tree_inv_def fr by blast
  qed
  moreover have "queue_inv pol u"
    by (rule queue_inv_slot [OF kinvD(5) [OF inv] nq pt fr(5-7)]) (use x q0 in simp_all)
  ultimately show "kinv pol u" by (simp add: kinv_def)
  show "\<not> queued u np" using nq queue_view [OF fr(5-7)] by simp
qed

lemma dup_files_frame:
  assumes "foldk (dup_file ops cur np) is s = Inr t"
  shows "slot_only np s t \<and> (\<exists>fs. ptable t np = (ptable s np)\<lparr>p_ofile := fs\<rparr>)"
  using assms
proof (rule foldk_invariant)
  show "slot_only np s s \<and> (\<exists>fs. ptable s np = (ptable s np)\<lparr>p_ofile := fs\<rparr>)"
    by (simp add: exI [of _ "p_ofile (ptable s np)"])
  fix i u v
  assume "slot_only np s u \<and> (\<exists>fs. ptable u np = (ptable s np)\<lparr>p_ofile := fs\<rparr>)" "dup_file ops cur np i u = Inr v"
  then show "slot_only np s v \<and> (\<exists>fs. ptable v np = (ptable s np)\<lparr>p_ofile := fs\<rparr>)"
    by (auto simp: dup_file_def and_then_Inr_iff upd_env_Inr split: option.splits)
qed

lemma fork_copy_cases:
  assumes f: "fork_copy pol ops cur np s = Inr (r, t)" and ne: "cur \<noteq> np"
  obtains "r = -1" "slot_only np s t" "pstate t np = UNUSED" "p_pid (ptable t np) = p_pid (ptable s np)"
      "p_parent (ptable t np) = p_parent (ptable s np)" "qn (ptable t np) = qn (ptable s np)"
  | u where "t = publish pol np u" "r = p_pid (ptable s np)" "slot_only np s u" "pstate u np = pstate s np"
      "p_pid (ptable u np) = p_pid (ptable s np)" "p_parent (ptable u np) = Some cur"
      "p_kstack (ptable u np) = p_kstack (ptable s np)" "p_pgdir (ptable u np) \<noteq> 0"
      "qn (ptable u np) = qn (ptable s np)" "tf_eax (p_tf (ptable u np)) = 0" "p_sz (ptable u np) = p_sz (ptable s cur)"
      "p_killed (ptable u np) = p_killed (ptable s np)"
proof -
  obtain pd e where c: "op_copyuvm ops (p_pgdir (ptable s cur)) (p_sz (ptable s cur)) (env s) = Inr (pd, e)"
    using f by (auto simp: fork_copy_def and_then_Inr_iff)
  let ?s = "upd_proc np (\<lambda>x. x\<lparr>p_pgdir := pd\<rparr>) (s\<lparr>env := e\<rparr>)"
  show thesis
  proof (cases "pd = 0")
    case True
    with f c show thesis
      by (intro that(1)) (auto simp: fork_copy_def and_then_Inr_iff upd_env_Inr Let_def)
  next
    case False
    let ?s' = "upd_proc np (\<lambda>x. x\<lparr>p_sz := p_sz (ptable ?s cur), p_parent := Some cur,
                      p_tf := (p_tf (ptable ?s cur))\<lparr>tf_eax := 0\<rparr>\<rparr>) ?s"
    from f c False obtain v ip w where v: "foldk (dup_file ops cur np) [0..<NOFILE] ?s' = Inr v"
      "upd_env (op_idup ops ip) v = Inr w"
      "t = publish pol np (upd_proc np (\<lambda>x. x\<lparr>p_cwd := Some ip, p_name := copy_name (p_name (ptable w cur))\<rparr>) w)"
      "r = p_pid (ptable w np)"
      by (auto simp: fork_copy_def and_then_Inr_iff Let_def split: option.splits)
    let ?u = "upd_proc np (\<lambda>x. x\<lparr>p_cwd := Some ip, p_name := copy_name (p_name (ptable w cur))\<rparr>) w"
    obtain fs where d: "slot_only np ?s' v" "ptable v np = (ptable ?s' np)\<lparr>p_ofile := fs\<rparr>"
      using dup_files_frame [OF v(1)] by blast
    have w: "slot_only np ?s' w" "ptable w np = (ptable ?s' np)\<lparr>p_ofile := fs\<rparr>"
      using v(2) d by (auto simp: upd_env_Inr)
    have "slot_only np s ?s'" by simp
    from slot_only_trans [OF this w(1)] have "slot_only np s ?u" by simp
    then show thesis
      using v(3,4) w(2) False ne by (intro that(2) [of ?u]) simp_all
  qed
qed

lemma kinv_publish:
  assumes inv: "kinv pol s" and np: "np < NPROC" "pstate s np = EMBRYO"
    and cur: "cur < NPROC" "alive (pstate s cur)" and u: "slot_only np s u" "pstate u np = pstate s np"
    and x: "p_pid (ptable u np) = p_pid (ptable s np)" "p_parent (ptable u np) = Some cur"
      "p_kstack (ptable u np) \<noteq> 0" "p_pgdir (ptable u np) \<noteq> 0" "qn (ptable u np) = qn (ptable s np)"
  shows "kinv pol (publish pol np u)"
proof -
  let ?v = "upd_proc np (\<lambda>x. x\<lparr>p_state := RUNNABLE\<rparr>) u"
  have v: "kinv pol ?v" "\<not> queued ?v np"
    by (rule kinv_birth [OF inv np cur]; use u x in simp)+
  have "qn (ptable ?v np) = 0" using x(5) kinvD(5) [OF inv] np by (simp add: queue_inv_def)
  then have "pol = MLFQ \<Longrightarrow> kinv MLFQ (push 0 np ?v)" using kinv_push [of ?v np] v np(1) by simp
  with v(1) show ?thesis by (simp add: publish_def Let_def)
qed

lemma kinv_fork_copy:
  assumes inv: "kinv pol s" and f: "fork_copy pol ops cur np s = Inr (r, t)"
    and np: "np < NPROC" "pstate s np = EMBRYO" "p_kstack (ptable s np) \<noteq> 0" and cur: "cur < NPROC" "alive (pstate s cur)"
  shows "kinv pol t"
proof -
  have "cur \<noteq> np" using np(2) cur(2) by auto
  from f this show ?thesis
  proof (cases rule: fork_copy_cases)
    case 1
    have "kinv pol (upd_proc np (\<lambda>_. ptable t np) s)"
      by (rule kinv_upd_unborn [OF inv]) (use 1 np in simp_all)
    then show ?thesis
      by (rule kinv_view) (use 1(2) in \<open>auto simp: slot_only_def same_view_def\<close>)
  next
    case (2 u)
    then show ?thesis
      using kinv_publish [OF inv np(1,2) cur 2(3,4,5,6) _ 2(8,9)] np(3) by simp
  qed
qed

lemma kinv_reap:
  assumes inv: "kinv pol s" and p: "p < NPROC" "pstate s p = ZOMBIE" and r: "reap ops p s = Inr t"
  shows "kinv pol t"
proof -
  have u: "slot_only p s t" and x: "pstate t p = UNUSED" "p_pid (ptable t p) = 0" "p_parent (ptable t p) = None"
    "qn (ptable t p) = qn (ptable s p)"
    using r by (auto simp: reap_def and_then_Inr_iff upd_env_Inr Let_def)
  note pt = slot_only_ptable [OF u]
  have fr: "cpus t = cpus s" "ncpu t = ncpu s" "nextpid t = nextpid s" "initproc t = initproc s"
    "qface t = qface s" "qback t = qback s" "queue t = queue s" using u by (simp_all add: slot_only_def)
  have oth: "ptable t q = ptable s q" if "q \<noteq> p" for q using u that by (simp add: slot_only_def)
  have st: "pstate t q = RUNNING \<longleftrightarrow> pstate s q = RUNNING" "alive (pstate t q) = alive (pstate s q)" for q
    using oth p x by (cases "q = p"; simp)+
  have "cpu_inv t" using kinvD(1) [OF inv] unfolding cpu_inv_def st fr .
  moreover have "pid_inv t"
  proof -
    have pi: "0 < nextpid s" "\<And>q. q < NPROC \<Longrightarrow> 0 \<le> p_pid (ptable s q) \<and> p_pid (ptable s q) < nextpid s
        \<and> (pstate s q \<noteq> UNUSED \<longrightarrow> p_pid (ptable s q) \<noteq> 0)"
      "\<And>q r. q < NPROC \<Longrightarrow> r < NPROC \<Longrightarrow> p_pid (ptable s q) = p_pid (ptable s r) \<Longrightarrow> p_pid (ptable s q) \<noteq> 0 \<Longrightarrow> q = r" "nextpid s \<le> INT_MAX"
      using kinvD(2) [OF inv] unfolding pid_inv_def by blast+
    have "0 \<le> p_pid (ptable t q) \<and> p_pid (ptable t q) < nextpid t \<and> (pstate t q \<noteq> UNUSED \<longrightarrow> p_pid (ptable t q) \<noteq> 0)"
      if "q < NPROC" for q using pi(1) pi(2) [OF that] x oth [of q] fr(3) by (cases "q = p") auto
    moreover have "q = r" if "q < NPROC" "r < NPROC" "p_pid (ptable t q) = p_pid (ptable t r)" "p_pid (ptable t q) \<noteq> 0" for q r
      using pi(3) [OF that(1,2)] that(3,4) x oth [of q] oth [of r] by (cases "q = p"; cases "r = p") auto
    ultimately show ?thesis using pi(1,4) fr(3) unfolding pid_inv_def by auto
  qed
  moreover have "res_inv t"
    using kinvD(4) [OF inv] x oth unfolding res_inv_def by (metis born_simps(5))
  moreover have "tree_inv t"
  proof -
    obtain i where i: "i < NPROC" "initproc s = Some i" "alive (pstate s i)"
      "\<forall>q<NPROC. born (pstate s q) \<and> q \<noteq> i \<longrightarrow> p_parent (ptable s q) \<noteq> None"
      using kinvD(3) [OF inv] unfolding tree_inv_def by blast
    have "p_parent (ptable t q) \<noteq> None" if "q < NPROC" "born (pstate t q)" "q \<noteq> i" for q
      using i(4) that oth x by (cases "q = p") simp_all
    moreover have "r < NPROC \<and> alive (pstate s r) \<and> born (pstate t q)" if "q < NPROC" "p_parent (ptable t q) = Some r" for q r
      using kinvD(3) [OF inv] that oth [of q] x unfolding tree_inv_def by (cases "q = p") auto
    ultimately show ?thesis using i(1,2,3) unfolding tree_inv_def fr st by blast
  qed
  moreover have "queue_inv pol t"
    by (rule queue_inv_slot [OF kinvD(5) [OF inv] _ pt fr(5-7)])
      (use x p not_queued [OF kinvD(5) [OF inv], of p] qn_range [OF kinvD(5) [OF inv] p(1)] in simp_all)
  ultimately show ?thesis by (simp add: kinv_def)
qed

lemma kinv_wait_pass:
  assumes inv: "kinv pol s" and w: "wait_pass ops cur s = Inr (r, t)"
  shows "kinv pol t" "r = Must_sleep \<Longrightarrow> t = s"
  using w kinv_reap [OF inv] inv
  by (auto simp: wait_pass_def and_then_Inr_iff find_upt_Some_iff split: option.splits if_splits)

lemma kinv_wait:
  assumes inv: "kinv pol s" and w: "wait pol ops c s = Inr (r, t)"
  shows "kinv pol t"
proof -
  obtain cur r' u where u: "c_proc (cpus s c) = Some cur" "wait_pass ops cur s = Inr (r', u)"
    using w by (auto simp: wait_unfold and_then_Inr_iff split: option.splits)
  show ?thesis
  proof (cases "r' = Must_sleep")
    case True
    then have "u = s" using kinv_wait_pass(2) [OF inv u(2)] by simp
    then show ?thesis
      using w u True by (auto simp: wait_unfold and_then_Inr_iff intro: kinv_sleep_begin [OF inv])
  next
    case False
    then have "t = u" using w u by (cases r') (auto simp: wait_unfold and_then_Inr_iff)
    then show ?thesis using kinv_wait_pass(1) [OF inv u(2)] by simp
  qed
qed

lemma kinv_waitx:
  assumes inv: "kinv pol s" and w: "waitx pol ops c s = Inr (r, t)"
  shows "kinv pol t"
proof -
  obtain cur where u: "c_proc (cpus s c) = Some cur" using w by (auto simp: waitx_unfold split: option.splits)
  show ?thesis
  proof (cases "find (\<lambda>p. is_child s cur p \<and> pstate s p = ZOMBIE) [0..<NPROC]")
    case None
    then show ?thesis
      using w u inv by (auto simp: waitx_unfold and_then_Inr_iff split: if_splits intro: kinv_sleep_begin [OF inv])
  next
    case (Some p)
    then have p: "p < NPROC" "pstate s p = ZOMBIE" by (auto simp: find_upt_Some_iff)
    from Some w u obtain v where "reap ops p s = Inr v" "t = upd_proc p (\<lambda>x. x\<lparr>etime := sint (ticks s)\<rparr>) v"
      by (auto simp: waitx_unfold and_then_Inr_iff)
    then show ?thesis using kinv_upd_view [OF kinv_reap [OF inv p]] by (simp add: same_view_def)
  qed
qed

lemma wakeup_slot_frame:
  "p_parent (ptable (wakeup_slot pol ch q s) r) = p_parent (ptable s r)"
  "cpus (wakeup_slot pol ch q s) = cpus s" "initproc (wakeup_slot pol ch q s) = initproc s"
  "ncpu (wakeup_slot pol ch q s) = ncpu s" "nextpid (wakeup_slot pol ch q s) = nextpid s"
  by (simp_all add: wakeup_slot_def push_def Let_def)

lemma wakeup1_frame [simp]:
  "p_parent (ptable (wakeup1 pol ch s) r) = p_parent (ptable s r)"
  "cpus (wakeup1 pol ch s) = cpus s" "initproc (wakeup1 pol ch s) = initproc s"
  "ncpu (wakeup1 pol ch s) = ncpu s" "nextpid (wakeup1 pol ch s) = nextpid s"
  unfolding wakeup1_def
  by (rule fold_field [where g = "\<lambda>s. p_parent (ptable s r)"] fold_field [where g = cpus]
      fold_field [where g = initproc] fold_field [where g = ncpu] fold_field [where g = nextpid];
      simp add: wakeup_slot_frame)+

lemma kinv_reparent:
  assumes inv: "kinv pol s" and q: "q < NPROC" "p_parent (ptable s q) = Some p"
  shows "kinv pol (upd_proc q (\<lambda>x. x\<lparr>p_parent := initproc s\<rparr>) s)"
proof -
  let ?t = "upd_proc q (\<lambda>x. x\<lparr>p_parent := initproc s\<rparr>) s"
  have "cpu_inv ?t" "pid_inv ?t" "res_inv ?t" "queue_inv pol ?t"
    using kinvD [OF inv] by (auto intro!: cpu_inv_upd pid_inv_upd res_inv_upd queue_inv_frame simp: res_slot [OF inv])
  moreover have "tree_inv ?t"
  proof -
    obtain i where i: "i < NPROC" "initproc s = Some i" "alive (pstate s i)"
      "\<forall>r<NPROC. born (pstate s r) \<and> r \<noteq> i \<longrightarrow> p_parent (ptable s r) \<noteq> None"
      and par: "\<forall>r<NPROC. \<forall>u. p_parent (ptable s r) = Some u \<longrightarrow> u < NPROC \<and> alive (pstate s u) \<and> born (pstate s r)"
      using kinvD(3) [OF inv] unfolding tree_inv_def by blast
    have st: "pstate ?t r = pstate s r" "initproc ?t = initproc s" for r by simp_all
    have "p_parent (ptable ?t r) \<noteq> None" if "r < NPROC" "born (pstate s r)" "r \<noteq> i" for r
      using i that by simp
    moreover have "u < NPROC \<and> alive (pstate s u) \<and> born (pstate s r)"
      if "r < NPROC" "p_parent (ptable ?t r) = Some u" for r u
      using that par i q by (cases "r = q") auto
    ultimately show ?thesis using i unfolding tree_inv_def st by blast
  qed
  ultimately show ?thesis by (simp add: kinv_def)
qed

lemma kinv_abandon:
  assumes inv: "kinv pol s" and q: "q < NPROC"
  shows "kinv pol (abandon pol p q s)"
  using kinv_reparent [OF inv q] kinv_wakeup1 inv by (auto simp: abandon_def Let_def)

lemma abandon_frame:
  "cpus (abandon pol p q s) = cpus s" "initproc (abandon pol p q s) = initproc s"
  "p_parent (ptable (abandon pol p q s) r) =
     (if r = q \<and> p_parent (ptable s q) = Some p then initproc s else p_parent (ptable s r))"
  by (simp_all add: abandon_def Let_def)

lemma abandon_all:
  assumes "kinv pol s" "n \<le> NPROC" "initproc s \<noteq> Some p"
  defines "t \<equiv> fold (abandon pol p) [0..<n] s"
  shows "kinv pol t \<and> cpus t = cpus s \<and> initproc t = initproc s \<and> (\<forall>q<n. p_parent (ptable t q) \<noteq> Some p)"
  using assms(2) unfolding t_def
proof (induction n)
  case 0
  then show ?case using assms(1) by simp
next
  case (Suc n)
  let ?u = "fold (abandon pol p) [0..<n] s"
  have u: "kinv pol ?u" "cpus ?u = cpus s" "initproc ?u = initproc s" "\<forall>q<n. p_parent (ptable ?u q) \<noteq> Some p"
    using Suc by simp_all
  have "p_parent (ptable (abandon pol p n ?u) q) \<noteq> Some p" if "q < Suc n" for q
    using that u(3,4) assms(3) by (cases "q = n") (auto simp: abandon_frame)
  then show ?case using kinv_abandon [OF u(1), of n p] u(2,3) Suc.prems by (simp add: abandon_frame)
qed

text \<open>What \<^verbatim>\<open>exit\<close> leaves to the scheduler.\<close>

definition exit_body :: "policy \<Rightarrow> nat \<Rightarrow> 'e kst \<Rightarrow> 'e kst" where
  "exit_body pol p s =
     (let s = fold (abandon pol p) [0..<NPROC] (wakeup1 pol (map_option ChanProc (p_parent (ptable s p))) s)
      in upd_proc p (\<lambda>x. x\<lparr>etime := sint (ticks s), p_state := ZOMBIE\<rparr>) s)"

lemma exit_final_body: "exit_final pol c p L s = and_then (acquire c Ptable_lock L) (\<lambda>L. sched pol c L (exit_body pol p s))"
  by (simp add: exit_final_def exit_body_def Let_def)

lemma kinv_exit_final:
  assumes inv: "kinv pol s" and c: "c_proc (cpus s c) = Some p" and i: "initproc s \<noteq> Some p"
  shows "kinv pol (scheduler_return pol c p (exit_body pol p s))" "c_proc (cpus (exit_body pol p s) c) = Some p"
proof -
  let ?s = "wakeup1 pol (map_option ChanProc (p_parent (ptable s p))) s"
  let ?u = "fold (abandon pol p) [0..<NPROC] ?s"
  have u: "kinv pol ?u" "cpus ?u = cpus s" "initproc ?u = initproc s" "\<forall>q<NPROC. p_parent (ptable ?u q) \<noteq> Some p"
    using abandon_all [of pol ?s NPROC p] kinv_wakeup1 [OF inv] i by simp_all
  have "kinv pol (scheduler_return pol c p (upd_proc p (\<lambda>x. x\<lparr>etime := sint (ticks ?u), p_state := ZOMBIE\<rparr>) ?u))"
    by (rule kinv_switch [OF u(1)]) (use c i u(2-4) in simp_all)
  then show "kinv pol (scheduler_return pol c p (exit_body pol p s))" "c_proc (cpus (exit_body pol p s) c) = Some p"
    using c u(2) by (simp_all add: exit_body_def Let_def)
qed

lemma exit_final_Inr:
  assumes "kinv pol s" "c_proc (cpus s c) = Some p" "initproc s \<noteq> Some p" "exit_final pol c p L s = Inr (L', t)"
  shows "t = scheduler_return pol c p (exit_body pol p s)"
  using assms(4) kinv_exit_final(2) [OF assms(1-3)]
  by (auto simp: exit_final_body and_then_Inr_iff dest!: sched_Inr)

lemma exit_final_only:
  assumes "kinv pol s" "c_proc (cpus s c) = Some p" "initproc s \<noteq> Some p" "ncli L c = 0" "\<not> lk_locked (lk L Ptable_lock)"
  shows "\<exists>L'. exit_final pol c p L s = Inr (L', scheduler_return pol c p (exit_body pol p s)) \<and> only_lock c Ptable_lock L'"
proof -
  obtain K where "acquire c Ptable_lock L = Inr K" "only_lock c Ptable_lock K" using acquire_only assms(4,5) by blast
  moreover have "p_state (ptable (exit_body pol p s) p) \<noteq> RUNNING" by (simp add: exit_body_def Let_def)
  ultimately show ?thesis using kinv_exit_final(2) [OF assms(1-3)] by (simp add: exit_final_body sched_only)
qed

lemma close_files_frame:
  assumes "foldk (close_fd ops p) fds s = Inr t"
  shows "slot_only p s t \<and> same_view (ptable t p) (ptable s p) \<and> p_cwd (ptable t p) = p_cwd (ptable s p)"
  using assms
proof (rule foldk_invariant)
  fix fd u v
  assume "slot_only p s u \<and> same_view (ptable u p) (ptable s p) \<and> p_cwd (ptable u p) = p_cwd (ptable s p)"
    "close_fd ops p fd u = Inr v"
  then show "slot_only p s v \<and> same_view (ptable v p) (ptable s p) \<and> p_cwd (ptable v p) = p_cwd (ptable s p)"
    by (auto simp: close_fd_def and_then_Inr_iff upd_env_Inr same_view_def split: option.splits)
qed (simp add: same_view_def)

lemma exit_files_frame:
  assumes "exit_files ops p s = Inr t"
  shows "slot_only p s t" "same_view (ptable t p) (ptable s p)"
proof -
  obtain u ip v where u: "foldk (close_fd ops p) [0..<NOFILE] s = Inr u" "upd_env (op_iput ops ip) u = Inr v"
    "t = upd_proc p (\<lambda>x. x\<lparr>p_cwd := None\<rparr>) v"
    using assms by (auto simp: exit_files_def and_then_Inr_iff split: option.splits)
  then show "slot_only p s t" "same_view (ptable t p) (ptable s p)"
    using close_files_frame [OF u(1)] by (auto simp: upd_env_Inr same_view_def)
qed

lemma kinv_exit_files: "kinv pol s \<Longrightarrow> exit_files ops p s = Inr t \<Longrightarrow> kinv pol t"
  using kinv_slot_view exit_files_frame by blast

text \<open>The clock, priorities and growth of the current process.\<close>

lemma kinv_tick: "kinv pol s \<Longrightarrow> kinv pol (change_ticks pol (s\<lparr>ticks := ticks s + 1\<rparr>))"
proof -
  assume inv: "kinv pol s"
  have "kinv pol (s\<lparr>ticks := ticks s + 1\<rparr>)" by (rule kinv_view [OF inv]) (simp_all add: same_view_def)
  then show ?thesis
    unfolding change_ticks_def
  proof (rule fold_keeps)
    fix a and u :: "'a kst"
    assume "kinv pol u"
    then show "kinv pol (tick_slot pol a u)"
      by (auto simp: tick_slot_def same_view_def intro!: kinv_upd_view)
  qed
qed

lemma kinv_set_priority: "kinv pol s \<Longrightarrow> kinv pol (snd (set_priority n pid s))"
  by (auto simp: set_priority_def same_view_def kinv_cprintf intro!: kinv_upd_view split: option.splits)

lemma kinv_switchuvm:
  assumes "kinv pol s" "switchuvm c p s = Inr t"
  shows "kinv pol t"
  by (rule kinv_view [OF assms(1)]) (use assms(2) in \<open>auto simp: switchuvm_def same_view_def split: if_splits\<close>)

lemma kinv_growproc:
  assumes inv: "kinv pol s" and g: "growproc ops c n s = Inr (r, t)"
  shows "kinv pol t"
proof -
  obtain p where p: "c_proc (cpus s c) = Some p" using g by (auto simp: growproc_def split: option.splits)
  have sz: "kinv pol (upd_proc p (\<lambda>x. x\<lparr>p_sz := sz\<rparr>) u)" if "kinv pol u" for sz u
    by (rule kinv_upd_view [OF that]) (simp add: same_view_def)
  show ?thesis
    using g p inv kinv_env [OF inv]
    by (auto simp: growproc_def and_then_Inr_iff Let_def split: if_splits intro: kinv_switchuvm [OF sz])
qed

end
