(* ===== verification/ProcSteps.thy ===== *)
theory ProcSteps
  imports ProcInv
begin

text \<open>
  The kernel as a transition system. A step is one critical section of \<^verbatim>\<open>ptable.lock\<close>, by
  any CPU, in any order and whatever locks it holds, or an action of the layers below; \<^verbatim>\<open>fork\<close> and \<^verbatim>\<open>exit\<close> are
  cut where they release the lock, so that other CPUs may act in between. What holds in
  every reachable state is \<open>kinv\<close>.
\<close>

section \<open>Steps\<close>

inductive kstep :: "policy \<Rightarrow> 'e kops \<Rightarrow> 'e kst \<Rightarrow> 'e kst \<Rightarrow> bool" for pol ops where
  dispatch: "c < ncpu s \<Longrightarrow> c_proc (cpus s c) = None \<Longrightarrow> scheduler_step pol c s = Inr t \<Longrightarrow> kstep pol ops s t"
| yield: "yield pol c L s = Inr (L', t) \<Longrightarrow> kstep pol ops s t"
| sleep: "sleep_begin pol c ch l0 L s = Inr (L', t) \<Longrightarrow> kstep pol ops s t"
| sleep_end: "c_proc (cpus s c) = Some p \<Longrightarrow> kstep pol ops s (sleep_end p s)"
| wakeup: "kstep pol ops s (wakeup pol ch s)"
| tick: "kstep pol ops s (change_ticks pol (s\<lparr>ticks := ticks s + 1\<rparr>))"
| alloc: "find_slot UNUSED s = Some p \<Longrightarrow> alloc_found p s = Inr t \<Longrightarrow> kstep pol ops s t"
| stack: "pstate s p = EMBRYO \<Longrightarrow> kstep pol ops s (snd (alloc_stack ops p s))"
| copy: "c_proc (cpus s c) = Some cur \<Longrightarrow> np < NPROC \<Longrightarrow> pstate s np = EMBRYO \<Longrightarrow> p_kstack (ptable s np) \<noteq> 0 \<Longrightarrow>
    fork_copy pol ops cur np s = Inr (r, t) \<Longrightarrow> kstep pol ops s t"
| exit_files: "c_proc (cpus s c) = Some p \<Longrightarrow> exit_files ops p s = Inr t \<Longrightarrow> kstep pol ops s t"
| exit_final: "c_proc (cpus s c) = Some p \<Longrightarrow> initproc s \<noteq> Some p \<Longrightarrow> exit_final pol c p L s = Inr (L', t) \<Longrightarrow> kstep pol ops s t"
| wait: "wait pol ops c s = Inr (r, t) \<Longrightarrow> kstep pol ops s t"
| waitx: "waitx pol ops c s = Inr (x, t) \<Longrightarrow> kstep pol ops s t"
| kill: "kstep pol ops s (snd (kill pol pid s))"
| set_priority: "kstep pol ops s (snd (set_priority n pid s))"
| grow: "growproc ops c n s = Inr (r, t) \<Longrightarrow> kstep pol ops s t"
| exec: "pd \<noteq> 0 \<Longrightarrow> exec_commit ops c path pd sz entry sp s = Inr (r, t) \<Longrightarrow> kstep pol ops s t"
| flag: "c_proc (cpus s c) = Some p \<Longrightarrow> kstep pol ops s (upd_proc p (\<lambda>x. x\<lparr>flagq := 1\<rparr>) s)"
| fault: "c_proc (cpus s c) = Some p \<Longrightarrow> kstep pol ops s (upd_proc p (\<lambda>x. x\<lparr>p_killed := True\<rparr>) s)"
| files: "c_proc (cpus s c) = Some p \<Longrightarrow>
    kstep pol ops s (upd_proc p (\<lambda>x. x\<lparr>p_ofile := fs, p_cwd := ip, p_tf_at := a, p_tf := tf\<rparr>) s)"
| lower: "kstep pol ops s (s\<lparr>env := e\<rparr>)"
| print: "kstep pol ops s (cprintf m s)"

inductive reachable :: "policy \<Rightarrow> 'e kops \<Rightarrow> 'e kst \<Rightarrow> bool" for pol ops where
  boot: "userinit pol ops (main_queues (load_kernel n kpd e)) = Inr s \<Longrightarrow> reachable pol ops s"
| step: "reachable pol ops s \<Longrightarrow> kstep pol ops s t \<Longrightarrow> reachable pol ops t"

text \<open>\<^verbatim>\<open>fork\<close> and \<^verbatim>\<open>exit\<close> as the code has them are sequences of these steps.\<close>

lemma two_steps: "kstep pol ops s t \<Longrightarrow> kstep pol ops t u \<Longrightarrow> (kstep pol ops)\<^sup>*\<^sup>* s u"
  by (simp add: converse_rtranclp_into_rtranclp r_into_rtranclp)

lemma fork_unfold:
  assumes "c_proc (cpus s c) = Some cur" "find_slot UNUSED s = Some p"
  shows "fork pol ops c s =
    (if nextpid s \<ge> INT_MAX then Inl ''overflow''
     else if fst (alloc_stack ops p (alloc_init p s)) then fork_copy pol ops cur p (snd (alloc_stack ops p (alloc_init p s)))
     else Inr (-1, snd (alloc_stack ops p (alloc_init p s))))"
  using assms by (cases "alloc_stack ops p (alloc_init p s)") (simp add: fork_def allocproc_def alloc_found_def)

lemma fork_steps:
  assumes inv: "kinv pol s" and f: "fork pol ops c s = Inr (r, t)"
  shows "(kstep pol ops)\<^sup>*\<^sup>* s t"
proof -
  obtain cur where cur: "c_proc (cpus s c) = Some cur" using f by (auto simp: fork_def split: option.splits)
  show ?thesis
  proof (cases "find_slot UNUSED s")
    case None
    then show ?thesis using f cur by (simp add: fork_def allocproc_def)
  next
    case (Some p)
    let ?a = "alloc_init p s"
    have n: "nextpid s < INT_MAX" using f fork_unfold [OF cur Some, of pol ops] by (auto split: if_splits)
    note a = kinv_alloc_init [OF inv Some n]
    have 1: "kstep pol ops s ?a" by (rule alloc [OF Some]) (use n in \<open>simp add: alloc_found_def\<close>)
    have 2: "kstep pol ops ?a (snd (alloc_stack ops p ?a))" by (rule stack [OF a(2)])
    show ?thesis
    proof (cases "fst (alloc_stack ops p ?a)")
      case False
      then have "t = snd (alloc_stack ops p ?a)"
        using f n fork_unfold [OF cur Some] by simp
      then show ?thesis using two_steps [OF 1 2] by simp
    next
      case True
      let ?b = "snd (alloc_stack ops p ?a)"
      have b: "pstate ?b p = EMBRYO" "p_kstack (ptable ?b p) \<noteq> 0" using kinv_alloc_stack(2) [OF a(1,2) True] by simp_all
      have "cpus ?b = cpus s" by (simp add: alloc_stack_def alloc_init_def Let_def split: prod.splits)
      moreover have "fork_copy pol ops cur p ?b = Inr (r, t)"
        using f n fork_unfold [OF cur Some] True by simp
      ultimately have "kstep pol ops ?b t" using copy [of ?b c cur p] cur a(3) b by simp
      from two_steps [OF 2 this] 1 show ?thesis by (simp add: converse_rtranclp_into_rtranclp)
    qed
  qed
qed

lemma exit_steps:
  assumes e: "exit pol ops c L s = Inr t"
  shows "(kstep pol ops)\<^sup>*\<^sup>* s t"
proof -
  obtain p u L' where p: "c_proc (cpus s c) = Some p" "initproc s \<noteq> Some p" "exit_files ops p s = Inr u"
    "exit_final pol c p L u = Inr (L', t)"
    using e by (auto simp: exit_def and_then_Inr_iff split: option.splits if_splits)
  have "c_proc (cpus u c) = Some p" "initproc u \<noteq> Some p"
    using exit_files_frame(1) [OF p(3)] p(1,2) by (simp_all add: slot_only_def)
  then have "kstep pol ops u t" using exit_final p(4) by blast
  from two_steps [OF exit_files [OF p(1,3)] this] show ?thesis .
qed

section \<open>The invariant holds\<close>

lemma kinv_exec_commit:
  assumes inv: "kinv pol s" and pd: "pd \<noteq> 0" and e: "exec_commit ops c path pd sz entry sp s = Inr (r, t)"
  shows "kinv pol t"
proof -
  define f where "f = (\<lambda>x. x\<lparr>p_name := copy_name (last_component path path), p_pgdir := pd, p_sz := sz,
                    p_tf := (p_tf x)\<lparr>tf_eip := entry, tf_esp := sp\<rparr>\<rparr> :: proc)"
  have f: "p_state (f x) = p_state x" "p_pid (f x) = p_pid x" "p_parent (f x) = p_parent x" "qn (f x) = qn x"
    "p_kstack (f x) = p_kstack x" "p_pgdir (f x) = pd" for x by (simp_all add: f_def)
  obtain p where p: "c_proc (cpus s c) = Some p" using e by (auto simp: exec_commit_def split: option.splits)
  note r = running_slot [OF inv p]
  have i: "kinv pol (upd_proc p f s)"
    by (rule kinv_upd [OF inv _ _ _ _ _ _ _ _ _ _ r(4)])
      (use r(3) pd res_slot [OF inv r(2)] qn_range [OF kinvD(5) [OF inv] r(2)] in \<open>simp_all add: f\<close>)
  from e p obtain u where u: "switchuvm c p (upd_proc p f s) = Inr u" "\<exists>e'. t = u\<lparr>env := e'\<rparr>"
    by (auto simp: exec_commit_def f_def and_then_Inr_iff upd_env_Inr Let_def)
  have "kinv pol u" by (rule kinv_switchuvm [OF i u(1)])
  then show ?thesis using u(2) kinv_env by auto
qed

lemma kstep_kinv:
  assumes "kstep pol ops s t" "kinv pol s"
  shows "kinv pol t"
  using assms
proof (cases rule: kstep.cases)
  case (dispatch c)
  then show ?thesis using kinv_scheduler_step [OF assms(2) dispatch(1,2)] by auto
next
  case (yield c L L')
  then show ?thesis using kinv_yield [OF assms(2)] by blast
next
  case (sleep c ch l0 L L')
  then show ?thesis using kinv_sleep_begin [OF assms(2)] by blast
next
  case (sleep_end c p)
  then show ?thesis using kinv_upd_view [OF assms(2)] by (simp add: sleep_end_def same_view_def)
next
  case (copy c cur np r)
  note r = running_slot [OF assms(2) copy(1)]
  show ?thesis using kinv_fork_copy [OF assms(2) copy(5) copy(2-4) r(2)] r(3) by simp
next
  case (exit_final c p L L')
  then show ?thesis using kinv_exit_final(1) [OF assms(2) exit_final(1,2)] exit_final_Inr [OF assms(2) exit_final] by simp
next
  case (stack p)
  then show ?thesis using kinv_alloc_stack(1) [OF assms(2)] by simp
next
  case (wakeup ch)
  then show ?thesis using kinv_wakeup1 [OF assms(2)] by (simp add: wakeup_def)
next
  case tick
  then show ?thesis using kinv_tick [OF assms(2)] by simp
next
  case (alloc p)
  then show ?thesis using kinv_alloc_init(1) [OF assms(2)] by (auto simp: alloc_found_def split: if_splits)
next
  case (exit_files c p)
  then show ?thesis using kinv_exit_files [OF assms(2)] by blast
next
  case (wait c r)
  then show ?thesis using kinv_wait [OF assms(2)] by blast
next
  case (waitx c x)
  then show ?thesis using kinv_waitx [OF assms(2)] by blast
next
  case (kill pid)
  then show ?thesis using kinv_kill [OF assms(2)] by simp
next
  case (set_priority n pid)
  then show ?thesis using kinv_set_priority [OF assms(2)] by simp
next
  case (grow c n r)
  then show ?thesis using kinv_growproc [OF assms(2)] by blast
next
  case (exec pd c path sz entry sp r)
  then show ?thesis using kinv_exec_commit [OF assms(2)] by blast
next
  case (flag c p)
  then show ?thesis using kinv_upd_view [OF assms(2)] by (simp add: same_view_def)
next
  case (fault c p)
  then show ?thesis using kinv_upd_view [OF assms(2)] by (simp add: same_view_def)
next
  case (files c p fs ip a tf)
  then show ?thesis using kinv_upd_view [OF assms(2)] by (simp add: same_view_def)
next
  case (lower e)
  then show ?thesis using kinv_env [OF assms(2)] by simp
next
  case (print m)
  then show ?thesis using kinv_cprintf [OF assms(2)] by simp
qed

section \<open>The first process\<close>

lemma kinv_first:
  assumes z: "\<And>q. q \<noteq> 0 \<Longrightarrow> ptable u q = zero_proc"
    and x: "runnable u 0" "p_pid (ptable u 0) = 1" "p_kstack (ptable u 0) \<noteq> 0" "p_pgdir (ptable u 0) \<noteq> 0"
      "p_parent (ptable u 0) = None" "qn (ptable u 0) = 0"
    and g: "\<And>c. c_proc (cpus u c) = None" "nextpid u = 2" "initproc u = Some 0" "mlfq_ok u" "\<And>p. \<not> queued u p"
  shows "kinv pol u"
proof -
  have zs: "pstate u q = UNUSED" "p_pid (ptable u q) = 0" "p_parent (ptable u q) = None" "qn (ptable u q) = 0"
    if "q \<noteq> 0" for q using z [OF that] by (simp_all add: zero_proc_def)
  have st: "pstate u q = (if q = 0 then RUNNABLE else UNUSED)" "p_pid (ptable u q) = (if q = 0 then 1 else 0)"
    "p_parent (ptable u q) = None" "qn (ptable u q) = 0" for q using zs [of q] x by (cases "q = 0"; simp)+
  have e: "qlist u i = []" if "i < NQUEUE" for i
    using g(5) that unfolding queued_qlist [OF g(4)] by (metis last_in_set)
  show ?thesis
    unfolding kinv_def cpu_inv_def pid_inv_def tree_inv_def res_inv_def queue_inv_def mlfq_inv_def st g(1-3)
    using x(3,4) g(4,5) e by (auto simp: NPROC_def INT_MAX_def)
qed

lemma userinit_kinv:
  assumes b: "userinit pol ops (main_queues (load_kernel n kpd e)) = Inr s"
  shows "kinv pol s" "ncpu s = n" "initproc s = Some 0"
proof -
  let ?m = "main_queues (load_kernel n kpd e)"
  have f: "find_slot UNUSED ?m = Some 0"
    by (simp add: find_slot_def find_upt_Some_iff main_queues_fields load_kernel_def zero_proc_def NPROC_def)
  define a where "a = alloc_init 0 ?m"
  have al: "alloc_found 0 ?m = Inr a"
    by (simp add: alloc_found_def a_def main_queues_fields load_kernel_def INT_MAX_def)
  obtain k e1 where k: "op_kalloc ops (env a) = (k, e1)" by fastforce
  obtain ok v where v: "alloc_stack ops 0 a = (ok, v)" by fastforce
  have ok: "ok" using b f v by (auto simp: userinit_def allocproc_def al split: if_splits)
  have v0: "slot_only 0 a v" "pstate v 0 = EMBRYO" "p_pid (ptable v 0) = 1" "p_parent (ptable v 0) = None"
    "qn (ptable v 0) = 0" "p_kstack (ptable v 0) \<noteq> 0"
    using v ok k by (auto simp: alloc_stack_def Let_def a_def alloc_init_def main_queues_fields load_kernel_def
        zero_proc_def split: if_splits)
  obtain pd e2 where pd: "op_setupkvm ops (env v) = Inr (pd, e2)"
    using b f v ok by (auto simp: userinit_def allocproc_def al and_then_Inr_iff)
  let ?w = "upd_proc 0 (\<lambda>x. x\<lparr>p_pgdir := pd\<rparr>) ((v\<lparr>initproc := Some 0\<rparr>)\<lparr>env := e2\<rparr>)"
  have pd0: "pd \<noteq> 0" using b f v ok pd by (auto simp: userinit_def allocproc_def al split: if_splits)
  from b f v ok pd pd0 obtain x where x: "upd_env (op_inituvm ops pd) ?w = Inr x"
    by (auto simp: userinit_def allocproc_def al and_then_Inr_iff Let_def)
  obtain root e3 where root: "op_root ops (env x) = (root, e3)" by fastforce
  let ?u = "upd_proc 0 (\<lambda>y. y\<lparr>p_sz := PGSIZE, p_tf := user_trapframe, p_name := copy_name ''initcode'', p_cwd := root\<rparr>) (x\<lparr>env := e3\<rparr>)"
  have s: "s = publish pol 0 ?u"
    using b f v ok pd pd0 x root by (auto simp: userinit_def allocproc_def al and_then_Inr_iff Let_def)
  let ?y = "upd_proc 0 (\<lambda>y. y\<lparr>p_state := RUNNABLE\<rparr>) ?u"
  have fr: "cpus ?y = cpus ?m" "ncpu ?y = n" "initproc ?y = Some 0" "nextpid ?y = 2"
    "qface ?y = qface ?m" "qback ?y = qback ?m" "queue ?y = queue ?m"
    using x v0(1) by (auto simp: upd_env_Inr slot_only_def a_def alloc_init_def main_queues_fields load_kernel_def)
  note q = queue_view [OF fr(5-7)]
  have nq: "\<not> queued ?y p" for p
    unfolding q by (simp add: not_queued_iff main_queues_ok main_queues_empty)
  have y: "kinv pol ?y"
  proof (rule kinv_first)
    show "ptable ?y r = zero_proc" if "r \<noteq> 0" for r
      using x v0(1) that by (auto simp: upd_env_Inr slot_only_def a_def alloc_init_def main_queues_fields load_kernel_def)
    show "c_proc (cpus ?y c) = None" for c unfolding fr by (simp add: main_queues_fields load_kernel_def)
    show "mlfq_ok ?y" unfolding q by (rule main_queues_ok)
  qed (use x v0 pd0 fr nq in \<open>auto simp: upd_env_Inr\<close>)
  have q0: "qn (ptable ?y 0) = 0" using x v0 by (auto simp: upd_env_Inr)
  have "pol = MLFQ \<Longrightarrow> kinv MLFQ (push 0 0 ?y)"
    using kinv_push [of ?y 0] y nq q0 by (simp add: NPROC_def)
  then show "kinv pol s" using y s by (simp add: publish_def Let_def)
  show "ncpu s = n" "initproc s = Some 0" using s fr by (simp_all add: publish_def Let_def)
qed

lemma reachable_kinv: "reachable pol ops s \<Longrightarrow> kinv pol s"
  by (induction rule: reachable.induct) (blast intro: userinit_kinv kstep_kinv)+

section \<open>What holds in every reachable state\<close>

text \<open>A small configuration of the layers below, for the examples.\<close>

definition demo_ops :: "'e kops" where
  "demo_ops = \<lparr>op_kalloc = (\<lambda>e. (0x80400000, e)), op_kfree = (\<lambda>_ e. Inr e), op_poke = (\<lambda>_ _ e. e),
     op_setupkvm = (\<lambda>e. Inr (0x80500000, e)), op_inituvm = (\<lambda>_ e. Inr e), op_copyuvm = (\<lambda>_ _ e. Inr (0x80600000, e)),
     op_allocuvm = (\<lambda>_ _ n e. Inr (n, e)), op_deallocuvm = (\<lambda>_ _ n e. Inr (n, e)), op_freevm = (\<lambda>_ e. Inr e),
     op_filedup = (\<lambda>_ e. Inr e), op_fileclose = (\<lambda>_ e. Inr e), op_idup = (\<lambda>_ e. Inr e), op_iput = (\<lambda>_ e. Inr e),
     op_root = (\<lambda>e. (Some 0, e)), op_iinit = Inr, op_initlog = Inr, op_callerpcs = (\<lambda>_ _. []), addr_forkret = 0x80103000, addr_trapret = 0x80105000\<rparr>"

text \<open>The state \<^verbatim>\<open>main()\<close> leaves with one CPU, and that CPU running the first process.\<close>

definition demo0 :: "policy \<Rightarrow> 'e \<Rightarrow> 'e kst" where
  "demo0 pol e = projr (userinit pol demo_ops (main_queues (load_kernel 1 0 e)))"

definition demo1 :: "policy \<Rightarrow> 'e \<Rightarrow> 'e kst" where
  "demo1 pol e = projr (scheduler_step pol 0 (demo0 pol e))"

lemma boot_slot: "find_slot UNUSED (main_queues (load_kernel n kpd e)) = Some 0"
  by (simp add: find_slot_def find_upt_Some_iff main_queues_fields load_kernel_def zero_proc_def NPROC_def)

lemmas demo_simps = demo0_def userinit_def allocproc_def alloc_stack_def demo_ops_def upd_env_def publish_def
  alloc_found_def alloc_init_def INT_MAX_def Let_def main_queues_fields load_kernel_def zero_proc_def

lemma demo0_boot: "userinit pol demo_ops (main_queues (load_kernel 1 0 e)) = Inr (demo0 pol e)"
proof -
  have "\<exists>s. userinit pol demo_ops (main_queues (load_kernel 1 0 e)) = Inr s"
    using boot_slot [of 1 0 e] 
    by (simp add: userinit_def allocproc_def alloc_found_def main_queues_fields load_kernel_def INT_MAX_def alloc_stack_def demo_ops_def upd_env_def)
  then show ?thesis by (auto simp: demo0_def)
qed

lemma demo0_reachable: "reachable pol demo_ops (demo0 pol e)"
  by (rule boot [OF demo0_boot])

lemma demo0_facts: "kinv pol (demo0 pol e)" "ncpu (demo0 pol e) = 1" "c_proc (cpus (demo0 pol e) c) = None"
  "c_scan (cpus (demo0 pol e) c) = 0"
proof -
  show "kinv pol (demo0 pol e)" "ncpu (demo0 pol e) = 1" using userinit_kinv(1,2) [OF demo0_boot [of pol e]] by simp_all
  show "c_proc (cpus (demo0 pol e) c) = None" "c_scan (cpus (demo0 pol e) c) = 0"
    using boot_slot [of 1 0 e] by (simp_all add: demo_simps)
qed

lemma demo0_slots: "q \<noteq> 0 \<Longrightarrow> ptable (demo0 ROUND_ROBIN e) q = zero_proc"
  "pstate (demo0 ROUND_ROBIN e) 0 = RUNNABLE" "p_pid (ptable (demo0 ROUND_ROBIN e) 0) = 1"
  "p_cwd (ptable (demo0 ROUND_ROBIN e) 0) = Some 0" "p_ofile (ptable (demo0 ROUND_ROBIN e) 0) = (\<lambda>_. None)"
  "p_parent (ptable (demo0 ROUND_ROBIN e) 0) = None" "\<not> p_killed (ptable (demo0 ROUND_ROBIN e) 0)"
  "nextpid (demo0 ROUND_ROBIN e) = 2"
  using boot_slot [of 1 0 e] by (simp_all add: demo_simps)

lemma demo1_step: "scheduler_step pol 0 (demo0 pol e) = Inr (demo1 pol e)"
  using kinv_scheduler_step [of pol "demo0 pol e" 0] demo0_facts [of pol e] by (auto simp: demo1_def)

lemma demo1_reachable: "reachable pol demo_ops (demo1 pol e)"
  by (rule reachable.step [OF demo0_reachable dispatch [OF _ _ demo1_step]]) (simp_all add: demo0_facts)

lemma demo1_facts:
  "c_proc (cpus (demo1 ROUND_ROBIN e) 0) = Some 0" "q \<noteq> 0 \<Longrightarrow> ptable (demo1 ROUND_ROBIN e) q = zero_proc"
  "p_cwd (ptable (demo1 ROUND_ROBIN e) 0) = Some 0" "p_ofile (ptable (demo1 ROUND_ROBIN e) 0) = (\<lambda>_. None)"
  "initproc (demo1 ROUND_ROBIN e) = Some 0" "c_scan (cpus (demo1 ROUND_ROBIN e) 0) = 0"
  "p_parent (ptable (demo1 ROUND_ROBIN e) 0) = None" "\<not> p_killed (ptable (demo1 ROUND_ROBIN e) 0)"
  "nextpid (demo1 ROUND_ROBIN e) = 2"
proof -
  have st: "rr_step 0 (demo0 ROUND_ROBIN e) = Inr (demo1 ROUND_ROBIN e)"
    using demo1_step [of ROUND_ROBIN e] by (simp add: scheduler_step_def)
  have un: "\<not> runnable (demo0 ROUND_ROBIN e) p" if "p \<noteq> 0" for p using demo0_slots(1) [OF that, of e] by (simp add: zero_proc_def)
  from st obtain u where u: "run_on 0 0 (demo0 ROUND_ROBIN e) = Inr u" "demo1 ROUND_ROBIN e = set_scan 0 0 (inc_nrun 0 u)"
  proof (cases rule: rr_step_cases)
    case 1
    then show ?thesis using demo0_slots(2) [of e] demo0_facts(4) [of ROUND_ROBIN e 0] by (auto simp: NPROC_def)
  next
    case (2 p u)
    then have "p = 0" using un by blast
    then show ?thesis using 2 that by blast
  qed
  show "c_proc (cpus (demo1 ROUND_ROBIN e) 0) = Some 0" "q \<noteq> 0 \<Longrightarrow> ptable (demo1 ROUND_ROBIN e) q = zero_proc"
    "p_cwd (ptable (demo1 ROUND_ROBIN e) 0) = Some 0" "p_ofile (ptable (demo1 ROUND_ROBIN e) 0) = (\<lambda>_. None)"
    "initproc (demo1 ROUND_ROBIN e) = Some 0" "c_scan (cpus (demo1 ROUND_ROBIN e) 0) = 0"
    "p_parent (ptable (demo1 ROUND_ROBIN e) 0) = None" "\<not> p_killed (ptable (demo1 ROUND_ROBIN e) 0)"
    "nextpid (demo1 ROUND_ROBIN e) = 2"
    using run_on_Inr(3,4,10,11) [OF u(1)] demo0_slots [where e = e] userinit_kinv(3) [OF demo0_boot [of ROUND_ROBIN e]] by (simp_all add: u(2) set_scan_def inc_nrun_def)
qed

lemma reachable_steps: "(kstep pol ops)\<^sup>*\<^sup>* s t \<Longrightarrow> reachable pol ops s \<Longrightarrow> reachable pol ops t"
  by (induction rule: rtranclp_induct) (auto intro: reachable.step)

text \<open>The first process forks.\<close>

lemma demo_fork_from:
  assumes cur: "c_proc (cpus s 0) = Some 0" and f: "find_slot UNUSED s = Some (Suc 0)" and n: "nextpid s < INT_MAX"
    and own: "p_cwd (ptable s 0) = Some 0" "p_ofile (ptable s 0) = (\<lambda>_. None)" "p_ofile (ptable s (Suc 0)) = (\<lambda>_. None)"
  shows "\<exists>t. fork ROUND_ROBIN demo_ops 0 s = Inr (nextpid s, t) \<and> pstate t (Suc 0) = RUNNABLE \<and> p_parent (ptable t (Suc 0)) = Some 0
    \<and> p_cwd (ptable t (Suc 0)) = Some 0 \<and> p_ofile (ptable t (Suc 0)) = (\<lambda>_. None) \<and> initproc t = initproc s \<and> cpus t = cpus s
    \<and> ptable t 0 = ptable s 0"
proof -
  define c where "c = Suc 0"
  obtain b where ab: "alloc_stack demo_ops c (alloc_init c s) = (True, b)"
    and b: "ptable b 0 = ptable s 0" "p_pid (ptable b c) = nextpid s" "initproc b = initproc s" "cpus b = cpus s"
      "p_ofile (ptable b c) = p_ofile (ptable s c)"
    by (simp add: alloc_stack_def demo_ops_def alloc_init_def c_def)
  let ?u = "upd_proc c (\<lambda>x. x\<lparr>p_pgdir := 0x80600000\<rparr>) (b\<lparr>env := env b\<rparr>)"
  let ?v = "upd_proc c (\<lambda>x. x\<lparr>p_sz := p_sz (ptable ?u 0), p_parent := Some 0, p_tf := (p_tf (ptable ?u 0))\<lparr>tf_eax := 0\<rparr>\<rparr>) ?u"
  have c: "0 \<noteq> c" by (simp add: c_def)
  have "foldk (dup_file demo_ops 0 c) [0..<NOFILE] ?v = Inr ?v"
    using c by (intro foldk_id) (simp add: dup_file_def b own)
  then have "\<exists>t. fork_copy ROUND_ROBIN demo_ops 0 c b = Inr (nextpid s, t) \<and> pstate t c = RUNNABLE \<and> p_parent (ptable t c) = Some 0
    \<and> p_cwd (ptable t c) = Some 0 \<and> p_ofile (ptable t c) = (\<lambda>_. None) \<and> initproc t = initproc s \<and> cpus t = cpus s
    \<and> ptable t 0 = ptable s 0"
    using b c own by (simp add: fork_copy_def demo_ops_def upd_env_def publish_def c_def)
  then show ?thesis
    using fork_unfold [OF cur f, of ROUND_ROBIN demo_ops] ab n by (simp add: c_def)
qed

lemma demo1_free: "find_slot UNUSED (demo1 ROUND_ROBIN e) = Some (Suc 0)"
  unfolding find_slot_def find_upt_Some_iff
  using demo1_facts(2) [of 1 e] running_slot(3) [OF reachable_kinv [OF demo1_reachable] demo1_facts(1) [of e]]
  by (auto simp: zero_proc_def NPROC_def)

lemma demo_fork:
  obtains t where "fork ROUND_ROBIN demo_ops 0 (demo1 ROUND_ROBIN e) = Inr (nextpid (demo1 ROUND_ROBIN e), t)"
    "reachable ROUND_ROBIN demo_ops t" "pstate t (Suc 0) = RUNNABLE" "initproc t = Some 0" "p_parent (ptable t (Suc 0)) = Some 0"
    "p_cwd (ptable t (Suc 0)) = Some 0" "p_ofile (ptable t (Suc 0)) = (\<lambda>_. None)" "c_proc (cpus t 0) = Some 0" "c_scan (cpus t 0) = 0"
proof -
  have o: "p_ofile (ptable (demo1 ROUND_ROBIN e) (Suc 0)) = (\<lambda>_. None)" using demo1_facts(2) [of "Suc 0" e] by (simp add: zero_proc_def)
  obtain t where t: "fork ROUND_ROBIN demo_ops 0 (demo1 ROUND_ROBIN e) = Inr (nextpid (demo1 ROUND_ROBIN e), t)"
    "pstate t (Suc 0) = RUNNABLE" "p_parent (ptable t (Suc 0)) = Some 0" "p_cwd (ptable t (Suc 0)) = Some 0"
    "p_ofile (ptable t (Suc 0)) = (\<lambda>_. None)" "initproc t = initproc (demo1 ROUND_ROBIN e)" "cpus t = cpus (demo1 ROUND_ROBIN e)"
    using demo_fork_from [OF demo1_facts(1) demo1_free _ demo1_facts(3,4) o] demo1_facts(9) [of e] by (auto simp: INT_MAX_def)
  note r = reachable_steps [OF fork_steps [OF reachable_kinv [OF demo1_reachable] t(1)] demo1_reachable]
  show thesis by (rule that [OF t(1) r]) (use t demo1_facts [where e = e] in simp_all)
qed

text \<open>The child runs after the first process has given up the CPU.\<close>

lemma demo_child_runs:
  obtains v :: "'e kst" where "reachable ROUND_ROBIN demo_ops v" "c_proc (cpus v 0) = Some (Suc 0)" "initproc v = Some 0"
    "p_parent (ptable v (Suc 0)) = Some 0" "p_cwd (ptable v (Suc 0)) = Some 0" "p_ofile (ptable v (Suc 0)) = (\<lambda>_. None)"
proof -
  obtain t :: "'e kst" where t: "reachable ROUND_ROBIN demo_ops t" "pstate t (Suc 0) = RUNNABLE" "initproc t = Some 0"
    "p_parent (ptable t (Suc 0)) = Some 0" "p_cwd (ptable t (Suc 0)) = Some 0" "p_ofile (ptable t (Suc 0)) = (\<lambda>_. None)"
    "c_proc (cpus t 0) = Some 0" "c_scan (cpus t 0) = 0"
    by (rule demo_fork) blast
  obtain L u where y: "yield ROUND_ROBIN 0 (no_locks False) t = Inr (L, u)" using yield_only [OF _ _ t(7), of "no_locks False" ROUND_ROBIN] by auto
  then have u: "ptable u = (ptable t)(0 := (ptable t 0)\<lparr>p_state := RUNNABLE\<rparr>)" "c_proc (cpus u 0) = None"
    "c_scan (cpus u 0) = 1" "initproc u = Some 0" "ncpu u = ncpu t"
    using t yield_Inr [OF y t(7)] by (simp_all add: scheduler_return_def set_scan_def switchkvm_def Let_def)
  have ru: "reachable ROUND_ROBIN demo_ops u" by (rule reachable.step [OF t(1) kstep.yield [OF y]])
  have "0 < ncpu u" using running_slot(1) [OF reachable_kinv [OF t(1)] t(7)] u(5) by simp
  then obtain v where v: "scheduler_step ROUND_ROBIN 0 u = Inr v" "kstep ROUND_ROBIN demo_ops u v"
    using kinv_scheduler_step [OF reachable_kinv [OF ru] _ u(2)] kstep.dispatch [OF _ u(2)] by blast
  have one: "runnable u (Suc 0)" using t(2) u(1) by simp
  from v(1) obtain w where w: "run_on 0 (Suc 0) u = Inr w" "v = set_scan 0 (Suc 0) (inc_nrun (Suc 0) w)"
    unfolding scheduler_step_def policy.case
  proof (cases rule: rr_step_cases)
    case 1
    then show ?thesis using one u(3) by (simp add: NPROC_def)
  next
    case (2 p w)
    then have "p = Suc 0" using one u(3) by (metis One_nat_def le_less_Suc_eq linorder_not_less not_less_eq order_refl)
    then show ?thesis using 2 that by blast
  qed
  show thesis
    by (rule that [OF reachable.step [OF ru v(2)]])
      (use run_on_Inr(3,4,11) [OF w(1)] t u in \<open>simp_all add: w(2) set_scan_def inc_nrun_def\<close>)
qed

text \<open>C11: in every reachable state, under every scheduling policy and whatever the memory and
  file layers answer, a process is running exactly when one CPU, and only one, runs it.\<close>

theorem running_iff_on_cpu:
  assumes "reachable pol ops s" "p < NPROC"
  shows "p_state (ptable s p) = RUNNING \<longleftrightarrow> (\<exists>!c. c_proc (cpus s c) = Some p)"
  using kinvD(1) [OF reachable_kinv [OF assms(1)]] assms(2) unfolding cpu_inv_def by metis

theorem running_iff_on_cpu_witness:
  "p_state (ptable (demo1 ROUND_ROBIN ()) 0) = RUNNING \<and> (\<exists>!c. c_proc (cpus (demo1 ROUND_ROBIN ()) c) = Some 0)"
  using running_iff_on_cpu [OF demo1_reachable [of ROUND_ROBIN "()"], of 0]
    running_slot(3) [OF reachable_kinv [OF demo1_reachable] demo1_facts(1) [of "()"]] by (simp add: NPROC_def)

text \<open>C14: no two slots of the process table ever hold the same process id, every id in use is
  positive and smaller than the next one to be given out, and that one is an \<^verbatim>\<open>int\<close>. The
  states are those reached before \<^verbatim>\<open>nextpid\<close> would be counted past \<open>INT_MAX\<close>, where
  \<^verbatim>\<open>allocproc\<close> has a signed overflow and no result.\<close>

theorem pids_unique:
  assumes "reachable pol ops s" "p < NPROC" "q < NPROC" "p_pid (ptable s p) = p_pid (ptable s q)" "p_pid (ptable s p) \<noteq> 0"
  shows "p = q \<and> 0 < p_pid (ptable s p) \<and> p_pid (ptable s p) < nextpid s \<and> nextpid s \<le> 2147483647"
proof -
  note i = kinvD(2) [OF reachable_kinv [OF assms(1)], unfolded pid_inv_def]
  have "0 \<le> p_pid (ptable s p)" "p_pid (ptable s p) < nextpid s" "nextpid s \<le> INT_MAX" using i assms(2) by blast+
  moreover have "p = q" using i assms(2-5) by blast
  ultimately show ?thesis using assms(5) by (simp add: INT_MAX_def)
qed

theorem pids_unique_witness: "0 < p_pid (ptable (demo0 ROUND_ROBIN ()) 0) \<and> p_pid (ptable (demo0 ROUND_ROBIN ()) 0) < nextpid (demo0 ROUND_ROBIN ())"
  using pids_unique [OF demo0_reachable [of ROUND_ROBIN "()"], of 0 0] by (simp add: demo0_slots NPROC_def)

text \<open>C13: every process but the first that has been created and not yet reaped has a parent
  that has neither exited nor been reaped: no zombie is ever left without a process that
  can wait for it.\<close>

theorem zombies_have_parents:
  assumes "reachable pol ops s" "p < NPROC" "p_state (ptable s p) \<notin> {UNUSED, EMBRYO}" "initproc s \<noteq> Some p"
  shows "\<exists>q<NPROC. p_parent (ptable s p) = Some q \<and> p_state (ptable s q) \<in> {SLEEPING, RUNNABLE, RUNNING}"
proof -
  have b: "born (p_state (ptable s p))" using assms(3) by (simp add: born_def)
  note t = kinvD(3) [OF reachable_kinv [OF assms(1)], unfolded tree_inv_def]
  from t b assms(2,4) obtain q where "p_parent (ptable s p) = Some q" by auto
  with t assms(2) show ?thesis unfolding alive_def by blast
qed

theorem zombies_have_parents_witness:
  "\<exists>t :: unit kst. reachable ROUND_ROBIN demo_ops t \<and> (\<exists>q<NPROC. p_parent (ptable t 1) = Some q)"
proof -
  obtain t :: "unit kst" where t: "reachable ROUND_ROBIN demo_ops t" "pstate t (Suc 0) = RUNNABLE" "initproc t = Some 0"
    by (rule demo_fork) blast
  have "\<exists>q<NPROC. p_parent (ptable t 1) = Some q \<and> p_state (ptable t q) \<in> {SLEEPING, RUNNABLE, RUNNING}"
    by (rule zombies_have_parents [OF t(1)]) (use t in \<open>simp_all add: NPROC_def\<close>)
  with t(1) show ?thesis by blast
qed

text \<open>C12: every process in a feedback queue is runnable, is in the queue its level names, and
  is in no other place of any queue.\<close>

theorem queued_runnable:
  assumes "reachable MLFQ ops s" "i < NQUEUE" "p \<in> set (qlist s i)"
  shows "p_state (ptable s p) = RUNNABLE \<and> qn (ptable s p) = int i \<and> distinct (qlist s i)
    \<and> (\<forall>j<NQUEUE. j \<noteq> i \<longrightarrow> p \<notin> set (qlist s j))"
proof -
  have inv: "mlfq_inv s" using kinvD(5) [OF reachable_kinv [OF assms(1)]] by (simp add: queue_inv_def)
  then have ok: "mlfq_ok s" by (simp add: mlfq_inv_def)
  show ?thesis
    using inv assms(2,3) mlfq.items_distinct [OF ok assms(2)] mlfq.items_disjoint [OF ok assms(2) _ assms(3)]
    unfolding mlfq_inv_def by blast
qed

theorem queued_runnable_witness: "p_state (ptable (demo0 MLFQ ()) 0) = RUNNABLE \<and> qn (ptable (demo0 MLFQ ()) 0) = 0"
proof -
  let ?m = "main_queues (load_kernel 1 0 ())"
  obtain u :: "unit kst" where u: "demo0 MLFQ () = push 0 0 u" "qface u = qface ?m" "qback u = qback ?m" "queue u = queue ?m"
    using boot_slot [of 1 0 "()"] by (simp add: demo0_def userinit_def allocproc_def alloc_stack_def demo_ops_def upd_env_def
        publish_def alloc_found_def alloc_init_def INT_MAX_def main_queues_fields load_kernel_def Let_def)
  note q = queue_view [OF u(2-4)]
  have "qlist (demo0 MLFQ ()) 0 = [0]"
    unfolding u(1) by (rule push_to_empty(2)) (simp_all add: q main_queues_ok main_queues_empty not_queued_iff NQUEUE_def NPROC_def)
  then show ?thesis using queued_runnable [OF demo0_reachable [of _ "()"], of 0 0] by (simp add: NQUEUE_def)
qed

text \<open>C15: in a reachable state the scheduler of an idle CPU never faults, and a running process
  that holds no spin lock can give up the CPU without any panic: by \<^verbatim>\<open>yield\<close>, by taking any
  one lock and sleeping with it, and, unless it is the first process, by the critical section of
  \<^verbatim>\<open>exit\<close>. None of the four checks of \<^verbatim>\<open>sched\<close> fails on the way, nor those of
  \<^verbatim>\<open>sleep\<close>, \<^verbatim>\<open>acquire\<close> and \<^verbatim>\<open>release\<close>, and the scheduler is entered with
  \<^verbatim>\<open>ptable.lock\<close> as the only lock of the CPU and with interrupts off.\<close>

theorem switches_never_panic:
  assumes "reachable pol ops s" "c < ncpu s" "ncli L c = 0" "\<not> lk_locked (lk L Ptable_lock)" "\<not> lk_locked (lk L l)"
  shows "case c_proc (cpus s c) of
      None \<Rightarrow> \<exists>t. scheduler_step pol c s = Inr t
    | Some p \<Rightarrow>
        (\<exists>L' t. yield pol c L s = Inr (L', t) \<and> only_lock c Ptable_lock L')
      \<and> (\<exists>K L' t. acquire c l L = Inr K \<and> sleep_begin pol c ch (Some l) K s = Inr (L', t) \<and> only_lock c Ptable_lock L')
      \<and> (initproc s = Some p \<or> (\<exists>L' t. exit_final pol c p L s = Inr (L', t) \<and> only_lock c Ptable_lock L'))"
proof (cases "c_proc (cpus s c)")
  case None
  then show ?thesis using kinv_scheduler_step [OF reachable_kinv [OF assms(1)] assms(2)] by auto
next
  case (Some p)
  have K: "acquire c l L = Inr ((pushcli c L)\<lparr>lk := (lk L)(l := \<lparr>lk_locked = True, lk_cpu = Some c\<rparr>)\<rparr>)" (is "_ = Inr ?K")
    using acquire_free assms(3,5) by simp
  have "only_lock c l ?K" "l = Ptable_lock \<or> \<not> lk_locked (lk ?K Ptable_lock)" using assms(3,4) by (simp_all add: only_lock_def)
  from sleep_begin_only [OF this Some] K
  have "\<exists>K L' t. acquire c l L = Inr K \<and> sleep_begin pol c ch (Some l) K s = Inr (L', t) \<and> only_lock c Ptable_lock L'" by blast
  then show ?thesis
    using Some yield_only [OF assms(3,4) Some, of pol] exit_final_only [OF reachable_kinv [OF assms(1)] Some _ assms(3,4)] by auto
qed

theorem switches_never_panic_witness:
  "\<exists>L t. yield ROUND_ROBIN 0 (no_locks False) (demo1 ROUND_ROBIN ()) = Inr (L, t) \<and> only_lock 0 Ptable_lock L"
proof -
  have "0 < ncpu (demo1 ROUND_ROBIN ())" using running_slot(1) [OF reachable_kinv [OF demo1_reachable] demo1_facts(1)] .
  from switches_never_panic [OF demo1_reachable this, of "no_locks False" Tickslock ChanTicks]
  show ?thesis by (simp add: demo1_facts(1))
qed

end
