(* ===== verification/ProcSpec.thy ===== *)
theory ProcSpec
  imports ProcSteps
begin

text \<open>
  What the process operations do: the child that \<^verbatim>\<open>fork\<close> makes, the answers of
  \<^verbatim>\<open>wait\<close>, what \<^verbatim>\<open>exit\<close> leaves behind and whom \<^verbatim>\<open>wakeup\<close> wakes.
\<close>

lemmas demo1_unit = demo1_facts [where e = "()"]

section \<open>Wakeup\<close>

text \<open>A \<^verbatim>\<open>push\<close> of any process changes at most two of its counters.\<close>

lemma push_ptable:
  "ptable (push a p s) q = ptable s q \<or> q = p \<and> ptable (push a p s) q = (ptable s q)\<lparr>curtime := 0, waittime := 0\<rparr>"
  by (auto simp: push_def)

lemma push_pstate [simp]: "p_state (ptable (push a p s) q) = p_state (ptable s q)"
  "p_chan (ptable (push a p s) q) = p_chan (ptable s q)" "p_killed (ptable (push a p s) q) = p_killed (ptable s q)"
  using push_ptable [of a p s q] by auto

lemma wakeup_slot_state:
  "pstate (wakeup_slot pol ch p s) q =
     (if q = p \<and> pstate s p = SLEEPING \<and> p_chan (ptable s p) = ch then RUNNABLE else pstate s q)"
  "p_chan (ptable (wakeup_slot pol ch p s) q) = p_chan (ptable s q)"
  by (auto simp: wakeup_slot_def Let_def)

lemma wakeup1_state:
  "pstate (wakeup1 pol ch s) q =
     (if q < NPROC \<and> pstate s q = SLEEPING \<and> p_chan (ptable s q) = ch then RUNNABLE else pstate s q)"
proof -
  have "pstate (fold (wakeup_slot pol ch) [0..<n] s) q =
      (if q < n \<and> pstate s q = SLEEPING \<and> p_chan (ptable s q) = ch then RUNNABLE else pstate s q)
    \<and> p_chan (ptable (fold (wakeup_slot pol ch) [0..<n] s) q) = p_chan (ptable s q)" for n
    by (induction n) (auto simp: wakeup_slot_state less_Suc_eq)
  then show ?thesis by (simp add: wakeup1_def)
qed

section \<open>Fork\<close>

lemma fork_slot:
  assumes inv: "kinv pol s" and cur: "c_proc (cpus s c) = Some cur" and np: "find_slot UNUSED s = Some np"
    and f: "fork pol ops c s = Inr (r, t)" and ok: "r \<noteq> -1"
  shows "r = nextpid s" "nextpid t = nextpid s + 1" "q \<noteq> np \<Longrightarrow> ptable t q = ptable s q"
    "pstate t np = RUNNABLE" "p_pid (ptable t np) = r" "p_parent (ptable t np) = Some cur"
    "tf_eax (p_tf (ptable t np)) = 0" "p_sz (ptable t np) = p_sz (ptable s cur)"
    "p_killed (ptable t np) = p_killed (ptable s np)"
proof -
  let ?b = "snd (alloc_stack ops np (alloc_init np s))"
  have st: "np < NPROC" "pstate s np = UNUSED" using np by (auto simp: find_slot_def find_upt_Some_iff)
  have ne: "cur \<noteq> np" using running_slot(3) [OF inv cur] st by auto
  have fc: "fork_copy pol ops cur np ?b = Inr (r, t)"
    using f ok fork_unfold [OF cur np, of pol ops] by (auto split: if_splits)
  have b: "nextpid ?b = nextpid s + 1" "q \<noteq> np \<Longrightarrow> ptable ?b q = ptable s q" "p_pid (ptable ?b np) = nextpid s"
    "p_killed (ptable ?b np) = p_killed (ptable s np)" for q
    by (simp_all add: alloc_stack_def alloc_init_def Let_def split: prod.splits)
  from fc ne obtain u where u: "t = publish pol np u" "r = p_pid (ptable ?b np)" "slot_only np ?b u"
    "p_pid (ptable u np) = p_pid (ptable ?b np)" "p_parent (ptable u np) = Some cur"
    "tf_eax (p_tf (ptable u np)) = 0" "p_sz (ptable u np) = p_sz (ptable ?b cur)" "p_killed (ptable u np) = p_killed (ptable ?b np)"
    by (rule fork_copy_cases) (use ok in auto)
  have t: "ptable t q = ptable u q" if "q \<noteq> np" for q
    using push_ptable [of 0 np "upd_proc np (\<lambda>x. x\<lparr>p_state := RUNNABLE\<rparr>) u" q] that u(1) by (auto simp: publish_def Let_def)
  have tn: "p_pid (ptable t np) = p_pid (ptable u np) \<and> p_parent (ptable t np) = p_parent (ptable u np) \<and> pstate t np = RUNNABLE
      \<and> p_tf (ptable t np) = p_tf (ptable u np) \<and> p_sz (ptable t np) = p_sz (ptable u np) \<and> p_killed (ptable t np) = p_killed (ptable u np)"
    using push_ptable [of 0 np "upd_proc np (\<lambda>x. x\<lparr>p_state := RUNNABLE\<rparr>) u" np] u(1) by (auto simp: publish_def Let_def)
  show "r = nextpid s" "pstate t np = RUNNABLE" "p_pid (ptable t np) = r" "p_parent (ptable t np) = Some cur"
    "tf_eax (p_tf (ptable t np)) = 0" "p_sz (ptable t np) = p_sz (ptable s cur)" "p_killed (ptable t np) = p_killed (ptable s np)"
    using u(2-) b ne tn by simp_all
  show "nextpid t = nextpid s + 1" using u(1,3) b by (simp add: publish_def Let_def slot_only_def)
  show "q \<noteq> np \<Longrightarrow> ptable t q = ptable s q" using t u(3) b by (simp add: slot_only_def)
qed

text \<open>C17: a \<^verbatim>\<open>fork\<close> that does not return -1 fills one free slot of the table and changes no
  other: the child is runnable, has the next process id, which is the value of
  \<^verbatim>\<open>fork\<close> in the parent, is a child of the caller of the same size, and will see the
  value 0.\<close>

theorem fork_makes_child:
  assumes "reachable pol ops s" "c_proc (cpus s c) = Some cur" "fork pol ops c s = Inr (r, t)" "r \<noteq> -1"
  shows "r = nextpid s \<and> nextpid t = nextpid s + 1 \<and> (\<exists>np<NPROC. p_state (ptable s np) = UNUSED
    \<and> p_state (ptable t np) = RUNNABLE \<and> p_pid (ptable t np) = r \<and> p_parent (ptable t np) = Some cur
    \<and> tf_eax (p_tf (ptable t np)) = 0 \<and> p_sz (ptable t np) = p_sz (ptable s cur)
    \<and> (\<forall>q. q \<noteq> np \<longrightarrow> ptable t q = ptable s q))"
proof -
  obtain np where np: "find_slot UNUSED s = Some np"
    using assms(2-4) by (cases "find_slot UNUSED s") (auto simp: fork_def allocproc_def)
  then have "np < NPROC" "pstate s np = UNUSED" by (auto simp: find_slot_def find_upt_Some_iff)
  then show ?thesis using fork_slot [OF reachable_kinv [OF assms(1)] assms(2) np assms(3,4)] by metis
qed

theorem fork_makes_child_witness:
  "\<exists>r t. fork ROUND_ROBIN demo_ops 0 (demo1 ROUND_ROBIN ()) = Inr (r, t)
     \<and> (\<exists>np<NPROC. p_state (ptable t np) = RUNNABLE \<and> p_pid (ptable t np) = r \<and> p_parent (ptable t np) = Some 0)"
proof -
  obtain t where f: "fork ROUND_ROBIN demo_ops 0 (demo1 ROUND_ROBIN ()) = Inr (nextpid (demo1 ROUND_ROBIN ()), t)"
    by (rule demo_fork [of "()"]) blast
  moreover have "nextpid (demo1 ROUND_ROBIN ()) \<noteq> -1"
    using kinvD(2) [OF reachable_kinv [OF demo1_reachable [of ROUND_ROBIN "()"]]] unfolding pid_inv_def by linarith
  ultimately show ?thesis using fork_makes_child [OF demo1_reachable [of ROUND_ROBIN "()"] demo1_unit(1) f] by blast
qed

section \<open>Kill\<close>

lemma kill_slot:
  assumes "find_pid pid s = Some p" "pstate s p \<noteq> SLEEPING"
  shows "kill pol pid s = (0, upd_proc p (\<lambda>x. x\<lparr>p_killed := True\<rparr>) s)"
  using assms by (simp add: kill_def)

text \<open>C20: \<^verbatim>\<open>kill\<close> does not check that the slot it finds is in use, and \<^verbatim>\<open>allocproc\<close> does not
  clear \<^verbatim>\<open>killed\<close>. When the first slot with process id 0 is also the first free slot,
  \<^verbatim>\<open>kill(0)\<close> succeeds and the next process that \<^verbatim>\<open>fork\<close> makes is killed at birth.\<close>

theorem kill_zero_kills_next_child:
  assumes "reachable pol ops s" "c_proc (cpus s c) = Some cur" "find_pid 0 s = find_slot UNUSED s" "find_slot UNUSED s = Some np"
    "fork pol ops c (snd (kill pol 0 s)) = Inr (r, t)" "r \<noteq> -1"
  shows "fst (kill pol 0 s) = 0 \<and> p_pid (ptable t np) = r \<and> p_killed (ptable t np)"
proof -
  let ?u = "upd_proc np (\<lambda>x. x\<lparr>p_killed := True\<rparr>) s"
  have "pstate s np = UNUSED" using assms(4) by (auto simp: find_slot_def find_upt_Some_iff)
  then have k: "kill pol 0 s = (0, ?u)" using assms(3,4) by (intro kill_slot) simp_all
  have st: "pstate ?u q = pstate s q" for q by simp
  have "kinv pol ?u" using reachable_kinv [OF reachable.step [OF assms(1) kstep.kill]] k by (metis snd_conv)
  moreover have "find_slot UNUSED ?u = Some np" using assms(4) by (simp only: find_slot_def st)
  ultimately show ?thesis
    using fork_slot(5,9) [of pol ?u c cur np ops r t] assms(2,5,6) k by simp
qed

theorem kill_zero_kills_next_child_witness:
  "\<exists>r t. fork ROUND_ROBIN demo_ops 0 (snd (kill ROUND_ROBIN 0 (demo1 ROUND_ROBIN ()))) = Inr (r, t)
     \<and> p_pid (ptable t 1) = r \<and> p_killed (ptable t 1)"
proof -
  let ?s = "demo1 ROUND_ROBIN ()" and ?u = "upd_proc (Suc 0) (\<lambda>x. x\<lparr>p_killed := True\<rparr>) (demo1 ROUND_ROBIN ())"
  note inv = reachable_kinv [OF demo1_reachable [of ROUND_ROBIN "()"]]
  have z: "ptable ?s (Suc 0) = zero_proc" using demo1_unit(2) by simp
  have r0: "pstate ?s 0 = RUNNING" "0 < nextpid ?s" "p_pid (ptable ?s 0) \<noteq> 0"
    using running_slot(3) [OF inv demo1_unit(1)] kinvD(2) [OF inv] unfolding pid_inv_def by (auto simp: NPROC_def)
  have fp: "find_pid 0 ?s = Some (Suc 0)"
    unfolding find_pid_def find_upt_Some_iff using z r0(3) by (auto simp: zero_proc_def NPROC_def less_Suc_eq)
  then have k: "kill ROUND_ROBIN 0 ?s = (0, ?u)" by (rule kill_slot) (simp add: z zero_proc_def)
  have st: "pstate ?u q = pstate ?s q" for q by simp
  have fu: "find_slot UNUSED ?u = Some (Suc 0)" using demo1_free [of "()"] by (simp only: find_slot_def st)
  have "\<exists>t. fork ROUND_ROBIN demo_ops 0 ?u = Inr (nextpid ?u, t)"
    using demo_fork_from [of ?u] demo1_unit(1,3,4) demo1_facts(9) [of "()"] fu z by (auto simp: zero_proc_def INT_MAX_def)
  then obtain t where t: "fork ROUND_ROBIN demo_ops 0 (snd (kill ROUND_ROBIN 0 ?s)) = Inr (nextpid ?s, t)" using k by auto
  then show ?thesis
    using kill_zero_kills_next_child [OF demo1_reachable [of ROUND_ROBIN "()"] demo1_unit(1) _ demo1_free [of "()"] t] fp demo1_free [of "()"] r0(2) by auto
qed

section \<open>Exit and wait\<close>

lemma mlfq_requeue_state:
  "p_state (ptable (mlfq_requeue p s) q) = p_state (ptable s q)"
  "p_parent (ptable (mlfq_requeue p s) q) = p_parent (ptable s q)" "cpus (mlfq_requeue p s) = cpus s"
  "etime (ptable (mlfq_requeue p s) q) = etime (ptable s q)" "p_chan (ptable (mlfq_requeue p s) q) = p_chan (ptable s q)"
  by (simp_all add: mlfq_requeue_def push_def Let_def)

lemma scheduler_return_state:
  "p_state (ptable (scheduler_return pol c p s) q) = p_state (ptable s q)"
  "p_parent (ptable (scheduler_return pol c p s) q) = p_parent (ptable s q)"
  "etime (ptable (scheduler_return pol c p s) q) = etime (ptable s q)"
  "c_proc (cpus (scheduler_return pol c p s) c) = None"
  "p_chan (ptable (scheduler_return pol c p s) q) = p_chan (ptable s q)"
  by (simp_all add: scheduler_return_def Let_def mlfq_requeue_state switchkvm_def set_scan_def split: policy.split)

lemma abandon_state:
  "pstate s q = SLEEPING \<longrightarrow> pstate (abandon pol p r s) q \<in> {SLEEPING, RUNNABLE}"
  "pstate s q \<noteq> SLEEPING \<longrightarrow> pstate (abandon pol p r s) q = pstate s q"
  by (auto simp: abandon_def Let_def wakeup1_state)

lemma abandon_fold:
  fixes pol :: policy and s :: "'e kst"
  assumes "initproc s \<noteq> Some p"
  defines "t n \<equiv> fold (abandon pol p) [0..<n] s"
  shows "initproc (t n) = initproc s \<and> ticks (t n) = ticks s \<and> cpus (t n) = cpus s
    \<and> (pstate s q \<noteq> SLEEPING \<longrightarrow> pstate (t n) q = pstate s q)
    \<and> p_parent (ptable (t n) q) = (if q < n \<and> p_parent (ptable s q) = Some p then initproc s else p_parent (ptable s q))"
proof (induction n)
  case (Suc n)
  have tk: "ticks (abandon pol p n u) = ticks u" for u :: "'e kst"
  proof -
    have "ticks (wakeup1 pol ch u) = ticks u" for ch and u :: "'e kst"
      unfolding wakeup1_def by (rule fold_field) (simp add: wakeup_slot_def Let_def)
    then show ?thesis by (simp add: abandon_def Let_def)
  qed
  show ?case using Suc abandon_state(2) [of "t n" q pol p n] tk [of "t n"]
    by (auto simp: t_def abandon_frame less_Suc_eq)
qed (simp add: t_def)

lemma exit_final_state:
  assumes inv: "kinv pol s" and c: "c_proc (cpus s c) = Some p" and i: "initproc s \<noteq> Some p"
    and e: "exit_final pol c p L s = Inr (L', t)"
  shows "pstate t p = ZOMBIE" "etime (ptable t p) = sint (ticks s)" "c_proc (cpus t c) = None"
    "q < NPROC \<Longrightarrow> q \<noteq> p \<Longrightarrow> p_parent (ptable t q) = (if p_parent (ptable s q) = Some p then initproc s else p_parent (ptable s q))"
    "p_parent (ptable s p) = Some q \<Longrightarrow> q < NPROC \<Longrightarrow> q \<noteq> p \<Longrightarrow> pstate s q = SLEEPING \<Longrightarrow>
      p_chan (ptable s q) = Some (ChanProc q) \<Longrightarrow> pstate t q = RUNNABLE"
proof -
  let ?s = "wakeup1 pol (map_option ChanProc (p_parent (ptable s p))) s"
  let ?u = "fold (abandon pol p) [0..<NPROC] ?s"
  have tk: "ticks ?s = ticks s" unfolding wakeup1_def by (rule fold_field) (simp add: wakeup_slot_def Let_def)
  note u = abandon_fold [of ?s p pol NPROC]
  have t: "t = scheduler_return pol c p (upd_proc p (\<lambda>x. x\<lparr>etime := sint (ticks ?u), p_state := ZOMBIE\<rparr>) ?u)"
    using exit_final_Inr [OF inv c i e] by (simp add: exit_body_def Let_def)
  show "pstate t p = ZOMBIE" "etime (ptable t p) = sint (ticks s)" "c_proc (cpus t c) = None"
    using u i tk by (simp_all add: t scheduler_return_state)
  show "p_parent (ptable t q) = (if p_parent (ptable s q) = Some p then initproc s else p_parent (ptable s q))"
    if "q < NPROC" "q \<noteq> p"
    using u [of q] i that by (simp add: t scheduler_return_state)
  show "pstate t q = RUNNABLE" if "p_parent (ptable s p) = Some q" "q < NPROC" "q \<noteq> p" "pstate s q = SLEEPING"
    "p_chan (ptable s q) = Some (ChanProc q)"
    using u [of q] i that by (simp add: t scheduler_return_state wakeup1_state)
qed

text \<open>C18: a process that exits is left as a zombie with its exit time, its CPU is free, its
  children have become children of the first process, and a parent that sleeps in
  \<^verbatim>\<open>wait\<close> is runnable again.\<close>

theorem exit_hands_over:
  assumes "reachable pol ops s" "c_proc (cpus s c) = Some p" "exit pol ops c L s = Inr t"
  shows "p_state (ptable t p) = ZOMBIE \<and> etime (ptable t p) = sint (ticks s) \<and> c_proc (cpus t c) = None
    \<and> (\<forall>q<NPROC. q \<noteq> p \<and> p_parent (ptable s q) = Some p \<longrightarrow> p_parent (ptable t q) = initproc s)
    \<and> (\<forall>q<NPROC. p_parent (ptable s p) = Some q \<and> p_state (ptable s q) = SLEEPING
         \<and> p_chan (ptable s q) = Some (ChanProc q) \<longrightarrow> p_state (ptable t q) = RUNNABLE)"
proof -
  note inv = reachable_kinv [OF assms(1)]
  obtain u L' where u: "exit_files ops p s = Inr u" "exit_final pol c p L u = Inr (L', t)" "initproc s \<noteq> Some p"
    using assms(2,3) by (auto simp: exit_def and_then_Inr_iff split: if_splits)
  note f = exit_files_frame [OF u(1)]
  have su: "ticks u = ticks s" "initproc u = initproc s" "cpus u = cpus s" "q \<noteq> p \<Longrightarrow> ptable u q = ptable s q"
    "p_parent (ptable u p) = p_parent (ptable s p)" for q
    using f by (simp_all add: slot_only_def same_view_def)
  have ne: "q \<noteq> p" if "pstate s q = SLEEPING" for q using running_slot(3) [OF inv assms(2)] that by auto
  note x = exit_final_state [OF kinv_exit_files [OF inv u(1)] _ _ u(2)]
  have c: "c_proc (cpus u c) = Some p" "initproc u \<noteq> Some p" using su assms(2) u(3) by simp_all
  have "p_parent (ptable t q) = initproc s" if "q < NPROC" "q \<noteq> p \<and> p_parent (ptable s q) = Some p" for q
    using x(4) [OF c that(1)] su(2) su(4) [of q] that(2) by simp
  moreover have "pstate t q = RUNNABLE"
    if "q < NPROC" "p_parent (ptable s p) = Some q \<and> pstate s q = SLEEPING \<and> p_chan (ptable s q) = Some (ChanProc q)" for q
    using x(5) [OF c, of q] su(4) [of q] su(5) ne [of q] that by simp
  ultimately show ?thesis using x(1-3) [OF c] su(1) by simp
qed

theorem exit_hands_over_witness:
  "\<exists>(v :: unit kst) t. exit ROUND_ROBIN demo_ops 0 (no_locks True) v = Inr t \<and> p_state (ptable t 1) = ZOMBIE \<and> c_proc (cpus t 0) = None"
proof -
  obtain v :: "unit kst" where v: "reachable ROUND_ROBIN demo_ops v" "c_proc (cpus v 0) = Some (Suc 0)" "initproc v = Some 0"
    "p_cwd (ptable v (Suc 0)) = Some 0" "p_ofile (ptable v (Suc 0)) = (\<lambda>_. None)"
    by (rule demo_child_runs) blast
  have "foldk (close_fd demo_ops (Suc 0)) [0..<NOFILE] v = Inr v"
    by (intro foldk_id) (simp add: close_fd_def v)
  then obtain u where u: "exit_files demo_ops (Suc 0) v = Inr u"
    using v by (simp add: exit_files_def demo_ops_def upd_env_def)
  note f = exit_files_frame(1) [OF u]
  have "c_proc (cpus u 0) = Some (Suc 0)" "initproc u \<noteq> Some (Suc 0)" using f v by (simp_all add: slot_only_def)
  from exit_final_only [OF kinv_exit_files [OF reachable_kinv [OF v(1)] u] this, of "no_locks True"]
  obtain t where t: "exit ROUND_ROBIN demo_ops 0 (no_locks True) v = Inr t" using u v by (auto simp: exit_def)
  then show ?thesis using exit_hands_over [OF v(1,2) t] by auto
qed

text \<open>C19: \<^verbatim>\<open>wait\<close> reaps a zombie child when there is one: it returns its process id and frees
  its slot, and no other. Otherwise it returns -1 when the caller has no children or has
  been killed, and else sleeps on its own channel.\<close>

theorem wait_answers:
  assumes "reachable pol ops s" "c_proc (cpus s c) = Some cur" "wait pol ops c s = Inr (r, t)"
  shows "if \<exists>p<NPROC. p_parent (ptable s p) = Some cur \<and> p_state (ptable s p) = ZOMBIE
    then \<exists>p<NPROC. p_parent (ptable s p) = Some cur \<and> p_state (ptable s p) = ZOMBIE \<and> r = Some (p_pid (ptable s p))
           \<and> p_state (ptable t p) = UNUSED \<and> p_pid (ptable t p) = 0 \<and> (\<forall>q. q \<noteq> p \<longrightarrow> ptable t q = ptable s q)
    else if p_killed (ptable s cur) \<or> (\<forall>p<NPROC. p_parent (ptable s p) \<noteq> Some cur) then r = Some (-1) \<and> t = s
    else r = None \<and> p_state (ptable t cur) = SLEEPING \<and> p_chan (ptable t cur) = Some (ChanProc cur) \<and> c_proc (cpus t c) = None"
proof (cases "find (\<lambda>p. is_child s cur p \<and> p_state (ptable s p) = ZOMBIE) [0..<NPROC]")
  case (Some p)
  then have p: "p < NPROC" "p_parent (ptable s p) = Some cur" "p_state (ptable s p) = ZOMBIE"
    by (auto simp: find_upt_Some_iff is_child_def)
  have "r = Some (p_pid (ptable s p)) \<and> p_state (ptable t p) = UNUSED \<and> p_pid (ptable t p) = 0 \<and> (\<forall>q. q \<noteq> p \<longrightarrow> ptable t q = ptable s q)"
    using assms(2,3) Some by (auto simp: wait_unfold wait_pass_def and_then_Inr_iff reap_def upd_env_Inr)
  with p show ?thesis by auto
next
  case None
  then have n: "\<not> (\<exists>p<NPROC. p_parent (ptable s p) = Some cur \<and> p_state (ptable s p) = ZOMBIE)"
    by (auto simp: find_upt_None_iff is_child_def)
  have k: "list_ex (is_child s cur) [0..<NPROC] \<longleftrightarrow> \<not> (\<forall>p<NPROC. p_parent (ptable s p) \<noteq> Some cur)"
    by (auto simp: list_ex_iff is_child_def)
  have sl: "p_state (ptable u cur) = SLEEPING \<and> c_proc (cpus u c) = None
      \<and> p_chan (ptable u cur) = Some (ChanProc cur)"
    if "sleep_begin pol c (ChanProc cur) l0 L s = Inr (L', u)" for l0 L L' u
    using sleep_begin_Inr [OF that] assms(2) by (auto simp: scheduler_return_state)
  show ?thesis
    using assms(2,3) None n sl by (auto simp: wait_unfold wait_pass_def and_then_Inr_iff k split: if_splits)
qed

theorem wait_answers_witness: "wait ROUND_ROBIN demo_ops 0 (demo1 ROUND_ROBIN ()) = Inr (Some (-1), demo1 ROUND_ROBIN ())"
proof -
  let ?s = "demo1 ROUND_ROBIN ()"
  note inv = reachable_kinv [OF demo1_reachable [of ROUND_ROBIN "()"]]
  have n: "\<forall>p<NPROC. p_parent (ptable ?s p) \<noteq> Some 0"
  proof (intro allI impI)
    fix p
    show "p_parent (ptable ?s p) \<noteq> Some 0"
      using demo1_unit(2) [of p] demo1_unit(7) by (cases "p = 0") (auto simp: zero_proc_def)
  qed
  then have "\<exists>r t. wait ROUND_ROBIN demo_ops 0 ?s = Inr (r, t)"
    using demo1_unit(1) by (auto simp: wait_unfold wait_pass_def find_upt_None_iff find_upt_Some_iff list_ex_iff is_child_def split: option.split)
  then show ?thesis using wait_answers [OF demo1_reachable [of ROUND_ROBIN "()"] demo1_unit(1)] n by metis
qed

end
