(* ===== verification/Vm.thy ===== *)
theory Vm
  imports ProcDefs
begin

text \<open>
  Physical memory and page tables: the page allocator of \<^verbatim>\<open>kalloc.c\<close> and the address
  spaces of \<^verbatim>\<open>vm.c\<close>, with the address macros of \<^verbatim>\<open>mmu.h\<close> and \<^verbatim>\<open>memlayout.h\<close>.

  Memory is an array of frames of 1024 words. A frame is named by the kernel virtual address
  of its first byte (physical address plus \<^verbatim>\<open>KERNBASE\<close>); the pointer \<^verbatim>\<open>&pgtab[i]\<close> to
  an entry is the pair of the frame and the index. The locks around the free list are left
  out: each operation is one critical section.
\<close>

section \<open>Addresses\<close>

definition PHYSTOP :: u32 where "PHYSTOP = 0xE000000"
definition DEVSPACE :: u32 where "DEVSPACE = 0xFE000000"
definition EXTMEM :: u32 where "EXTMEM = 0x100000"
definition KERNLINK :: u32 where "KERNLINK = KERNBASE + EXTMEM"
definition V2P :: "u32 \<Rightarrow> u32" where "V2P a = a - KERNBASE"
definition P2V :: "u32 \<Rightarrow> u32" where "P2V a = a + KERNBASE"
definition PDX :: "u32 \<Rightarrow> nat" where "PDX va = unat (drop_bit 22 va AND 0x3FF)"
definition PTX :: "u32 \<Rightarrow> nat" where "PTX va = unat (drop_bit 12 va AND 0x3FF)"
definition PGADDR :: "u32 \<Rightarrow> u32 \<Rightarrow> u32 \<Rightarrow> u32" where
  "PGADDR d t off = push_bit 22 d OR push_bit 12 t OR off"
definition NPDENTRIES :: nat where "NPDENTRIES = 1024"
definition PGROUNDUP :: "u32 \<Rightarrow> u32" where "PGROUNDUP sz = (sz + PGSIZE - 1) AND NOT (PGSIZE - 1)"
definition PGROUNDDOWN :: "u32 \<Rightarrow> u32" where "PGROUNDDOWN a = a AND NOT (PGSIZE - 1)"
definition PTE_P :: u32 where "PTE_P = 1"
definition PTE_W :: u32 where "PTE_W = 2"
definition PTE_U :: u32 where "PTE_U = 4"
definition PTE_ADDR :: "u32 \<Rightarrow> u32" where "PTE_ADDR pte = pte AND NOT 0xFFF"
definition PTE_FLAGS :: "u32 \<Rightarrow> u32" where "PTE_FLAGS pte = pte AND 0xFFF"

text \<open>The macros in arithmetic.\<close>

lemma round_down: "(a :: u32) AND NOT 0xFFF = a - a mod 4096"
proof -
  have "a AND NOT (mask 12) = push_bit 12 (drop_bit 12 a)" by (rule bit_eqI) (auto simp: bit_simps)
  also have "\<dots> = a - take_bit 12 a" using bits_ident [of 12 a] by (simp add: algebra_simps)
  finally show ?thesis by (simp add: take_bit_eq_mod mask_eq_exp_minus_1)
qed

lemma PGROUNDDOWN_eq: "PGROUNDDOWN a = a - a mod 4096"
  using round_down [of a] by (simp add: PGROUNDDOWN_def PGSIZE_def)

lemma PTE_ADDR_eq: "PTE_ADDR a = a - a mod 4096"
  using round_down [of a] by (simp add: PTE_ADDR_def)

lemma page_offset: "va - PGROUNDDOWN va = va mod 4096" "unat (va - PGROUNDDOWN va) = unat va mod 4096"
  "unat (va - PGROUNDDOWN va) < 4096"
  by (simp_all add: PGROUNDDOWN_eq unat_mod)

lemma PDX_eq: "PDX va = unat va div 2 ^ 22"
proof -
  have m: "(0x3FF :: u32) = mask 10" by (simp add: mask_eq_exp_minus_1)
  have "unat va < 2 ^ 32" using unsigned_less [of va, where 'a = nat] by simp
  then have "unat va div 2 ^ 22 < 2 ^ 10" by (simp add: less_mult_imp_div_less)
  then show ?thesis unfolding PDX_def m by (simp add: drop_bit_eq_div take_bit_eq_mod unat_div unat_mod flip: take_bit_eq_mask)
qed

lemma PTX_eq: "PTX va = unat va div 2 ^ 12 mod 2 ^ 10"
proof -
  have m: "(0x3FF :: u32) = mask 10" by (simp add: mask_eq_exp_minus_1)
  show ?thesis unfolding PTX_def m by (simp add: drop_bit_eq_div take_bit_eq_mod unat_div unat_mod flip: take_bit_eq_mask)
qed

section \<open>State\<close>

text \<open>
  \<open>k_end\<close> and \<open>k_data\<close> are the linker's symbols \<^verbatim>\<open>end\<close> and \<^verbatim>\<open>data\<close>; \<open>vm_out\<close> collects
  what \<^verbatim>\<open>allocuvm\<close> prints.
\<close>

record vst =
  frame :: "u32 \<Rightarrow> nat \<Rightarrow> u32"
  freelist :: u32
  use_lock :: bool
  k_end :: u32
  k_data :: u32
  vm_out :: string

definition set_frame :: "u32 \<Rightarrow> (nat \<Rightarrow> u32) \<Rightarrow> 'a vst_scheme \<Rightarrow> 'a vst_scheme" where
  "set_frame p f s = s\<lparr>frame := (frame s)(p := f)\<rparr>"

definition set_entry :: "u32 \<Rightarrow> nat \<Rightarrow> u32 \<Rightarrow> 'a vst_scheme \<Rightarrow> 'a vst_scheme" where
  "set_entry p i w s = set_frame p ((frame s p)(i := w)) s"

text \<open>Byte \<open>k\<close> of a word, least significant first, and byte \<open>j\<close> of a frame.\<close>

definition get_byte :: "u32 \<Rightarrow> nat \<Rightarrow> u8" where
  "get_byte w k = ucast (drop_bit (8 * k) w)"

definition put_byte :: "u32 \<Rightarrow> nat \<Rightarrow> u8 \<Rightarrow> u32" where
  "put_byte w k b = (w AND NOT (push_bit (8 * k) 0xFF)) OR push_bit (8 * k) (ucast b)"

definition fbyte :: "(nat \<Rightarrow> u32) \<Rightarrow> nat \<Rightarrow> u8" where
  "fbyte f j = get_byte (f (j div 4)) (j mod 4)"

definition put_fbyte :: "nat \<Rightarrow> u8 \<Rightarrow> (nat \<Rightarrow> u32) \<Rightarrow> nat \<Rightarrow> u32" where
  "put_fbyte j b f = f(j div 4 := put_byte (f (j div 4)) (j mod 4) b)"

text \<open>\<^verbatim>\<open>memmove\<close> of the bytes \<open>bs\<close> to offset \<open>j\<close> of a frame.\<close>

fun put_bytes :: "nat \<Rightarrow> u8 list \<Rightarrow> (nat \<Rightarrow> u32) \<Rightarrow> nat \<Rightarrow> u32" where
  "put_bytes j [] f = f"
| "put_bytes j (b # bs) f = put_bytes (Suc j) bs (put_fbyte j b f)"

section \<open>The page allocator\<close>

definition kfree :: "u32 \<Rightarrow> 'a vst_scheme \<Rightarrow> 'a vst_scheme kres" where
  "kfree v s =
     (if v mod PGSIZE \<noteq> 0 \<or> v < k_end s \<or> V2P v \<ge> PHYSTOP then Inl ''kfree''
      else Inr ((set_entry v 0 (freelist s) (set_frame v (\<lambda>_. 0x01010101) s))\<lparr>freelist := v\<rparr>))"

definition kalloc :: "'a vst_scheme \<Rightarrow> u32 \<times> 'a vst_scheme" where
  "kalloc s = (let r = freelist s in (r, if r \<noteq> 0 then s\<lparr>freelist := frame s r 0\<rparr> else s))"

text \<open>A page that \<^verbatim>\<open>kfree\<close> accepts is below the top of physical memory.\<close>

lemma kfree_no_wrap:
  assumes "kfree p s = Inr t"
  shows "uint KERNBASE \<le> uint p" "uint p < uint KERNBASE + uint PHYSTOP" "uint (p + PGSIZE) = uint p + 4096"
proof -
  have "uint (p - 0x80000000) < 0xE000000"
    using assms by (simp add: kfree_def V2P_def KERNBASE_def PHYSTOP_def word_less_def not_le split: if_splits)
  then have "0x80000000 \<le> uint p \<and> uint p < 0x8E000000"
    using uint_ge_0 [of p] by (cases "0x80000000 \<le> uint p") (simp_all add: uint_sub_if')
  then show "uint KERNBASE \<le> uint p" "uint p < uint KERNBASE + uint PHYSTOP" "uint (p + PGSIZE) = uint p + 4096"
    by (simp_all add: KERNBASE_def PHYSTOP_def PGSIZE_def uint_plus_if')
qed

function freerange_loop :: "u32 \<Rightarrow> u32 \<Rightarrow> 'a vst_scheme \<Rightarrow> 'a vst_scheme kres" where
  "freerange_loop p vend s =
     (if p + PGSIZE \<le> vend then and_then (kfree p s) (\<lambda>s. freerange_loop (p + PGSIZE) vend s)
      else Inr s)"
  by pat_completeness auto
termination
proof (relation "measure (\<lambda>(p, vend, s). room p)")
  fix p vend :: u32 and s x :: "'a vst_scheme"
  assume "kfree p s = Inr x"
  then have "p < p + PGSIZE" using kfree_no_wrap(3) [of p s x] by (simp add: word_less_def)
  then show "((p + PGSIZE, vend, x), p, vend, s) \<in> measure (\<lambda>(p, vend, s). room p)" by (simp add: room_less)
qed simp

declare freerange_loop.simps [simp del]

definition freerange :: "u32 \<Rightarrow> u32 \<Rightarrow> 'a vst_scheme \<Rightarrow> 'a vst_scheme kres" where
  "freerange vstart vend s = freerange_loop (PGROUNDUP vstart) vend s"

definition kinit1 :: "u32 \<Rightarrow> u32 \<Rightarrow> 'a vst_scheme \<Rightarrow> 'a vst_scheme kres" where
  "kinit1 vstart vend s = freerange vstart vend (s\<lparr>use_lock := False\<rparr>)"

definition kinit2 :: "u32 \<Rightarrow> u32 \<Rightarrow> 'a vst_scheme \<Rightarrow> 'a vst_scheme kres" where
  "kinit2 vstart vend s = and_then (freerange vstart vend s) (\<lambda>s. Inr (s\<lparr>use_lock := True\<rparr>))"

section \<open>Page tables\<close>

text \<open>\<open>None\<close> is the null pointer.\<close>

definition walkpgdir :: "u32 \<Rightarrow> u32 \<Rightarrow> bool \<Rightarrow> 'a vst_scheme \<Rightarrow> (u32 \<times> nat) option \<times> 'a vst_scheme" where
  "walkpgdir pgdir va alloc s =
     (let pde = frame s pgdir (PDX va)
      in if pde AND PTE_P \<noteq> 0 then (Some (P2V (PTE_ADDR pde), PTX va), s)
         else if \<not> alloc then (None, s)
         else
           let (pgtab, s) = kalloc s
           in if pgtab = 0 then (None, s)
              else (Some (pgtab, PTX va),
                    set_entry pgdir (PDX va) (V2P pgtab OR PTE_P OR PTE_W OR PTE_U) (set_frame pgtab (\<lambda>_. 0) s)))"

text \<open>
  The loop of \<^verbatim>\<open>mappages\<close> ends at the page where \<^verbatim>\<open>a == last\<close>, \<open>n\<close> pages after \<open>a\<close>.
\<close>

fun map_loop :: "nat \<Rightarrow> u32 \<Rightarrow> u32 \<Rightarrow> u32 \<Rightarrow> u32 \<Rightarrow> 'a vst_scheme \<Rightarrow> (int \<times> 'a vst_scheme) kres" where
  "map_loop n pgdir perm a pa s =
     (case walkpgdir pgdir a True s of
        (None, s) \<Rightarrow> Inr (-1, s)
      | (Some (pgtab, i), s) \<Rightarrow>
          if frame s pgtab i AND PTE_P \<noteq> 0 then Inl ''remap''
          else
            let s = set_entry pgtab i (pa OR perm OR PTE_P) s
            in case n of 0 \<Rightarrow> Inr (0, s)
               | Suc n \<Rightarrow> map_loop n pgdir perm (a + PGSIZE) (pa + PGSIZE) s)"

declare map_loop.simps [simp del]

definition mappages :: "u32 \<Rightarrow> u32 \<Rightarrow> u32 \<Rightarrow> u32 \<Rightarrow> u32 \<Rightarrow> 'a vst_scheme \<Rightarrow> (int \<times> 'a vst_scheme) kres" where
  "mappages pgdir va len pa perm s =
     (let a = PGROUNDDOWN va; l = PGROUNDDOWN (va + len - 1)
      in map_loop (unat (l - a) div 4096) pgdir perm a pa s)"

text \<open>
  The loop of \<^verbatim>\<open>deallocuvm\<close>. When no page table is found it goes on with the next
  directory entry. A turn that does not increase \<^verbatim>\<open>a\<close> has wrapped around, and the loop
  never ends: \<open>Inl ''diverges''\<close>.
\<close>

function dealloc_loop :: "u32 \<Rightarrow> u32 \<Rightarrow> u32 \<Rightarrow> 'a vst_scheme \<Rightarrow> 'a vst_scheme kres" where
  "dealloc_loop pgdir oldsz a s =
     (if a < oldsz then
        (case fst (walkpgdir pgdir a False s) of
           None \<Rightarrow>
             let a' = PGADDR (of_nat (PDX a + 1)) 0 0 - PGSIZE + PGSIZE
             in if a < a' then dealloc_loop pgdir oldsz a' s else Inl ''diverges''
         | Some (pgtab, i) \<Rightarrow>
             let pte = frame s pgtab i
             in and_then
                  (if pte AND PTE_P \<noteq> 0 then
                     (if PTE_ADDR pte = 0 then Inl ''kfree''
                      else and_then (kfree (P2V (PTE_ADDR pte)) s) (\<lambda>s. Inr (set_entry pgtab i 0 s)))
                   else Inr s)
                  (\<lambda>s. if a < a + PGSIZE then dealloc_loop pgdir oldsz (a + PGSIZE) s else Inl ''diverges''))
      else Inr s)"
  by pat_completeness auto
termination
  by (relation "measure (\<lambda>(pgdir, oldsz, a, s). room a)") (auto simp: room_less)

declare dealloc_loop.simps [simp del]

definition deallocuvm :: "u32 \<Rightarrow> u32 \<Rightarrow> u32 \<Rightarrow> 'a vst_scheme \<Rightarrow> (u32 \<times> 'a vst_scheme) kres" where
  "deallocuvm pgdir oldsz newsz s =
     (if newsz \<ge> oldsz then Inr (oldsz, s)
      else and_then (dealloc_loop pgdir oldsz (PGROUNDUP newsz) s) (\<lambda>s. Inr (newsz, s)))"

definition free_table :: "u32 \<Rightarrow> nat \<Rightarrow> 'a vst_scheme \<Rightarrow> 'a vst_scheme kres" where
  "free_table pgdir i s =
     (if frame s pgdir i AND PTE_P \<noteq> 0 then kfree (P2V (PTE_ADDR (frame s pgdir i))) s else Inr s)"

definition freevm :: "u32 \<Rightarrow> 'a vst_scheme \<Rightarrow> 'a vst_scheme kres" where
  "freevm pgdir s =
     (if pgdir = 0 then Inl ''freevm: no pgdir''
      else and_then (deallocuvm pgdir KERNBASE 0 s) (\<lambda>(_, s).
           and_then (foldk (free_table pgdir) [0..<NPDENTRIES] s) (\<lambda>s. kfree pgdir s)))"

definition kmap :: "'a vst_scheme \<Rightarrow> (u32 \<times> u32 \<times> u32 \<times> u32) list" where
  "kmap s = [(KERNBASE, 0, EXTMEM, PTE_W), (KERNLINK, V2P KERNLINK, V2P (k_data s), 0),
     (k_data s, V2P (k_data s), PHYSTOP, PTE_W), (DEVSPACE, DEVSPACE, 0, PTE_W)]"

fun kmap_loop :: "u32 \<Rightarrow> (u32 \<times> u32 \<times> u32 \<times> u32) list \<Rightarrow> 'a vst_scheme \<Rightarrow> (u32 \<times> 'a vst_scheme) kres" where
  "kmap_loop pgdir [] s = Inr (pgdir, s)"
| "kmap_loop pgdir ((virt, phys_start, phys_end, perm) # ks) s =
     and_then (mappages pgdir virt (phys_end - phys_start) phys_start perm s) (\<lambda>(r, s).
       if r < 0 then and_then (freevm pgdir s) (\<lambda>s. Inr (0, s))
       else kmap_loop pgdir ks s)"

definition setupkvm :: "'a vst_scheme \<Rightarrow> (u32 \<times> 'a vst_scheme) kres" where
  "setupkvm s =
     (let (pgdir, s) = kalloc s
      in if pgdir = 0 then Inr (0, s)
         else if P2V PHYSTOP > DEVSPACE then Inl ''PHYSTOP too high''
         else kmap_loop pgdir (kmap s) (set_frame pgdir (\<lambda>_. 0) s))"

text \<open>\<^verbatim>\<open>inituvm\<close> does not check what \<^verbatim>\<open>kalloc\<close> gives and clears the page at the null pointer.\<close>

definition inituvm :: "u32 \<Rightarrow> u8 list \<Rightarrow> 'a vst_scheme \<Rightarrow> 'a vst_scheme kres" where
  "inituvm pgdir init s =
     (if length init \<ge> unat PGSIZE then Inl ''inituvm: more than a page''
      else
        let (mem, s) = kalloc s
        in if mem = 0 then Inl ''trap''
           else and_then (mappages pgdir 0 PGSIZE (V2P mem) (PTE_W OR PTE_U) (set_frame mem (\<lambda>_. 0) s))
                  (\<lambda>(_, s). Inr (set_frame mem (put_bytes 0 init (frame s mem)) s)))"

text \<open>
  \<open>rd off n\<close> is \<^verbatim>\<open>readi(ip, dst, off, n)\<close> on the state of the file system: what it returns and the
  bytes it delivers.
\<close>

function load_loop :: "(u32 \<Rightarrow> u32 \<Rightarrow> 'r \<Rightarrow> ((int \<times> u8 list) \<times> 'r) kres) \<Rightarrow> u32 \<Rightarrow> u32 \<Rightarrow> u32 \<Rightarrow> u32 \<Rightarrow> u32 \<Rightarrow>
    'r \<times> 'a vst_scheme \<Rightarrow> (int \<times> 'r \<times> 'a vst_scheme) kres" where
  "load_loop rd pgdir addr offset sz i (fs, s) =
     (if i < sz then
        (case fst (walkpgdir pgdir (addr + i) False s) of
           None \<Rightarrow> Inl ''loaduvm: address should exist''
         | Some (pgtab, k) \<Rightarrow>
             let pa = P2V (PTE_ADDR (frame s pgtab k));
                 n = (if sz - i < PGSIZE then sz - i else PGSIZE)
             in and_then (rd (offset + i) n fs) (\<lambda>((r, bs), fs).
                let s = set_frame pa (put_bytes 0 bs (frame s pa)) s
                in if of_int r \<noteq> n then Inr (-1, fs, s)
                   else if i < i + PGSIZE then load_loop rd pgdir addr offset sz (i + PGSIZE) (fs, s)
                   else Inl ''diverges''))
      else Inr (0, fs, s))"
  by pat_completeness auto
termination
  by (relation "measure (\<lambda>(rd, pgdir, addr, offset, sz, i, s). room i)") (auto simp: room_less)

declare load_loop.simps [simp del]

definition loaduvm :: "(u32 \<Rightarrow> u32 \<Rightarrow> 'r \<Rightarrow> ((int \<times> u8 list) \<times> 'r) kres) \<Rightarrow> u32 \<Rightarrow> u32 \<Rightarrow> u32 \<Rightarrow> u32 \<Rightarrow>
    'r \<times> 'a vst_scheme \<Rightarrow> (int \<times> 'r \<times> 'a vst_scheme) kres" where
  "loaduvm rd pgdir addr offset sz fs =
     (if addr mod PGSIZE \<noteq> 0 then Inl ''loaduvm: addr must be page aligned''
      else load_loop rd pgdir addr offset sz 0 fs)"

function alloc_loop :: "u32 \<Rightarrow> u32 \<Rightarrow> u32 \<Rightarrow> u32 \<Rightarrow> 'a vst_scheme \<Rightarrow> (u32 \<times> 'a vst_scheme) kres" where
  "alloc_loop pgdir oldsz newsz a s =
     (if a < newsz then
        let (mem, s) = kalloc s
        in if mem = 0 then
             and_then (deallocuvm pgdir newsz oldsz (s\<lparr>vm_out := vm_out s @ ''allocuvm out of memory\<newline>''\<rparr>))
               (\<lambda>(_, s). Inr (0, s))
           else and_then (mappages pgdir a PGSIZE (V2P mem) (PTE_W OR PTE_U) (set_frame mem (\<lambda>_. 0) s)) (\<lambda>(r, s).
             if r < 0 then
               and_then (deallocuvm pgdir newsz oldsz (s\<lparr>vm_out := vm_out s @ ''allocuvm out of memory (2)\<newline>''\<rparr>)) (\<lambda>(_, s).
               and_then (kfree mem s) (\<lambda>s. Inr (0, s)))
             else if a < a + PGSIZE then alloc_loop pgdir oldsz newsz (a + PGSIZE) s
             else Inl ''diverges'')
      else Inr (newsz, s))"
  by pat_completeness auto
termination
  by (relation "measure (\<lambda>(pgdir, oldsz, newsz, a, s). room a)") (auto simp: room_less)

declare alloc_loop.simps [simp del]

definition allocuvm :: "u32 \<Rightarrow> u32 \<Rightarrow> u32 \<Rightarrow> 'a vst_scheme \<Rightarrow> (u32 \<times> 'a vst_scheme) kres" where
  "allocuvm pgdir oldsz newsz s =
     (if newsz \<ge> KERNBASE then Inr (0, s)
      else if newsz < oldsz then Inr (oldsz, s)
      else alloc_loop pgdir oldsz newsz (PGROUNDUP oldsz) s)"

definition clearpteu :: "u32 \<Rightarrow> u32 \<Rightarrow> 'a vst_scheme \<Rightarrow> 'a vst_scheme kres" where
  "clearpteu pgdir uva s =
     (case fst (walkpgdir pgdir uva False s) of
        None \<Rightarrow> Inl ''clearpteu''
      | Some (pgtab, i) \<Rightarrow> Inr (set_entry pgtab i (frame s pgtab i AND NOT PTE_U) s))"

function copy_loop :: "u32 \<Rightarrow> u32 \<Rightarrow> u32 \<Rightarrow> u32 \<Rightarrow> 'a vst_scheme \<Rightarrow> (u32 \<times> 'a vst_scheme) kres" where
  "copy_loop pgdir d sz i s =
     (if i < sz then
        (case fst (walkpgdir pgdir i False s) of
           None \<Rightarrow> Inl ''copyuvm: pte should exist''
         | Some (pgtab, k) \<Rightarrow>
             let pte = frame s pgtab k
             in if pte AND PTE_P = 0 then Inl ''copyuvm: page not present''
                else
                  let (mem, s) = kalloc s
                  in if mem = 0 then and_then (freevm d s) (\<lambda>s. Inr (0, s))
                     else and_then (mappages d i PGSIZE (V2P mem) (PTE_FLAGS pte)
                            (set_frame mem (frame s (P2V (PTE_ADDR pte))) s)) (\<lambda>(r, s).
                       if r < 0 then
                         and_then (kfree mem s) (\<lambda>s. and_then (freevm d s) (\<lambda>s. Inr (0, s)))
                       else if i < i + PGSIZE then copy_loop pgdir d sz (i + PGSIZE) s
                       else Inl ''diverges''))
      else Inr (d, s))"
  by pat_completeness auto
termination
  by (relation "measure (\<lambda>(pgdir, d, sz, i, s). room i)") (auto simp: room_less)

declare copy_loop.simps [simp del]

definition copyuvm :: "u32 \<Rightarrow> u32 \<Rightarrow> 'a vst_scheme \<Rightarrow> (u32 \<times> 'a vst_scheme) kres" where
  "copyuvm pgdir sz s =
     and_then (setupkvm s) (\<lambda>(d, s). if d = 0 then Inr (0, s) else copy_loop pgdir d sz 0 s)"

text \<open>\<^verbatim>\<open>uva2ka\<close> reads through the pointer \<^verbatim>\<open>walkpgdir\<close> gives without checking it.\<close>

definition uva2ka :: "u32 \<Rightarrow> u32 \<Rightarrow> 'a vst_scheme \<Rightarrow> u32 kres" where
  "uva2ka pgdir uva s =
     (case fst (walkpgdir pgdir uva False s) of
        None \<Rightarrow> Inl ''trap''
      | Some (pgtab, i) \<Rightarrow>
          let pte = frame s pgtab i
          in if pte AND PTE_P = 0 \<or> pte AND PTE_U = 0 then Inr 0 else Inr (P2V (PTE_ADDR pte)))"

function copyout :: "u32 \<Rightarrow> u32 \<Rightarrow> u8 list \<Rightarrow> 'a vst_scheme \<Rightarrow> (int \<times> 'a vst_scheme) kres" where
  "copyout pgdir va buf s =
     (if buf = [] then Inr (0, s)
      else
        let va0 = PGROUNDDOWN va
        in and_then (uva2ka pgdir va0 s) (\<lambda>pa0.
             if pa0 = 0 then Inr (-1, s)
             else
               let n = min (4096 - unat (va - va0)) (length buf)
               in copyout pgdir (va0 + PGSIZE) (drop n buf)
                    (set_frame pa0 (put_bytes (unat (va - va0)) (take n buf) (frame s pa0)) s)))"
  by pat_completeness auto
termination
proof (relation "measure (\<lambda>(pgdir, va, buf, s). length buf)")
  fix va :: u32 and buf :: "u8 list" and va0 n and pgdir pgdir' :: u32 and s t :: "'a vst_scheme"
  assume "buf \<noteq> []" "va0 = PGROUNDDOWN va" "n = min (4096 - unat (va - va0)) (length buf)"
  then show "((pgdir, va0 + PGSIZE, drop n buf, t), pgdir', va, buf, s) \<in> measure (\<lambda>(pgdir, va, buf, s). length buf)"
    using page_offset(3) [of va] by (cases buf) auto
qed auto

declare copyout.simps [simp del]

section \<open>Kernel access to user memory\<close>

text \<open>
  What the processor does when kernel code reads or writes through a user pointer while
  \<open>pgdir\<close> is loaded: it follows the page table, faults (a trap in kernel mode, which ends in
  \<^verbatim>\<open>panic("trap")\<close>) when the page is not present or, on a write, not writable, and does not
  look at \<^verbatim>\<open>PTE_U\<close>.
\<close>

definition uread :: "u32 \<Rightarrow> u32 \<Rightarrow> 'a vst_scheme \<Rightarrow> u8 kres" where
  "uread pgdir va s =
     (case fst (walkpgdir pgdir va False s) of
        None \<Rightarrow> Inl ''trap''
      | Some (pgtab, i) \<Rightarrow>
          let pte = frame s pgtab i
          in if pte AND PTE_P = 0 then Inl ''trap''
             else Inr (fbyte (frame s (P2V (PTE_ADDR pte))) (unat va mod 4096)))"

definition uwrite :: "u32 \<Rightarrow> u32 \<Rightarrow> u8 \<Rightarrow> 'a vst_scheme \<Rightarrow> 'a vst_scheme kres" where
  "uwrite pgdir va b s =
     (case fst (walkpgdir pgdir va False s) of
        None \<Rightarrow> Inl ''trap''
      | Some (pgtab, i) \<Rightarrow>
          let pte = frame s pgtab i; p = P2V (PTE_ADDR pte)
          in if pte AND PTE_P = 0 \<or> pte AND PTE_W = 0 then Inl ''trap''
             else Inr (set_frame p (put_fbyte (unat va mod 4096) b (frame s p)) s))"

definition uread32 :: "u32 \<Rightarrow> u32 \<Rightarrow> 'a vst_scheme \<Rightarrow> u32 kres" where
  "uread32 pgdir va s =
     and_then (uread pgdir va s) (\<lambda>b0. and_then (uread pgdir (va + 1) s) (\<lambda>b1.
     and_then (uread pgdir (va + 2) s) (\<lambda>b2. and_then (uread pgdir (va + 3) s) (\<lambda>b3.
       Inr (put_byte (put_byte (put_byte (put_byte 0 0 b0) 1 b1) 2 b2) 3 b3)))))"

definition uwrite32 :: "u32 \<Rightarrow> u32 \<Rightarrow> u32 \<Rightarrow> 'a vst_scheme \<Rightarrow> 'a vst_scheme kres" where
  "uwrite32 pgdir va w s =
     foldk (\<lambda>k. uwrite pgdir (va + of_nat k) (get_byte w k)) [0..<4] s"

end
