(* ===== verification/Syscall.thy ===== *)
theory Syscall
  imports Vm ProcSteps
begin

text \<open>
  System calls: fetching arguments from user memory and the dispatch of \<^verbatim>\<open>syscall.c\<close>, and
  the process calls of \<^verbatim>\<open>sysproc.c\<close>. The state is the process layer over the memory of
  \<^verbatim>\<open>vm.c\<close>. A call returns a value, gives up the CPU (to be continued by \<open>resume\<close> when
  the process runs again), or ends the process.
\<close>

type_synonym 'a vkst = "'a vst_scheme kst"

section \<open>Arguments\<close>

text \<open>\<open>None\<close> is the result -1 of the fetch functions.\<close>

definition with_proc :: "nat \<Rightarrow> 'e kst \<Rightarrow> (nat \<Rightarrow> 'r kres) \<Rightarrow> 'r kres" where
  "with_proc c s f = (case c_proc (cpus s c) of None \<Rightarrow> Inl ''trap'' | Some p \<Rightarrow> f p)"

definition fetchint :: "nat \<Rightarrow> u32 \<Rightarrow> 'a vkst \<Rightarrow> u32 option kres" where
  "fetchint c addr s = with_proc c s (\<lambda>p.
     let sz = p_sz (ptable s p)
     in if addr \<ge> sz \<or> addr + 4 > sz then Inr None
        else and_then (uread32 (p_pgdir (ptable s p)) addr (env s)) (\<lambda>v. Inr (Some v)))"

text \<open>The loop of \<^verbatim>\<open>fetchstr\<close> from the pointer \<open>q\<close> up to \<open>ep\<close>: the characters before the zero.\<close>

function str_loop :: "u32 \<Rightarrow> u32 \<Rightarrow> u32 \<Rightarrow> 'a vst_scheme \<Rightarrow> u8 list option kres" where
  "str_loop pd ep q e =
     (if q < ep then
        and_then (uread pd q e) (\<lambda>b.
          if b = 0 then Inr (Some [])
          else and_then (str_loop pd ep (q + 1) e) (\<lambda>r. Inr (map_option ((#) b) r)))
      else Inr None)"
  by pat_completeness auto
termination
proof (relation "measure (\<lambda>(pd, ep, q, e). room q)")
  fix pd ep q :: u32 and e :: "'a vst_scheme"
  assume "q < ep"
  then show "((pd, ep, q + 1, e), pd, ep, q, e) \<in> measure (\<lambda>(pd, ep, q, e). room q)"
    using uint_lt2p [of ep] by (auto simp: word_less_def uint_plus_if' intro!: room_less)
qed simp

declare str_loop.simps [simp del]

definition fetchstr :: "nat \<Rightarrow> u32 \<Rightarrow> 'a vkst \<Rightarrow> (u32 \<times> u8 list) option kres" where
  "fetchstr c addr s = with_proc c s (\<lambda>p.
     if addr \<ge> p_sz (ptable s p) then Inr None
     else and_then (str_loop (p_pgdir (ptable s p)) (p_sz (ptable s p)) addr (env s))
            (\<lambda>r. Inr (map_option (Pair addr) r)))"

definition argint :: "nat \<Rightarrow> nat \<Rightarrow> 'a vkst \<Rightarrow> u32 option kres" where
  "argint c n s = with_proc c s (\<lambda>p. fetchint c (tf_esp (p_tf (ptable s p)) + 4 + 4 * of_nat n) s)"

definition argptr :: "nat \<Rightarrow> nat \<Rightarrow> int \<Rightarrow> 'a vkst \<Rightarrow> u32 option kres" where
  "argptr c n len s = with_proc c s (\<lambda>p.
     and_then (argint c n s) (\<lambda>r. case r of
        None \<Rightarrow> Inr None
      | Some i \<Rightarrow>
          let sz = p_sz (ptable s p)
          in if len < 0 \<or> i \<ge> sz \<or> i + of_int len > sz then Inr None else Inr (Some i)))"

definition argstr :: "nat \<Rightarrow> nat \<Rightarrow> 'a vkst \<Rightarrow> (u32 \<times> u8 list) option kres" where
  "argstr c n s = and_then (argint c n s) (\<lambda>r. case r of None \<Rightarrow> Inr None | Some addr \<Rightarrow> fetchstr c addr s)"

section \<open>The process calls\<close>

text \<open>
  What a call that gave up the CPU has to remember: \<^verbatim>\<open>sys_sleep\<close> its two numbers,
  \<^verbatim>\<open>sys_waitx\<close> its two pointers, and a call of \<^verbatim>\<open>sysfile.c\<close> an \<open>'f\<close>: how far it has come
  with a pipe or the console, or in which block or inode it waits.
\<close>

datatype 'f blocked = In_wait | In_waitx u32 u32 | In_sleep u32 u32 | In_file 'f

datatype 'f outcome = Ret u32 | Blocked "'f blocked" | Exited

type_synonym ('a, 'f) call = "nat \<Rightarrow> 'a vkst \<Rightarrow> ('f outcome \<times> 'a vkst) kres"

text \<open>\<^verbatim>\<open>if(argint(n, &x) < 0) return -1;\<close>\<close>

definition with_arg :: "nat \<Rightarrow> nat \<Rightarrow> 'a vkst \<Rightarrow> (u32 \<Rightarrow> ('f outcome \<times> 'a vkst) kres) \<Rightarrow> ('f outcome \<times> 'a vkst) kres" where
  "with_arg c n s f = and_then (argint c n s) (\<lambda>r. case r of None \<Rightarrow> Inr (Ret (-1), s) | Some v \<Rightarrow> f v)"

definition sys_fork :: "policy \<Rightarrow> 'a vst_scheme kops \<Rightarrow> ('a, 'f) call" where
  "sys_fork pol ops c s = and_then (fork pol ops c s) (\<lambda>(r, s). Inr (Ret (of_int r), s))"

definition sys_exit :: "policy \<Rightarrow> 'a vst_scheme kops \<Rightarrow> ('a, 'f) call" where
  "sys_exit pol ops c s = and_then (exit pol ops c (no_locks True) s) (\<lambda>s. Inr (Exited, s))"

definition sys_wait :: "policy \<Rightarrow> 'a vst_scheme kops \<Rightarrow> ('a, 'f) call" where
  "sys_wait pol ops c s = and_then (wait pol ops c s) (\<lambda>(r, s).
     case r of None \<Rightarrow> Inr (Blocked In_wait, s) | Some v \<Rightarrow> Inr (Ret (of_int v), s))"

definition sys_kill :: "policy \<Rightarrow> ('a, 'f) call" where
  "sys_kill pol c s = with_arg c 0 s (\<lambda>pid. let (r, s) = kill pol (sint pid) s in Inr (Ret (of_int r), s))"

definition sys_getpid :: "('a, 'f) call" where
  "sys_getpid c s = with_proc c s (\<lambda>p. Inr (Ret (of_int (p_pid (ptable s p))), s))"

definition sys_sbrk :: "'a vst_scheme kops \<Rightarrow> ('a, 'f) call" where
  "sys_sbrk ops c s = with_arg c 0 s (\<lambda>n. with_proc c s (\<lambda>p.
     let addr = p_sz (ptable s p)
     in and_then (growproc ops c (sint n) s) (\<lambda>(r, s). Inr (Ret (if r < 0 then -1 else addr), s))))"

text \<open>
  One turn of the loop of \<^verbatim>\<open>sys_sleep\<close>, which holds \<^verbatim>\<open>tickslock\<close>; the comparison is of
  unsigned numbers.
\<close>

definition sleep_turn :: "policy \<Rightarrow> u32 \<Rightarrow> u32 \<Rightarrow> ('a, 'f) call" where
  "sleep_turn pol n ticks0 c s =
     and_then (acquire c Tickslock (no_locks True)) (\<lambda>L.
       if ticks s - ticks0 < n then
         with_proc c s (\<lambda>p.
           if p_killed (ptable s p) then and_then (release c Tickslock L) (\<lambda>_. Inr (Ret (-1), s))
           else and_then (sleep_begin pol c ChanTicks (Some Tickslock) L s) (\<lambda>(_, s). Inr (Blocked (In_sleep n ticks0), s)))
       else and_then (release c Tickslock L) (\<lambda>_. Inr (Ret 0, s)))"

definition sys_sleep :: "policy \<Rightarrow> ('a, 'f) call" where
  "sys_sleep pol c s = with_arg c 0 s (\<lambda>n. sleep_turn pol n (ticks s) c s)"

definition sys_uptime :: "('a, 'f) call" where
  "sys_uptime c s = Inr (Ret (ticks s), s)"

text \<open>\<^verbatim>\<open>waitx\<close> stores the times through the pointers, into the memory of the caller.\<close>

definition store_times :: "nat \<Rightarrow> u32 \<Rightarrow> u32 \<Rightarrow> int \<times> int \<Rightarrow> 'a vkst \<Rightarrow> 'a vkst kres" where
  "store_times c wtime rtime ts s = with_proc c s (\<lambda>p.
     upd_env (\<lambda>e. and_then (uwrite32 (p_pgdir (ptable s p)) rtime (of_int (snd ts)) e)
                    (uwrite32 (p_pgdir (ptable s p)) wtime (of_int (fst ts)))) s)"

definition waitx_turn :: "policy \<Rightarrow> 'a vst_scheme kops \<Rightarrow> u32 \<Rightarrow> u32 \<Rightarrow> ('a, 'f) call" where
  "waitx_turn pol ops wtime rtime c s = and_then (waitx pol ops c s) (\<lambda>(r, s).
     case r of
       None \<Rightarrow> Inr (Blocked (In_waitx wtime rtime), s)
     | Some (pid, None) \<Rightarrow> Inr (Ret (of_int pid), s)
     | Some (pid, Some ts) \<Rightarrow> and_then (store_times c wtime rtime ts s) (\<lambda>s. Inr (Ret (of_int pid), s)))"

definition sys_waitx :: "policy \<Rightarrow> 'a vst_scheme kops \<Rightarrow> ('a, 'f) call" where
  "sys_waitx pol ops c s =
     and_then (argptr c 0 4 s) (\<lambda>w. case w of None \<Rightarrow> Inr (Ret (-1), s) | Some wtime \<Rightarrow>
     and_then (argptr c 1 4 s) (\<lambda>r. case r of None \<Rightarrow> Inr (Ret (-1), s) | Some rtime \<Rightarrow>
       waitx_turn pol ops wtime rtime c s))"

definition sys_set_priority :: "('a, 'f) call" where
  "sys_set_priority c s = with_arg c 0 s (\<lambda>new_priority. with_arg c 1 s (\<lambda>pid.
     let (r, s) = set_priority (sint new_priority) (sint pid) s in Inr (Ret (of_int r), s)))"

definition sys_showps :: "('a, 'f) call" where
  "sys_showps c s = (let (r, s) = showps s in Inr (Ret (of_int r), s))"

section \<open>Dispatch\<close>

text \<open>
  The table \<^verbatim>\<open>syscalls\<close>. The calls of \<^verbatim>\<open>sysfile.c\<close> are given by \<open>files\<close>, and \<open>again\<close>
  below takes up one of them that slept.
\<close>

definition syscalls :: "policy \<Rightarrow> 'a vst_scheme kops \<Rightarrow> (nat \<Rightarrow> ('a, 'f) call) \<Rightarrow> nat \<Rightarrow> ('a, 'f) call" where
  "syscalls pol ops files num =
     (if num = 1 then sys_fork pol ops
      else if num = 2 then sys_exit pol ops
      else if num = 3 then sys_wait pol ops
      else if num = 6 then sys_kill pol
      else if num = 11 then sys_getpid
      else if num = 12 then sys_sbrk ops
      else if num = 13 then sys_sleep pol
      else if num = 14 then sys_uptime
      else if num = 22 then sys_waitx pol ops
      else if num = 23 then sys_set_priority
      else if num = 24 then sys_showps
      else files num)"

text \<open>\<^verbatim>\<open>curproc->tf->eax = ...\<close> once the call has returned.\<close>

definition set_eax :: "nat \<Rightarrow> 'f outcome \<times> 'a vkst \<Rightarrow> 'f outcome \<times> 'a vkst" where
  "set_eax p = (\<lambda>(r, s). (r, case r of
     Ret v \<Rightarrow> upd_proc p (\<lambda>x. x\<lparr>p_tf := (p_tf x)\<lparr>tf_eax := v\<rparr>\<rparr>) s | _ \<Rightarrow> s))"

definition syscall :: "policy \<Rightarrow> 'a vst_scheme kops \<Rightarrow> (nat \<Rightarrow> ('a, 'f) call) \<Rightarrow> ('a, 'f) call" where
  "syscall pol ops files c s = with_proc c s (\<lambda>p.
     let num = sint (tf_eax (p_tf (ptable s p)))
     in if 0 < num \<and> num < 25
        then and_then (syscalls pol ops files (nat num) c s) (\<lambda>r. Inr (set_eax p r))
        else Inr (set_eax p (Ret (-1),
          printk ''%d %s: unknown sys call %d\<newline>''
            [Num (of_int (p_pid (ptable s p))), Str (Some (p_name (ptable s p))), Num (of_int num)] s)))"

text \<open>
  The continuation of a call whose process \<open>p\<close> runs again on CPU \<open>c\<close>, from the return of
  \<^verbatim>\<open>sched\<close> in \<^verbatim>\<open>sleep\<close>.
\<close>

definition resume :: "policy \<Rightarrow> 'a vst_scheme kops \<Rightarrow> ('f \<Rightarrow> ('a, 'f) call) \<Rightarrow> 'f blocked \<Rightarrow> ('a, 'f) call" where
  "resume pol ops again b c s = with_proc c s (\<lambda>p.
     let s = sleep_end p s
     in and_then (case b of
            In_wait \<Rightarrow> sys_wait pol ops c s
          | In_waitx wtime rtime \<Rightarrow> waitx_turn pol ops wtime rtime c s
          | In_sleep n ticks0 \<Rightarrow> sleep_turn pol n ticks0 c s
          | In_file f \<Rightarrow> again f c s)
        (\<lambda>r. Inr (set_eax p r)))"

section \<open>Arguments stay inside the process\<close>

text \<open>A process of one page, which holds the string \<^verbatim>\<open>hi\<close> at address 0 and a stack at 4.\<close>

definition demo_vm :: vst where
  "demo_vm = \<lparr>frame = (\<lambda>p i. if p = 0x80401000 \<and> i = 0 then 0x402007 else if p = 0x80402000 \<and> i = 0 then 0x403007
       else if p = 0x80403000 \<and> i = 0 then 0x6968 else 0),
     freelist = 0, use_lock = True, k_end = 0x80200000, k_data = 0x80109000, vm_out = []\<rparr>"

definition demo_user :: "vst kst" where
  "demo_user = upd_cpu 0 (\<lambda>x. x\<lparr>c_proc := Some 0\<rparr>) (upd_proc 0 (\<lambda>x. x\<lparr>p_pgdir := 0x80401000, p_sz := 4096,
     p_tf := zero_trapframe\<lparr>tf_esp := 4\<rparr>, p_state := RUNNING\<rparr>) (load_kernel 1 0 demo_vm))"

lemma demo_user_slot: "c_proc (cpus demo_user 0) = Some 0" "p_sz (ptable demo_user 0) = 4096"
  "p_pgdir (ptable demo_user 0) = 0x80401000" "env demo_user = demo_vm" "tf_esp (p_tf (ptable demo_user 0)) = 4"
  by (simp_all add: demo_user_def load_kernel_def)

lemma demo_walk: "unat va < 4096 \<Longrightarrow> uread 0x80401000 va demo_vm = Inr (fbyte (\<lambda>i. if i = 0 then 0x6968 else 0) (unat va mod 4096))"
proof -
  assume "unat va < 4096"
  then have "PDX va = 0" "PTX va = 0" by (simp_all add: PDX_eq PTX_eq)
  then show ?thesis by (simp add: uread_def walkpgdir_def demo_vm_def P2V_def PTE_ADDR_def PTE_P_def KERNBASE_def)
qed

text \<open>C24: a pointer that \<^verbatim>\<open>argptr\<close> accepts, with the length it was asked for, lies inside the
  memory of the calling process: the sum that is checked cannot wrap around as long as the
  process is below the kernel.\<close>

theorem argptr_inside:
  assumes "c_proc (cpus s c) = Some p" "p_sz (ptable s p) \<le> KERNBASE" "len < 2 ^ 31"
    "argptr c n len s = Inr (Some i)"
  shows "0 \<le> len \<and> uint i + len \<le> uint (p_sz (ptable s p))"
proof -
  have "and_then (argint c n s) (\<lambda>r. case r of None \<Rightarrow> Inr None
      | Some i \<Rightarrow> if len < 0 \<or> i \<ge> p_sz (ptable s p) \<or> i + of_int len > p_sz (ptable s p) then Inr None else Inr (Some i))
    = Inr (Some i)"
    using assms(1,4) by (simp only: argptr_def with_proc_def Let_def option.case)
  then obtain v where v: "(if len < 0 \<or> v \<ge> p_sz (ptable s p) \<or> v + of_int len > p_sz (ptable s p) then Inr None else Inr (Some v))
      = (Inr (Some i) :: u32 option kres)"
    unfolding and_then_Inr_iff by (elim exE conjE) (rename_tac r, case_tac r; simp only: option.case sum.inject option.distinct)
  then have a: "\<not> len < 0" "i < p_sz (ptable s p)" "i + of_int len \<le> p_sz (ptable s p)"
    by (simp_all add: not_le not_less split: if_split_asm)
  have k: "uint (p_sz (ptable s p)) \<le> 2 ^ 31" "uint i < uint (p_sz (ptable s p))"
    using assms(2) a(2) by (simp_all add: word_le_def word_less_def KERNBASE_def)
  have "uint (of_int len :: u32) = len" using a(1) assms(3) by (simp add: uint_word_of_int_eq take_bit_int_eq_self)
  then have "uint (i + of_int len) = uint i + len"
    using k assms(3) by (simp add: uint_plus_if')
  then show ?thesis using a(1,3) by (simp add: word_le_def)
qed

theorem argptr_inside_witness: "argptr 0 0 3 demo_user = Inr (Some 0) \<and> uint (0 :: u32) + 3 \<le> uint (p_sz (ptable demo_user 0))"
proof -
  have a: "argptr 0 0 3 demo_user = Inr (Some 0)"
    by (simp add: argptr_def argint_def fetchint_def with_proc_def demo_user_slot uread32_def demo_walk fbyte_def get_byte_def put_byte_def)
  then show ?thesis
    using argptr_inside [OF demo_user_slot(1) _ _ a] by (simp add: demo_user_slot KERNBASE_def)
qed

lemma str_loop_cases:
  assumes "str_loop pd ep q e = Inr (Some bs)"
  obtains (zero) "q < ep" "uread pd q e = Inr 0" "bs = []"
  | (more) b cs where "q < ep" "uread pd q e = Inr b" "b \<noteq> 0" "bs = b # cs" "str_loop pd ep (q + 1) e = Inr (Some cs)"
  using assms by (subst (asm) str_loop.simps) (auto simp: and_then_Inr_iff split: if_splits)

lemma str_loop_reads:
  assumes "str_loop pd ep q e = Inr (Some bs)"
  shows "uint q + int (length bs) < uint ep \<and> 0 \<notin> set bs \<and> (\<forall>k<length bs. uread pd (q + of_nat k) e = Inr (bs ! k))
    \<and> uread pd (q + of_nat (length bs)) e = Inr 0"
  using assms
proof (induction bs arbitrary: q)
  case Nil
  then show ?case by (cases rule: str_loop_cases) (simp_all add: word_less_def)
next
  case (Cons b bs)
  then have c: "q < ep" "uread pd q e = Inr b" "b \<noteq> 0" "str_loop pd ep (q + 1) e = Inr (Some bs)"
    by (auto elim: str_loop_cases)
  have "uint (q + 1) = uint q + 1" using c(1) uint_lt2p [of ep] by (simp add: uint_plus_if' word_less_def)
  moreover have "uread pd (q + of_nat k) e = Inr ((b # bs) ! k)" if "k < length (b # bs)" for k
    using Cons.IH [OF c(4)] c(2) that by (cases k) (simp_all add: algebra_simps)
  ultimately show ?case using Cons.IH [OF c(4)] c(3) by (simp add: algebra_simps)
qed

text \<open>C25: the string that \<^verbatim>\<open>fetchstr\<close> finds, its terminating zero included, lies inside the
  process, contains no zero before its end, and is what user memory holds there.\<close>

theorem fetchstr_inside:
  assumes "c_proc (cpus s c) = Some p" "fetchstr c addr s = Inr (Some (q, bs))"
  shows "q = addr \<and> uint addr + int (length bs) < uint (p_sz (ptable s p)) \<and> 0 \<notin> set bs
    \<and> (\<forall>k<length bs. uread (p_pgdir (ptable s p)) (addr + of_nat k) (env s) = Inr (bs ! k))
    \<and> uread (p_pgdir (ptable s p)) (addr + of_nat (length bs)) (env s) = Inr 0"
proof -
  have "q = addr \<and> str_loop (p_pgdir (ptable s p)) (p_sz (ptable s p)) addr (env s) = Inr (Some bs)"
    using assms by (auto simp: fetchstr_def with_proc_def and_then_Inr_iff split: if_splits)
  then show ?thesis using str_loop_reads by blast
qed

theorem fetchstr_inside_witness: "fetchstr 0 0 demo_user = Inr (Some (0, [0x68, 0x69])) \<and> uread 0x80401000 (0 + of_nat (length [0x68 :: u8, 0x69])) demo_vm = Inr 0"
proof -
  have b: "fbyte (\<lambda>i. if i = 0 then 0x6968 else 0) 0 = 0x68" "fbyte (\<lambda>i. if i = 0 then 0x6968 else 0) (Suc 0) = 0x69"
    "fbyte (\<lambda>i. if i = 0 then 0x6968 else 0) 2 = 0" by (simp_all add: fbyte_def get_byte_def)
  have "str_loop 0x80401000 4096 2 demo_vm = Inr (Some [])" by (subst str_loop.simps) (simp add: demo_walk b)
  then have "str_loop 0x80401000 4096 1 demo_vm = Inr (Some [0x69])" by (subst str_loop.simps) (simp add: demo_walk b)
  then have "str_loop 0x80401000 4096 0 demo_vm = Inr (Some [0x68, 0x69])" by (subst str_loop.simps) (simp add: demo_walk b)
  then have f: "fetchstr 0 0 demo_user = Inr (Some (0, [0x68, 0x69]))" by (simp add: fetchstr_def with_proc_def demo_user_slot)
  then show ?thesis using fetchstr_inside [OF demo_user_slot(1) f] by (simp only: demo_user_slot)
qed

end
