(* ===== verification/Trap.thy ===== *)
theory Trap
  imports Syscall
begin

text \<open>
  The trap handler of \<^verbatim>\<open>trap.c\<close>: system calls, device and timer interrupts, faults, and the
  preemption rule of each scheduling policy. The handler is cut where the process gives up
  the CPU: \<open>trap\<close> runs up to the switch, \<open>trap_tail\<close> and \<open>syscall_tail\<close> are what is left to do
  when the process runs again, and \<open>first_return\<close> is how a new process gets to user mode.
\<close>

section \<open>Handlers\<close>

definition T_SYSCALL :: u32 where "T_SYSCALL = 64"
definition T_IRQ0 :: u32 where "T_IRQ0 = 32"
definition IRQ_TIMER :: u32 where "IRQ_TIMER = 0"
definition IRQ_KBD :: u32 where "IRQ_KBD = 1"
definition IRQ_COM1 :: u32 where "IRQ_COM1 = 4"
definition IRQ_IDE :: u32 where "IRQ_IDE = 14"
definition IRQ_SPURIOUS :: u32 where "IRQ_SPURIOUS = 31"

text \<open>The device interrupt handlers and the fault address register \<^verbatim>\<open>rcr2()\<close>.\<close>

record 'e devices =
  ideintr :: "'e kst \<Rightarrow> 'e kst kres"
  kbdintr :: "'e kst \<Rightarrow> 'e kst kres"
  uartintr :: "'e kst \<Rightarrow> 'e kst kres"
  rcr2 :: u32

datatype 'f trap_outcome = Returned | Waiting "'f blocked" | Preempted | Gone

text \<open>\<^verbatim>\<open>(tf->cs & 3) == DPL_USER\<close>\<close>

definition user_mode :: "trapframe \<Rightarrow> bool" where
  "user_mode tf \<longleftrightarrow> tf_cs tf AND 3 = 3"

definition timer_tick :: "policy \<Rightarrow> 'e kst \<Rightarrow> 'e kst" where
  "timer_tick pol s = wakeup pol ChanTicks (change_ticks pol (s\<lparr>ticks := ticks s + 1\<rparr>))"

definition unexpected :: "'e devices \<Rightarrow> nat \<Rightarrow> trapframe \<Rightarrow> 'e kst \<Rightarrow> 'e kst kres" where
  "unexpected dev c tf s =
     (case c_proc (cpus s c) of
        None \<Rightarrow> Inl ''trap''
      | Some p \<Rightarrow>
          if tf_cs tf AND 3 = 0 then Inl ''trap''
          else Inr (upd_proc p (\<lambda>x. x\<lparr>p_killed := True\<rparr>)
            (printk ''pid %d %s: trap %d err %d on cpu %d eip 0x%x addr 0x%x--kill proc\<newline>''
              [Num (of_int (p_pid (ptable s p))), Str (Some (p_name (ptable s p))), Num (tf_trapno tf),
               Num (tf_err tf), Num (of_nat c), Num (tf_eip tf), Num (rcr2 dev)] s)))"

text \<open>The \<^verbatim>\<open>switch(tf->trapno)\<close>.\<close>

definition interrupt :: "policy \<Rightarrow> 'e devices \<Rightarrow> nat \<Rightarrow> trapframe \<Rightarrow> 'e kst \<Rightarrow> 'e kst kres" where
  "interrupt pol dev c tf s =
     (let n = tf_trapno tf
      in if n = T_IRQ0 + IRQ_TIMER then Inr (if c = 0 then timer_tick pol s else s)
         else if n = T_IRQ0 + IRQ_IDE then ideintr dev s
         else if n = T_IRQ0 + IRQ_IDE + 1 then Inr s
         else if n = T_IRQ0 + IRQ_KBD then kbdintr dev s
         else if n = T_IRQ0 + IRQ_COM1 then uartintr dev s
         else if n = T_IRQ0 + 7 \<or> n = T_IRQ0 + IRQ_SPURIOUS then
           Inr (printk ''cpu%d: spurious interrupt at %x:%x\<newline>'' [Num (of_nat c), Num (ucast (tf_cs tf)), Num (tf_eip tf)] s)
         else unexpected dev c tf s)"

text \<open>\<^verbatim>\<open>if(myproc() && myproc()->killed && (tf->cs&3) == DPL_USER) exit();\<close>\<close>

definition must_die :: "nat \<Rightarrow> trapframe \<Rightarrow> 'e kst \<Rightarrow> bool" where
  "must_die c tf s \<longleftrightarrow>
     (case c_proc (cpus s c) of None \<Rightarrow> False | Some p \<Rightarrow> p_killed (ptable s p) \<and> user_mode tf)"

text \<open>
  The gate of a system call leaves interrupts on, every other gate turns them off; the
  handler is entered with no lock held.
\<close>

definition leave :: "policy \<Rightarrow> 'e kops \<Rightarrow> nat \<Rightarrow> lockst \<Rightarrow> 'e kst \<Rightarrow> ('f trap_outcome \<times> 'e kst) kres" where
  "leave pol ops c L s = and_then (exit pol ops c L s) (\<lambda>s. Inr (Gone, s))"

definition trap_tail :: "policy \<Rightarrow> 'e kops \<Rightarrow> nat \<Rightarrow> trapframe \<Rightarrow> 'e kst \<Rightarrow> ('f trap_outcome \<times> 'e kst) kres" where
  "trap_tail pol ops c tf s =
     (if pol \<noteq> FCFS \<and> must_die c tf s then leave pol ops c (no_locks False) s else Inr (Returned, s))"

text \<open>Whether the running process \<open>p\<close> has to give up the CPU.\<close>

definition preempts :: "policy \<Rightarrow> trapframe \<Rightarrow> nat \<Rightarrow> 'e kst \<Rightarrow> bool" where
  "preempts pol tf p s =
     (p_state (ptable s p) = RUNNING \<and>
      (let timer = (tf_trapno tf = T_IRQ0 + IRQ_TIMER)
       in case pol of
            ROUND_ROBIN \<Rightarrow> timer
          | PBS \<Rightarrow> preempt (priority (ptable s p)) (if timer then 1 else 0) s
          | MLFQ \<Rightarrow> timer \<and> curtime (ptable s p) \<ge> slices s (qn (ptable s p))
          | FCFS \<Rightarrow> False))"

definition reschedule :: "policy \<Rightarrow> 'e kops \<Rightarrow> nat \<Rightarrow> trapframe \<Rightarrow> 'e kst \<Rightarrow> ('f trap_outcome \<times> 'e kst) kres" where
  "reschedule pol ops c tf s =
     (case c_proc (cpus s c) of
        None \<Rightarrow> trap_tail pol ops c tf s
      | Some p \<Rightarrow>
          if preempts pol tf p s
          then and_then (yield pol c (no_locks False) (if pol = MLFQ then upd_proc p (\<lambda>x. x\<lparr>flagq := 1\<rparr>) s else s))
                 (\<lambda>(_, s). Inr (Preempted, s))
          else trap_tail pol ops c tf s)"

text \<open>What follows \<^verbatim>\<open>syscall()\<close>.\<close>

definition syscall_tail :: "policy \<Rightarrow> 'a vst_scheme kops \<Rightarrow> nat \<Rightarrow> 'f outcome \<times> 'a vkst \<Rightarrow> ('f trap_outcome \<times> 'a vkst) kres" where
  "syscall_tail pol ops c = (\<lambda>(r, s). case r of
       Exited \<Rightarrow> Inr (Gone, s)
     | Blocked b \<Rightarrow> Inr (Waiting b, s)
     | Ret _ \<Rightarrow> with_proc c s (\<lambda>p. if p_killed (ptable s p) then leave pol ops c (no_locks True) s else Inr (Returned, s)))"

definition trap :: "policy \<Rightarrow> 'a vst_scheme kops \<Rightarrow> (nat \<Rightarrow> ('a, 'f) call) \<Rightarrow> 'a vst_scheme devices \<Rightarrow> nat \<Rightarrow> trapframe \<Rightarrow> 'a vkst \<Rightarrow> ('f trap_outcome \<times> 'a vkst) kres" where
  "trap pol ops files dev c tf s =
     (if tf_trapno tf = T_SYSCALL then
        with_proc c s (\<lambda>p.
          if p_killed (ptable s p) then leave pol ops c (no_locks True) s
          else and_then (syscall pol ops files c (upd_proc p (\<lambda>x. x\<lparr>p_tf := tf\<rparr>) s)) (syscall_tail pol ops c))
      else and_then (interrupt pol dev c tf s) (\<lambda>s.
        if must_die c tf s then leave pol ops c (no_locks False) s else reschedule pol ops c tf s))"

definition trap_resume :: "policy \<Rightarrow> 'a vst_scheme kops \<Rightarrow> ('f \<Rightarrow> ('a, 'f) call) \<Rightarrow> nat \<Rightarrow> 'f blocked \<Rightarrow> 'a vkst \<Rightarrow> ('f trap_outcome \<times> 'a vkst) kres" where
  "trap_resume pol ops again c b s = and_then (resume pol ops again b c s) (syscall_tail pol ops c)"

text \<open>
  A new process does not come from a trap: it runs \<^verbatim>\<open>forkret\<close>, whose caller on the stack that
  \<^verbatim>\<open>allocproc\<close> prepared is \<^verbatim>\<open>trapret\<close>, the return to user mode.
\<close>

definition first_return :: "'e kops \<Rightarrow> nat \<Rightarrow> lockst \<Rightarrow> bool \<Rightarrow> 'e kst \<Rightarrow> ('f trap_outcome \<times> bool \<times> 'e kst) kres" where
  "first_return ops c L first s = and_then (forkret ops c L first s) (\<lambda>(_, first, s). Inr (Returned, first, s))"

section \<open>Every entry into the kernel is made of its steps\<close>






















lemma leave_not_returned [simp]: "leave pol ops c L s \<noteq> Inr (Returned, t)"
  by (auto simp: leave_def and_then_Inr_iff)

















definition spurious_tf :: trapframe where
  "spurious_tf = zero_trapframe\<lparr>tf_trapno := 63, tf_cs := 0x1B\<rparr>"

lemma spurious_trap:
  assumes "c_proc (cpus s c) = Some p" "\<not> p_killed (ptable s p)"
  shows "\<exists>t. trap ROUND_ROBIN ops files dev c spurious_tf s = Inr (Returned, t) \<and> cpus t = cpus s \<and> ptable t = ptable s"
  using assms by (simp add: trap_def interrupt_def reschedule_def preempts_def trap_tail_def must_die_def spurious_tf_def
      T_SYSCALL_def T_IRQ0_def IRQ_TIMER_def IRQ_IDE_def IRQ_KBD_def IRQ_COM1_def IRQ_SPURIOUS_def printk_def)





section \<open>Returning to user mode\<close>

text \<open>Whatever \<^verbatim>\<open>forkret\<close> does, it leaves the process table alone.\<close>

lemma forkret_ptable: "forkret ops c L first s = Inr (L', first', t) \<Longrightarrow> ptable t = ptable s \<and> cpus t = cpus s"
  by (auto simp: forkret_def and_then_Inr_iff upd_env_Inr split: if_splits)

text \<open>A process that is killed before it has run returns to user mode.\<close>

lemma first_return_unchecked:
  assumes "only_lock c Ptable_lock L"
  shows "first_return ops c L False s = Inr (Returned, False, s)"
  using release_only [OF assms] by (auto simp: first_return_def forkret_def)

lemma syscall_tail_alive:
  assumes "syscall_tail pol ops c x = Inr (Returned, t)" "c_proc (cpus t c) = Some p"
  shows "\<not> p_killed (ptable t p)"
  using assms by (auto simp: syscall_tail_def with_proc_def split: prod.splits outcome.splits option.splits if_splits)

lemma trap_tail_alive: "trap_tail pol ops c tf u = Inr (Returned, t) \<Longrightarrow> \<not> must_die c tf u \<or> pol \<noteq> FCFS \<Longrightarrow> \<not> must_die c tf t"
  by (auto simp: trap_tail_def split: if_splits)

lemma reschedule_alive: "reschedule pol ops c tf u = Inr (Returned, t) \<Longrightarrow> \<not> must_die c tf u \<Longrightarrow> \<not> must_die c tf t"
  using trap_tail_alive [of pol ops c tf u t] by (auto simp: reschedule_def and_then_Inr_iff split: option.splits if_splits)

text \<open>C22: when the trap handler returns to the user code it interrupted, from the trap itself,
  from a system call that slept (in the file system too), or from a preemption, the process on the
  CPU has not been killed. The one return to user mode with no such check is the first one of
  a new process, by \<^verbatim>\<open>forkret\<close>: it leaves the mark of a killed process as it is.\<close>

theorem killed_returns_once_at_most:
  assumes "c_proc (cpus t c) = Some p"
  shows "(user_mode tf
      \<and> (trap pol ops files dev c tf s = Inr (Returned, t) \<or> trap_resume pol ops again c b s = Inr (Returned, t)
         \<or> pol \<noteq> FCFS \<and> trap_tail pol ops c tf s = Inr (Returned, t)) \<longrightarrow> \<not> p_killed (ptable t p))
    \<and> (first_return ops c L first s = Inr (Returned, first', t) \<longrightarrow>
         c_proc (cpus s c) = Some p \<and> p_killed (ptable t p) = p_killed (ptable s p))"
proof (intro conjI impI; (elim conjE)?)
  assume u: "user_mode tf" and r: "trap pol ops files dev c tf s = Inr (Returned, t) \<or> trap_resume pol ops again c b s = Inr (Returned, t)
         \<or> pol \<noteq> FCFS \<and> trap_tail pol ops c tf s = Inr (Returned, t)"
  have die: "must_die c tf t \<longleftrightarrow> p_killed (ptable t p)" using assms u by (simp add: must_die_def)
  from r show "\<not> p_killed (ptable t p)"
  proof (elim disjE conjE)
    assume t: "trap pol ops files dev c tf s = Inr (Returned, t)"
    show ?thesis
    proof (cases "tf_trapno tf = T_SYSCALL")
      case True
      then show ?thesis using t assms
        by (auto simp: trap_def with_proc_def and_then_Inr_iff split: option.splits if_splits dest: syscall_tail_alive)
    next
      case False
      then show ?thesis using t die by (auto simp: trap_def and_then_Inr_iff split: if_splits dest: reschedule_alive)
    qed
  next
    assume "trap_resume pol ops again c b s = Inr (Returned, t)"
    then show ?thesis using assms by (auto simp: trap_resume_def and_then_Inr_iff dest: syscall_tail_alive)
  next
    assume "pol \<noteq> FCFS" "trap_tail pol ops c tf s = Inr (Returned, t)"
    then show ?thesis using trap_tail_alive die by blast
  qed
next
  assume "first_return ops c L first s = Inr (Returned, first', t)"
  then have "ptable t = ptable s \<and> cpus t = cpus s" by (auto simp: first_return_def and_then_Inr_iff dest!: forkret_ptable)
  then show "c_proc (cpus s c) = Some p" "p_killed (ptable t p) = p_killed (ptable s p)" using assms by simp_all
qed

theorem killed_returns_once_at_most_witness:
  "\<forall>files dev. \<exists>t. trap ROUND_ROBIN demo_ops files dev 0 spurious_tf (demo1 ROUND_ROBIN demo_vm) = Inr (Returned, t)
     \<and> \<not> p_killed (ptable t 0)"
proof (intro allI)
  fix files :: "nat \<Rightarrow> (unit, 'f) call" and dev :: "vst devices"
  let ?s = "demo1 ROUND_ROBIN demo_vm"
  obtain t where t: "trap ROUND_ROBIN demo_ops files dev 0 spurious_tf ?s = Inr (Returned, t)" "cpus t = cpus ?s"
    using spurious_trap [OF demo1_facts(1,8)] by blast
  have "c_proc (cpus t 0) = Some 0" using t(2) demo1_facts(1) [of demo_vm] by simp
  from killed_returns_once_at_most [OF this, where tf = spurious_tf and s = ?s and files = files and dev = dev and pol = ROUND_ROBIN
      and ops = demo_ops and again = "\<lambda>_ _ s. Inr (Exited, s)" and b = In_wait and L = "no_locks False" and first = False and first' = False]
  show "\<exists>t. trap ROUND_ROBIN demo_ops files dev 0 spurious_tf ?s = Inr (Returned, t) \<and> \<not> p_killed (ptable t 0)"
    using t by (auto simp: user_mode_def spurious_tf_def)
qed

text \<open>C23: under the priority scheduler every timer interrupt takes the CPU from the running
  process: \<^verbatim>\<open>preempt\<close> looks for a process of the same priority and finds the running
  process itself.\<close>

theorem pbs_timer_always_preempts:
  assumes "reachable PBS ops s" "c_proc (cpus s c) = Some p" "tf_trapno tf = T_IRQ0 + IRQ_TIMER"
  shows "preempts PBS tf p s"
proof -
  note inv = reachable_kinv [OF assms(1)]
  note r = running_slot [OF inv assms(2)]
  have "p_pid (ptable s p) \<noteq> 0" using kinvD(2) [OF inv] r(2,3) unfolding pid_inv_def by auto
  then have "preempt (priority (ptable s p)) 1 s" using r(2) by (auto simp: preempt_def list_ex_iff)
  then show ?thesis using r(3) assms(3) by (simp add: preempts_def)
qed

theorem pbs_timer_always_preempts_witness:
  "\<exists>p. c_proc (cpus (demo1 PBS ()) 0) = Some p \<and> preempts PBS (zero_trapframe\<lparr>tf_trapno := 32\<rparr>) p (demo1 PBS ())"
proof -
  have "publish PBS = (publish ROUND_ROBIN :: nat \<Rightarrow> unit kst \<Rightarrow> unit kst)" by (simp add: fun_eq_iff publish_def)
  then have e: "demo0 PBS () = demo0 ROUND_ROBIN ()" by (simp only: demo0_def userinit_def)
  have "pbs_step 0 (demo0 PBS ()) = Inr (demo1 PBS ())" using demo1_step [of PBS "()"] by (simp add: scheduler_step_def)
  moreover have "find (runnable (demo0 PBS ())) [0..<NPROC] \<noteq> None"
    using demo0_slots(2) [of "()"] by (auto simp: find_upt_None_iff e NPROC_def intro!: exI [of _ 0])
  ultimately have "\<exists>p. c_proc (cpus (demo1 PBS ()) 0) = Some p"
    by (auto simp: pbs_step_def demo0_facts and_then_Inr_iff set_scan_def Let_def split: option.splits dest!: run_on_Inr(4))
      (drule sym, simp)
  then show ?thesis
    using pbs_timer_always_preempts [OF demo1_reachable [of PBS "()"], of 0 _ "zero_trapframe\<lparr>tf_trapno := 32\<rparr>"]
    by (auto simp: T_IRQ0_def IRQ_TIMER_def)
qed

end
