(* ===== verification/Bio.thy ===== *)
theory Bio
  imports Prelude
begin

text \<open>
  Sleep locks (\<^verbatim>\<open>sleeplock.c\<close>), the buffer cache (\<^verbatim>\<open>bio.c\<close>) and the disk under it
  (\<^verbatim>\<open>memide.c\<close>, the disk held in memory). The model follows one process through the file
  system: \<open>cur_pid\<close> is its process id. Where the code would wait for a lock that is held,
  the result is \<open>Inl ''sleep''\<close>.

  A pointer to a buffer is its index in \<^verbatim>\<open>bcache.buf\<close>, and \<open>NBUF\<close> stands for
  \<^verbatim>\<open>&bcache.head\<close>. The contents of a block are a function from offsets below \<^verbatim>\<open>BSIZE\<close>
  to bytes.
\<close>

section \<open>Sleep locks\<close>

record sleeplock =
  sl_locked :: bool
  sl_pid :: int

definition initsleeplock :: sleeplock where
  "initsleeplock = \<lparr>sl_locked = False, sl_pid = 0\<rparr>"

definition acquiresleep :: "int \<Rightarrow> sleeplock \<Rightarrow> sleeplock kres" where
  "acquiresleep pid lk = (if sl_locked lk then Inl ''sleep'' else Inr (lk\<lparr>sl_locked := True, sl_pid := pid\<rparr>))"

definition releasesleep :: "sleeplock \<Rightarrow> sleeplock" where
  "releasesleep lk = lk\<lparr>sl_locked := False, sl_pid := 0\<rparr>"

definition holdingsleep :: "int \<Rightarrow> sleeplock \<Rightarrow> bool" where
  "holdingsleep pid lk \<longleftrightarrow> sl_locked lk \<and> sl_pid lk = pid"

section \<open>Buffers\<close>

definition BSIZE :: nat where "BSIZE = 512"
definition NBUF :: nat where "NBUF = 30"

type_synonym bdata = "nat \<Rightarrow> u8"

record buf =
  b_valid :: bool
  b_dirty :: bool
  b_dev :: u32
  b_blockno :: u32
  b_lock :: sleeplock
  b_refcnt :: int
  b_prev :: nat
  b_next :: nat
  b_data :: bdata

text \<open>\<open>writes\<close> is the history of block writes that reached the disk.\<close>

record bst =
  bufs :: "nat \<Rightarrow> buf"
  disk :: "u32 \<Rightarrow> bdata"
  disksize :: u32
  writes :: "(u32 \<times> bdata) list"
  cur_pid :: int

definition upd_buf :: "nat \<Rightarrow> (buf \<Rightarrow> buf) \<Rightarrow> 'a bst_scheme \<Rightarrow> 'a bst_scheme" where
  "upd_buf b f s = s\<lparr>bufs := (bufs s)(b := f (bufs s b))\<rparr>"

lemma upd_buf_simps [simp]:
  "bufs (upd_buf b f s) = (bufs s)(b := f (bufs s b))" "disk (upd_buf b f s) = disk s"
  "disksize (upd_buf b f s) = disksize s" "writes (upd_buf b f s) = writes s" "cur_pid (upd_buf b f s) = cur_pid s"
  "bst.more (upd_buf b f s) = bst.more s"
  by (simp_all add: upd_buf_def)

definition link_front :: "nat \<Rightarrow> 'a bst_scheme \<Rightarrow> 'a bst_scheme" where
  "link_front b s =
     (let s = upd_buf b (\<lambda>x. x\<lparr>b_next := b_next (bufs s NBUF)\<rparr>) s;
          s = upd_buf b (\<lambda>x. x\<lparr>b_prev := NBUF\<rparr>) s;
          s = upd_buf (b_next (bufs s NBUF)) (\<lambda>x. x\<lparr>b_prev := b\<rparr>) s
      in upd_buf NBUF (\<lambda>x. x\<lparr>b_next := b\<rparr>) s)"

definition binit :: "'a bst_scheme \<Rightarrow> 'a bst_scheme" where
  "binit s =
     (let s = upd_buf NBUF (\<lambda>x. x\<lparr>b_prev := NBUF, b_next := NBUF\<rparr>) s
      in fold (\<lambda>b s. link_front b (upd_buf b (\<lambda>x. x\<lparr>b_lock := initsleeplock\<rparr>) s)) [0..<NBUF] s)"

text \<open>
  The loops of \<^verbatim>\<open>bget\<close> follow \<open>nx\<close> from \<open>b\<close> until they are back at the head; the list has
  \<open>NBUF\<close> buffers, so \<open>NBUF + 1\<close> looks are enough.
\<close>

fun scan :: "nat \<Rightarrow> (nat \<Rightarrow> nat) \<Rightarrow> (nat \<Rightarrow> bool) \<Rightarrow> nat \<Rightarrow> nat option" where
  "scan 0 nx P b = None"
| "scan (Suc n) nx P b = (if b = NBUF then None else if P b then Some b else scan n nx P (nx b))"

definition lock_buf :: "nat \<Rightarrow> 'a bst_scheme \<Rightarrow> 'a bst_scheme kres" where
  "lock_buf b s = and_then (acquiresleep (cur_pid s) (b_lock (bufs s b))) (\<lambda>lk. Inr (upd_buf b (\<lambda>x. x\<lparr>b_lock := lk\<rparr>) s))"

definition bget :: "u32 \<Rightarrow> u32 \<Rightarrow> 'a bst_scheme \<Rightarrow> (nat \<times> 'a bst_scheme) kres" where
  "bget dev blockno s =
     (case scan (NBUF + 1) (\<lambda>b. b_next (bufs s b)) (\<lambda>b. b_dev (bufs s b) = dev \<and> b_blockno (bufs s b) = blockno)
             (b_next (bufs s NBUF)) of
        Some b \<Rightarrow>
          and_then (lock_buf b (upd_buf b (\<lambda>x. x\<lparr>b_refcnt := b_refcnt x + 1\<rparr>) s)) (\<lambda>s. Inr (b, s))
      | None \<Rightarrow>
          (case scan (NBUF + 1) (\<lambda>b. b_prev (bufs s b)) (\<lambda>b. b_refcnt (bufs s b) = 0 \<and> \<not> b_dirty (bufs s b))
                  (b_prev (bufs s NBUF)) of
             Some b \<Rightarrow>
               and_then (lock_buf b (upd_buf b (\<lambda>x. x\<lparr>b_dev := dev, b_blockno := blockno, b_valid := False,
                           b_dirty := False, b_refcnt := 1\<rparr>) s)) (\<lambda>s. Inr (b, s))
           | None \<Rightarrow> Inl ''bget: no buffers''))"

definition iderw :: "nat \<Rightarrow> 'a bst_scheme \<Rightarrow> 'a bst_scheme kres" where
  "iderw b s =
     (let x = bufs s b
      in if \<not> holdingsleep (cur_pid s) (b_lock x) then Inl ''iderw: buf not locked''
         else if b_valid x \<and> \<not> b_dirty x then Inl ''iderw: nothing to do''
         else if b_dev x \<noteq> 1 then Inl ''iderw: request not for disk 1''
         else if b_blockno x \<ge> disksize s then Inl ''iderw: block out of range''
         else if b_dirty x
         then Inr ((upd_buf b (\<lambda>x. x\<lparr>b_dirty := False, b_valid := True\<rparr>) s)
                   \<lparr>disk := (disk s)(b_blockno x := b_data x), writes := writes s @ [(b_blockno x, b_data x)]\<rparr>)
         else Inr (upd_buf b (\<lambda>y. y\<lparr>b_data := disk s (b_blockno x), b_valid := True\<rparr>) s))"

definition bread :: "u32 \<Rightarrow> u32 \<Rightarrow> 'a bst_scheme \<Rightarrow> (nat \<times> 'a bst_scheme) kres" where
  "bread dev blockno s =
     and_then (bget dev blockno s) (\<lambda>(b, s).
       if \<not> b_valid (bufs s b) then and_then (iderw b s) (\<lambda>s. Inr (b, s)) else Inr (b, s))"

definition bwrite :: "nat \<Rightarrow> 'a bst_scheme \<Rightarrow> 'a bst_scheme kres" where
  "bwrite b s =
     (if \<not> holdingsleep (cur_pid s) (b_lock (bufs s b)) then Inl ''bwrite''
      else iderw b (upd_buf b (\<lambda>x. x\<lparr>b_dirty := True\<rparr>) s))"

text \<open>Take \<open>b\<close> out of the list; then it is linked in at the front.\<close>

definition unlink :: "nat \<Rightarrow> 'a bst_scheme \<Rightarrow> 'a bst_scheme" where
  "unlink b s =
     (let s = upd_buf (b_next (bufs s b)) (\<lambda>x. x\<lparr>b_prev := b_prev (bufs s b)\<rparr>) s
      in upd_buf (b_prev (bufs s b)) (\<lambda>x. x\<lparr>b_next := b_next (bufs s b)\<rparr>) s)"

definition brelse :: "nat \<Rightarrow> 'a bst_scheme \<Rightarrow> 'a bst_scheme kres" where
  "brelse b s =
     (if \<not> holdingsleep (cur_pid s) (b_lock (bufs s b)) then Inl ''brelse''
      else
        let s = upd_buf b (\<lambda>x. x\<lparr>b_lock := releasesleep (b_lock x), b_refcnt := b_refcnt x - 1\<rparr>) s
        in if b_refcnt (bufs s b) = 0 then Inr (link_front b (unlink b s)) else Inr s)"

end
