(* ===== verification/Log.thy ===== *)
theory Log
  imports Bio
begin

text \<open>
  The logging layer of the file system (\<^verbatim>\<open>log.c\<close>), with \<^verbatim>\<open>readsb\<close> of \<^verbatim>\<open>fs.c\<close>, which it calls.

  A C structure laid over the bytes of a block is read and written with \<open>get16\<close>, \<open>get32\<close>,
  \<open>put16\<close> and \<open>put32\<close> at the offsets of its fields (little endian). Integers that only travel as
  block numbers are kept as their 32-bit patterns; a count that is compared is read with its
  sign. \<^verbatim>\<open>memmove\<close> of a whole block is an assignment of its contents.
\<close>

section \<open>Fields of a block\<close>

definition get16 :: "bdata \<Rightarrow> nat \<Rightarrow> u16" where
  "get16 d i = ucast (d i) OR push_bit 8 (ucast (d (i + 1)))"

definition get32 :: "bdata \<Rightarrow> nat \<Rightarrow> u32" where
  "get32 d i = ucast (d i) OR push_bit 8 (ucast (d (i + 1))) OR push_bit 16 (ucast (d (i + 2))) OR push_bit 24 (ucast (d (i + 3)))"

definition put16 :: "nat \<Rightarrow> u16 \<Rightarrow> bdata \<Rightarrow> bdata" where
  "put16 i w d = d(i := ucast w, i + 1 := ucast (drop_bit 8 w))"

definition put32 :: "nat \<Rightarrow> u32 \<Rightarrow> bdata \<Rightarrow> bdata" where
  "put32 i w d = d(i := ucast w, i + 1 := ucast (drop_bit 8 w), i + 2 := ucast (drop_bit 16 w), i + 3 := ucast (drop_bit 24 w))"

lemma get16_put16 [simp]: "get16 (put16 i w d) i = w"
  by (rule bit_eqI) (auto simp: get16_def put16_def bit_simps)

lemma get16_put16_other: "i + 2 \<le> j \<or> j + 2 \<le> i \<Longrightarrow> get16 (put16 i w d) j = get16 d j"
  by (auto simp: get16_def put16_def)

lemma get32_put32 [simp]: "get32 (put32 i w d) i = w"
proof (rule bit_word_eqI)
  fix n assume "n < LENGTH(32)"
  then consider "n < 8" | "8 \<le> n" "n < 16" | "16 \<le> n" "n < 24" | "24 \<le> n" "n < 32" by fastforce
  then show "bit (get32 (put32 i w d) i) n \<longleftrightarrow> bit w n"
    by cases (simp_all add: get32_def put32_def bit_simps less_diff_conv2)
qed

lemma get32_put32_other: "i + 4 \<le> j \<or> j + 4 \<le> i \<Longrightarrow> get32 (put32 i w d) j = get32 d j"
  by (auto simp: get32_def put32_def)

section \<open>The super block\<close>

record superblock =
  sb_size :: u32
  sb_nblocks :: u32
  sb_ninodes :: u32
  sb_nlog :: u32
  sb_logstart :: u32
  sb_inodestart :: u32
  sb_bmapstart :: u32

definition sb_of :: "bdata \<Rightarrow> superblock" where
  "sb_of d = \<lparr>sb_size = get32 d 0, sb_nblocks = get32 d 4, sb_ninodes = get32 d 8, sb_nlog = get32 d 12,
              sb_logstart = get32 d 16, sb_inodestart = get32 d 20, sb_bmapstart = get32 d 24\<rparr>"

definition readsb :: "u32 \<Rightarrow> 'a bst_scheme \<Rightarrow> (superblock \<times> 'a bst_scheme) kres" where
  "readsb dev s =
     and_then (bread dev 1 s) (\<lambda>(bp, s).
       let sb = sb_of (b_data (bufs s bp))
       in and_then (brelse bp s) (\<lambda>s. Inr (sb, s)))"

section \<open>The log\<close>

definition MAXOPBLOCKS :: int where "MAXOPBLOCKS = 10"
definition LOGSIZE :: int where "LOGSIZE = MAXOPBLOCKS * 3"

record logst = bst +
  lg_start :: u32
  lg_size :: int
  lg_outstanding :: int
  lg_committing :: bool
  lg_dev :: u32
  lh_n :: int
  lh_block :: "nat \<Rightarrow> u32"

text \<open>One turn of the loop of \<^verbatim>\<open>install_trans\<close>.\<close>

definition install_one :: "nat \<Rightarrow> 'a logst_scheme \<Rightarrow> 'a logst_scheme kres" where
  "install_one tail s =
     and_then (bread (lg_dev s) (lg_start s + of_nat tail + 1) s) (\<lambda>(lbuf, s).
     and_then (bread (lg_dev s) (lh_block s tail) s) (\<lambda>(dbuf, s).
     let s = upd_buf dbuf (\<lambda>x. x\<lparr>b_data := b_data (bufs s lbuf)\<rparr>) s
     in and_then (bwrite dbuf s) (\<lambda>s. and_then (brelse lbuf s) (brelse dbuf))))"

definition install_trans :: "'a logst_scheme \<Rightarrow> 'a logst_scheme kres" where
  "install_trans s = foldk install_one [0..<nat (lh_n s)] s"

text \<open>A count above \<^verbatim>\<open>LOGSIZE\<close> makes the loop run over the end of \<^verbatim>\<open>log.lh.block\<close>.\<close>

definition read_head :: "'a logst_scheme \<Rightarrow> 'a logst_scheme kres" where
  "read_head s =
     and_then (bread (lg_dev s) (lg_start s) s) (\<lambda>(b, s).
       let lh = b_data (bufs s b);
           s = s\<lparr>lh_n := sint (get32 lh 0)\<rparr>
       in if lh_n s > LOGSIZE then Inl ''overrun''
          else let s = s\<lparr>lh_block := (\<lambda>i. if i < nat (lh_n s) then get32 lh (4 + 4 * i) else lh_block s i)\<rparr>
               in brelse b s)"

definition put_head :: "int \<Rightarrow> (nat \<Rightarrow> u32) \<Rightarrow> bdata \<Rightarrow> bdata" where
  "put_head n blocks d = fold (\<lambda>i. put32 (4 + 4 * i) (blocks i)) [0..<nat n] (put32 0 (of_int n) d)"

definition write_head :: "'a logst_scheme \<Rightarrow> 'a logst_scheme kres" where
  "write_head s =
     and_then (bread (lg_dev s) (lg_start s) s) (\<lambda>(b, s).
       let s = upd_buf b (\<lambda>x. x\<lparr>b_data := put_head (lh_n s) (lh_block s) (b_data x)\<rparr>) s
       in and_then (bwrite b s) (brelse b))"

definition recover_from_log :: "'a logst_scheme \<Rightarrow> 'a logst_scheme kres" where
  "recover_from_log s =
     and_then (read_head s) (\<lambda>s.
     and_then (install_trans s) (\<lambda>s.
     write_head (s\<lparr>lh_n := 0\<rparr>)))"

text \<open>\<^verbatim>\<open>sizeof(struct logheader)\<close> is \<open>4 + 4 * LOGSIZE\<close>.\<close>

definition initlog :: "u32 \<Rightarrow> 'a logst_scheme \<Rightarrow> 'a logst_scheme kres" where
  "initlog dev s =
     (if 4 + 4 * LOGSIZE \<ge> int BSIZE then Inl ''initlog: too big logheader''
      else
        and_then (readsb dev s) (\<lambda>(sb, s).
          recover_from_log (s\<lparr>lg_start := sb_logstart sb, lg_size := sint (sb_nlog sb), lg_dev := dev\<rparr>)))"

definition begin_op :: "'a logst_scheme \<Rightarrow> 'a logst_scheme kres" where
  "begin_op s =
     (if lg_committing s then Inl ''sleep''
      else if lh_n s + (lg_outstanding s + 1) * MAXOPBLOCKS > LOGSIZE then Inl ''sleep''
      else Inr (s\<lparr>lg_outstanding := lg_outstanding s + 1\<rparr>))"

definition write_log_one :: "nat \<Rightarrow> 'a logst_scheme \<Rightarrow> 'a logst_scheme kres" where
  "write_log_one tail s =
     and_then (bread (lg_dev s) (lg_start s + of_nat tail + 1) s) (\<lambda>(to, s).
     and_then (bread (lg_dev s) (lh_block s tail) s) (\<lambda>(from, s).
     let s = upd_buf to (\<lambda>x. x\<lparr>b_data := b_data (bufs s from)\<rparr>) s
     in and_then (bwrite to s) (\<lambda>s. and_then (brelse from s) (brelse to))))"

definition write_log :: "'a logst_scheme \<Rightarrow> 'a logst_scheme kres" where
  "write_log s = foldk write_log_one [0..<nat (lh_n s)] s"

definition commit :: "'a logst_scheme \<Rightarrow> 'a logst_scheme kres" where
  "commit s =
     (if lh_n s > 0
      then and_then (write_log s) (\<lambda>s.
           and_then (write_head s) (\<lambda>s.
           and_then (install_trans s) (\<lambda>s.
           write_head (s\<lparr>lh_n := 0\<rparr>))))
      else Inr s)"

definition end_op :: "'a logst_scheme \<Rightarrow> 'a logst_scheme kres" where
  "end_op s =
     (let s = s\<lparr>lg_outstanding := lg_outstanding s - 1\<rparr>
      in if lg_committing s then Inl ''log.committing''
         else if lg_outstanding s = 0
         then and_then (commit (s\<lparr>lg_committing := True\<rparr>)) (\<lambda>s. Inr (s\<lparr>lg_committing := False\<rparr>))
         else Inr s)"

definition log_write :: "nat \<Rightarrow> 'a logst_scheme \<Rightarrow> 'a logst_scheme kres" where
  "log_write b s =
     (if lh_n s \<ge> LOGSIZE \<or> lh_n s \<ge> lg_size s - 1 then Inl ''too big a transaction''
      else if lg_outstanding s < 1 then Inl ''log_write outside of trans''
      else
        let i = (case find (\<lambda>i. lh_block s i = b_blockno (bufs s b)) [0..<nat (lh_n s)] of
                   Some i \<Rightarrow> i | None \<Rightarrow> nat (lh_n s));
            s = s\<lparr>lh_block := (lh_block s)(i := b_blockno (bufs s b))\<rparr>;
            s = (if int i = lh_n s then s\<lparr>lh_n := lh_n s + 1\<rparr> else s)
        in Inr (upd_buf b (\<lambda>x. x\<lparr>b_dirty := True\<rparr>) s))"

end
