(* ===== verification/BioInv.thy ===== *)
theory BioInv
  imports Bio
begin

text \<open>
  The buffer cache refines a list of buffers in order of their last release and a map from
  block numbers to contents. The first part shows that the doubly linked list is always the
  linking of some list of all buffers and what the operations do to that list; the second
  part is the contract that the log and the file system rely on.
\<close>

section \<open>Doubly linked lists\<close>

text \<open>From \<open>a\<close> the links lead through \<open>xs\<close> to \<open>z\<close>, and back.\<close>

fun chain :: "(nat \<Rightarrow> nat) \<Rightarrow> (nat \<Rightarrow> nat) \<Rightarrow> nat \<Rightarrow> nat list \<Rightarrow> nat \<Rightarrow> bool" where
  "chain nx pv a [] z \<longleftrightarrow> nx a = z \<and> pv z = a"
| "chain nx pv a (x # xs) z \<longleftrightarrow> nx a = x \<and> pv x = a \<and> chain nx pv x xs z"

lemma chain_append: "chain nx pv a (xs @ y # ys) z \<longleftrightarrow> chain nx pv a xs y \<and> chain nx pv y ys z"
  by (induction xs arbitrary: a) auto

lemma chain_rev: "chain nx pv a xs z \<longleftrightarrow> chain pv nx z (rev xs) a"
  by (induction xs arbitrary: a) (auto simp: chain_append)

lemma chain_cong:
  assumes "\<forall>x \<in> insert a (set xs). nx' x = nx x" "\<forall>x \<in> insert z (set xs). pv' x = pv x"
  shows "chain nx' pv' a xs z \<longleftrightarrow> chain nx pv a xs z"
  using assms by (induction xs arbitrary: a) auto

lemma chain_ends: "chain nx pv a xs z \<Longrightarrow> nx a = hd (xs @ [z])" "chain nx pv a xs z \<Longrightarrow> pv z = last (a # xs)"
  by (induction xs arbitrary: a) auto

lemma chain_unlink:
  assumes "chain nx pv a (as @ b # cs) z" "distinct (as @ b # cs)" "a \<notin> set (as @ b # cs)" "z \<notin> set (as @ b # cs)"
    and upd: "nx' (pv b) = nx b" "\<And>x. x \<noteq> pv b \<Longrightarrow> nx' x = nx x" "pv' (nx b) = pv b" "\<And>x. x \<noteq> nx b \<Longrightarrow> pv' x = pv x"
  shows "chain nx' pv' a (as @ cs) z"
  using assms(1-4)
proof (induction as arbitrary: a)
  case Nil
  then have n: "nx a = b" "pv b = a" "chain nx pv b cs z" by simp_all
  show ?case
  proof (cases cs)
    case Nil
    then show ?thesis using n upd by auto
  next
    case (Cons c cs')
    then have "chain nx' pv' c cs' z \<longleftrightarrow> chain nx pv c cs' z"
      using Nil.prems n upd by (intro chain_cong) (simp_all, metis+)
    then show ?thesis using n Cons upd by auto
  qed
next
  case (Cons x as)
  from Cons.prems(1) have c: "chain nx pv x (as @ b # cs) z" "nx a = x" "pv x = a" by simp_all
  have ih: "chain nx' pv' x (as @ cs) z"
    using Cons.IH [OF c(1)] Cons.prems by simp
  have b: "chain nx pv x as b" "chain nx pv b cs z" using c(1) by (simp_all add: chain_append)
  have "last (x # as) \<in> set (x # as)" by (rule last_in_set) simp
  then have "pv b \<noteq> a" using chain_ends(2) [OF b(1)] Cons.prems(3) by auto
  moreover have "nx b \<noteq> x" using chain_ends(1) [OF b(2)] Cons.prems(2,4) by (cases cs) auto
  ultimately show ?case using ih c upd by simp
qed

lemma chain_front:
  assumes "chain nx pv h xs h" "b \<notin> set xs" "b \<noteq> h" "h \<notin> set xs" "distinct xs"
    and upd: "nx' b = nx h" "nx' h = b" "\<And>x. x \<noteq> b \<Longrightarrow> x \<noteq> h \<Longrightarrow> nx' x = nx x"
      "pv' b = h" "pv' (nx h) = b" "\<And>x. x \<noteq> b \<Longrightarrow> x \<noteq> nx h \<Longrightarrow> pv' x = pv x"
  shows "chain nx' pv' h (b # xs) h"
proof (cases xs)
  case Nil
  then show ?thesis using assms(1) upd(1,2,4,5) by simp
next
  case (Cons x xs')
  have x: "nx h = x" "chain nx pv x xs' h" "x \<noteq> h" "x \<noteq> b" using assms(1-4) Cons by simp_all
  have d: "b \<notin> set xs'" "h \<notin> set xs'" "x \<notin> set xs'" using assms(2,4,5) Cons by simp_all
  have "y \<noteq> b \<and> y \<noteq> h" if "y \<in> insert x (set xs')" for y using that x d by auto
  moreover have "y \<noteq> b \<and> y \<noteq> nx h" if "y \<in> insert h (set xs')" for y using that x d assms(3) by auto
  ultimately have "chain nx' pv' x xs' h \<longleftrightarrow> chain nx pv x xs' h"
    using upd(3,6) by (intro chain_cong ballI) simp_all
  then show ?thesis using x upd(1,2,4,5) Cons by simp
qed

lemma scan_chain:
  assumes "chain nx pv a xs NBUF" "NBUF \<notin> set xs" "length xs < n"
  shows "scan n nx P (nx a) = find P xs"
  using assms
proof (induction xs arbitrary: a n)
  case Nil
  then show ?case by (cases n) simp_all
next
  case (Cons x xs)
  then show ?case by (cases n) auto
qed

lemma find_SomeD: "find P xs = Some b \<Longrightarrow> P b" "find P xs = Some b \<Longrightarrow> b \<in> set xs"
  by (induction xs) (auto split: if_splits)

section \<open>The list of buffers\<close>

abbreviation nexts :: "'a bst_scheme \<Rightarrow> nat \<Rightarrow> nat" where
  "nexts s \<equiv> \<lambda>b. b_next (bufs s b)"

abbreviation prevs :: "'a bst_scheme \<Rightarrow> nat \<Rightarrow> nat" where
  "prevs s \<equiv> \<lambda>b. b_prev (bufs s b)"

text \<open>The buffers, most recently released first.\<close>

definition mru :: "'a bst_scheme \<Rightarrow> nat list \<Rightarrow> bool" where
  "mru s xs \<longleftrightarrow> distinct xs \<and> set xs = {..<NBUF} \<and> chain (nexts s) (prevs s) NBUF xs NBUF"

lemma mru_length: "mru s xs \<Longrightarrow> length xs = NBUF"
  by (metis mru_def card_lessThan distinct_card)

lemma mru_not_head: "mru s xs \<Longrightarrow> NBUF \<notin> set xs"
  by (simp add: mru_def)

lemma mru_scan:
  assumes "mru s xs"
  shows "scan (NBUF + 1) (nexts s) P (b_next (bufs s NBUF)) = find P xs"
    "scan (NBUF + 1) (prevs s) P (b_prev (bufs s NBUF)) = find P (rev xs)"
proof -
  have c: "chain (nexts s) (prevs s) NBUF xs NBUF" "chain (prevs s) (nexts s) NBUF (rev xs) NBUF"
    using assms chain_rev [of "nexts s" "prevs s"] by (simp_all add: mru_def)
  show "scan (NBUF + 1) (nexts s) P (b_next (bufs s NBUF)) = find P xs"
    using scan_chain [OF c(1), of "NBUF + 1" P] mru_length [OF assms] mru_not_head [OF assms] by simp
  show "scan (NBUF + 1) (prevs s) P (b_prev (bufs s NBUF)) = find P (rev xs)"
    using scan_chain [OF c(2), of "NBUF + 1" P] mru_length [OF assms] mru_not_head [OF assms] by simp
qed

lemma mru_link_front:
  assumes c: "chain (nexts s) (prevs s) NBUF xs NBUF" and d: "distinct xs" "b \<notin> set xs" "b \<noteq> NBUF" "NBUF \<notin> set xs"
  shows "chain (nexts (link_front b s)) (prevs (link_front b s)) NBUF (b # xs) NBUF"
proof -
  have "nexts s NBUF \<noteq> b" using chain_ends(1) [OF c] d by (cases xs) auto
  then show ?thesis
    using d by (intro chain_front [OF c]) (auto simp: link_front_def Let_def)
qed

lemma mru_unlink:
  assumes c: "chain (nexts s) (prevs s) NBUF (as @ b # cs) NBUF" and d: "distinct (as @ b # cs)" "NBUF \<notin> set (as @ b # cs)"
  shows "chain (nexts (unlink b s)) (prevs (unlink b s)) NBUF (as @ cs) NBUF"
proof -
  have "chain (nexts s) (prevs s) NBUF as b" "chain (nexts s) (prevs s) b cs NBUF" using c by (simp_all add: chain_append)
  then have "nexts s b = hd (cs @ [NBUF])" "prevs s b = last (NBUF # as)" by (auto dest: chain_ends)
  moreover have "hd (cs @ [NBUF]) \<noteq> b" using d by (cases cs) auto
  moreover have "last (NBUF # as) \<noteq> b" using d by (cases as rule: rev_cases) auto
  ultimately have "nexts s b \<noteq> b" "prevs s b \<noteq> b" by simp_all
  then show ?thesis
    using d by (intro chain_unlink [OF c]) (auto simp: unlink_def Let_def)
qed

text \<open>What the operations leave alone: everything but the links.\<close>

definition content_of :: "buf \<Rightarrow> bool \<times> bool \<times> u32 \<times> u32 \<times> sleeplock \<times> int \<times> bdata" where
  "content_of x = (b_valid x, b_dirty x, b_dev x, b_blockno x, b_lock x, b_refcnt x, b_data x)"

lemma content_of_eq: "content_of x = content_of y \<longleftrightarrow> b_valid x = b_valid y \<and> b_dirty x = b_dirty y \<and> b_dev x = b_dev y
    \<and> b_blockno x = b_blockno y \<and> b_lock x = b_lock y \<and> b_refcnt x = b_refcnt y \<and> b_data x = b_data y"
  by (auto simp: content_of_def)

lemma link_content [simp]: "content_of (bufs (link_front b s) i) = content_of (bufs s i)"
  "content_of (bufs (unlink b s) i) = content_of (bufs s i)"
  by (simp_all add: link_front_def unlink_def Let_def content_of_def)

lemma link_frame [simp]: "disk (link_front b s) = disk s" "disksize (link_front b s) = disksize s" "writes (link_front b s) = writes s"
  "cur_pid (link_front b s) = cur_pid s" "bst.more (link_front b s) = bst.more s"
  "disk (unlink b s) = disk s" "disksize (unlink b s) = disksize s" "writes (unlink b s) = writes s"
  "cur_pid (unlink b s) = cur_pid s" "bst.more (unlink b s) = bst.more s"
  by (simp_all add: link_front_def unlink_def Let_def)

lemma mru_upd: "(\<And>x. b_next (f x) = b_next x \<and> b_prev (f x) = b_prev x) \<Longrightarrow> mru (upd_buf b f s) xs = mru s xs"
  unfolding mru_def by (subst chain_cong [where nx = "nexts s" and pv = "prevs s"]) simp_all

lemma mru_move:
  assumes m: "mru s xs" and b: "b < NBUF"
  shows "mru (link_front b (unlink b s)) (b # remove1 b xs)"
proof -
  obtain as cs where xs: "xs = as @ b # cs" "b \<notin> set as" using m b by (metis lessThan_iff mru_def split_list_first)
  have c: "distinct (as @ b # cs)" "NBUF \<notin> set (as @ b # cs)" "chain (nexts s) (prevs s) NBUF (as @ b # cs) NBUF"
    using m mru_not_head [OF m] xs by (simp_all add: mru_def)
  have "chain (nexts (link_front b (unlink b s))) (prevs (link_front b (unlink b s))) NBUF (b # as @ cs) NBUF"
    by (rule mru_link_front [OF mru_unlink [OF c(3,1,2)]]) (use c b in auto)
  then show ?thesis using m c xs by (auto simp: mru_def remove1_append)
qed

section \<open>The contract of the cache\<close>

text \<open>
  The state of the cache while one process runs in the file system: a buffer is referenced
  exactly while it is locked, no block is cached twice, and a buffer that is neither dirty
  nor locked holds what is on the disk.
\<close>

definition slot_ok :: "'a bst_scheme \<Rightarrow> nat \<Rightarrow> bool" where
  "slot_ok s i \<longleftrightarrow> (let x = bufs s i in
     b_dev x = (if b_valid x then 1 else 0) \<and> b_refcnt x = (if sl_locked (b_lock x) then 1 else 0)
     \<and> (sl_locked (b_lock x) \<longrightarrow> b_valid x \<and> sl_pid (b_lock x) = cur_pid s) \<and> (b_dirty x \<longrightarrow> b_valid x)
     \<and> (b_valid x \<longrightarrow> b_blockno x < disksize s)
     \<and> (b_valid x \<and> \<not> b_dirty x \<and> \<not> sl_locked (b_lock x) \<longrightarrow> b_data x = disk s (b_blockno x)))"

definition caches :: "'a bst_scheme \<Rightarrow> nat \<Rightarrow> u32 \<Rightarrow> bool" where
  "caches s i n \<longleftrightarrow> i < NBUF \<and> b_valid (bufs s i) \<and> b_blockno (bufs s i) = n"

definition cache_ok :: "'a bst_scheme \<Rightarrow> bool" where
  "cache_ok s \<longleftrightarrow> (\<exists>xs. mru s xs) \<and> (\<forall>i < NBUF. slot_ok s i) \<and> (\<forall>i j n. caches s i n \<longrightarrow> caches s j n \<longrightarrow> i = j)"

text \<open>What the file system sees: the contents of the blocks, those it holds, and those that are dirty.\<close>

definition view :: "'a bst_scheme \<Rightarrow> u32 \<Rightarrow> bdata" where
  "view s n = (case find (\<lambda>i. caches s i n) [0..<NBUF] of Some i \<Rightarrow> b_data (bufs s i) | None \<Rightarrow> disk s n)"

definition holds :: "'a bst_scheme \<Rightarrow> nat \<Rightarrow> u32 \<Rightarrow> bool" where
  "holds s i n \<longleftrightarrow> caches s i n \<and> sl_locked (b_lock (bufs s i))"

definition heldb :: "'a bst_scheme \<Rightarrow> u32 set" where
  "heldb s = {n. \<exists>i. holds s i n}"

definition dirtyb :: "'a bst_scheme \<Rightarrow> u32 set" where
  "dirtyb s = {n. \<exists>i. caches s i n \<and> b_dirty (bufs s i)}"

lemma cache_slot: "cache_ok s \<Longrightarrow> i < NBUF \<Longrightarrow> slot_ok s i"
  by (simp add: cache_ok_def)

lemma cache_unique: "cache_ok s \<Longrightarrow> caches s i n \<Longrightarrow> caches s j n \<Longrightarrow> i = j"
  by (auto simp: cache_ok_def)

lemma view_cached:
  assumes "cache_ok s" "caches s i n"
  shows "view s n = b_data (bufs s i)"
proof -
  have i: "i < NBUF" using assms by (simp add: caches_def)
  have "find (\<lambda>i. caches s i n) [0..<NBUF] \<noteq> None" using assms i by (auto simp: find_None_iff)
  then obtain j where "find (\<lambda>i. caches s i n) [0..<NBUF] = Some j" by auto
  moreover from this have "j = i" using cache_unique [OF assms(1,2)] by (auto simp: find_Some_iff)
  ultimately show ?thesis by (simp add: view_def)
qed

lemma view_uncached: "(\<And>i. \<not> caches s i n) \<Longrightarrow> view s n = disk s n"
  by (simp add: view_def find_None_iff [THEN iffD2] split: option.split)

lemma view_eqI:
  assumes "cache_ok s" "cache_ok s'" "\<And>i. caches s' i n \<longleftrightarrow> caches s i n"
    "\<And>i. caches s i n \<Longrightarrow> b_data (bufs s' i) = b_data (bufs s i)" "disk s' n = disk s n \<or> (\<exists>i. caches s i n)"
  shows "view s' n = view s n"
proof (cases "\<exists>i. caches s i n")
  case True
  then show ?thesis using assms(1-4) view_cached by metis
next
  case False
  then show ?thesis using assms(3,5) view_uncached by metis
qed

text \<open>The buffers that cannot be recycled are as many as the blocks that are dirty or held.\<close>

lemma busy_card:
  assumes "cache_ok s"
  shows "card {i. i < NBUF \<and> (b_dirty (bufs s i) \<or> sl_locked (b_lock (bufs s i)))} = card (dirtyb s \<union> heldb s)"
    "finite (dirtyb s \<union> heldb s)"
proof -
  let ?B = "{i. i < NBUF \<and> (b_dirty (bufs s i) \<or> sl_locked (b_lock (bufs s i)))}"
  have v: "b_valid (bufs s i)" if "i \<in> ?B" for i
    using that cache_slot [OF assms, of i] by (auto simp: slot_ok_def Let_def)
  have "inj_on (\<lambda>i. b_blockno (bufs s i)) ?B"
  proof (rule inj_onI)
    fix i j assume "i \<in> ?B" "j \<in> ?B" "b_blockno (bufs s i) = b_blockno (bufs s j)"
    then show "i = j" using v by (intro cache_unique [OF assms, of i "b_blockno (bufs s i)"]) (simp_all add: caches_def)
  qed
  moreover have img: "(\<lambda>i. b_blockno (bufs s i)) ` ?B = dirtyb s \<union> heldb s"
    unfolding dirtyb_def heldb_def holds_def caches_def
    by (rule set_eqI, rule iffI) (use v in \<open>simp_all add: image_iff, blast+\<close>)
  ultimately show "card ?B = card (dirtyb s \<union> heldb s)" using card_image by fastforce
  show "finite (dirtyb s \<union> heldb s)" unfolding img [symmetric] by simp
qed

lemma spare_buffer:
  assumes "cache_ok s" "card (dirtyb s \<union> heldb s) < NBUF"
  obtains i where "i < NBUF" "\<not> b_dirty (bufs s i)" "\<not> sl_locked (b_lock (bufs s i))"
proof -
  have "{i. i < NBUF \<and> (b_dirty (bufs s i) \<or> sl_locked (b_lock (bufs s i)))} \<noteq> {..<NBUF}"
    using busy_card(1) [OF assms(1)] assms(2) card_lessThan [of NBUF] by (intro notI) simp
  then show ?thesis using that by blast
qed

text \<open>What no operation on a buffer touches.\<close>

definition same_disk :: "'a bst_scheme \<Rightarrow> 'a bst_scheme \<Rightarrow> bool" where
  "same_disk s s' \<longleftrightarrow> disk s' = disk s \<and> disksize s' = disksize s \<and> writes s' = writes s \<and> cur_pid s' = cur_pid s
     \<and> bst.more s' = bst.more s"

lemma same_disk_simps [simp]: "same_disk s (upd_buf b f s)" "same_disk s (link_front b s)" "same_disk s (unlink b s)"
  "same_disk s s"
  by (simp_all add: same_disk_def)

lemma same_disk_trans: "same_disk s s' \<Longrightarrow> same_disk s' s'' \<Longrightarrow> same_disk s s''"
  by (simp add: same_disk_def)

text \<open>\<^const>\<open>bget\<close> on the list: the first buffer with the block, else the last one that can be recycled.\<close>

lemma bget_list:
  assumes "mru s xs"
  shows "bget dev n s =
     (case find (\<lambda>b. b_dev (bufs s b) = dev \<and> b_blockno (bufs s b) = n) xs of
        Some b \<Rightarrow> and_then (lock_buf b (upd_buf b (\<lambda>x. x\<lparr>b_refcnt := b_refcnt x + 1\<rparr>) s)) (\<lambda>s. Inr (b, s))
      | None \<Rightarrow>
          (case find (\<lambda>b. b_refcnt (bufs s b) = 0 \<and> \<not> b_dirty (bufs s b)) (rev xs) of
             Some b \<Rightarrow> and_then (lock_buf b (upd_buf b (\<lambda>x. x\<lparr>b_dev := dev, b_blockno := n, b_valid := False,
                           b_dirty := False, b_refcnt := 1\<rparr>) s)) (\<lambda>s. Inr (b, s))
           | None \<Rightarrow> Inl ''bget: no buffers''))"
  by (simp only: bget_def mru_scan [OF assms])

lemma sleeplock_set [simp]: "lk\<lparr>sl_locked := l, sl_pid := p\<rparr> = \<lparr>sl_locked = l, sl_pid = p\<rparr>"
  by (cases lk) simp

lemma bget_hit:
  assumes "cache_ok s" "caches s b n" "n \<notin> heldb s"
  shows "bget 1 n s = Inr (b, upd_buf b (\<lambda>x. x\<lparr>b_refcnt := 1, b_lock := \<lparr>sl_locked = True, sl_pid = cur_pid s\<rparr>\<rparr>) s)"
proof -
  obtain xs where xs: "mru s xs" using assms(1) by (auto simp: cache_ok_def)
  let ?P = "\<lambda>b. b_dev (bufs s b) = 1 \<and> b_blockno (bufs s b) = n"
  have iff: "?P i \<longleftrightarrow> caches s i n" if "i < NBUF" for i
    using that cache_slot [OF assms(1) that] by (auto simp: slot_ok_def Let_def caches_def split: if_splits)
  have in_xs: "i \<in> set xs \<longleftrightarrow> i < NBUF" for i using xs by (simp add: mru_def)
  have b: "b < NBUF" using assms(2) by (simp add: caches_def)
  obtain j where j: "find ?P xs = Some j" using assms(2) in_xs b iff [OF b] by (cases "find ?P xs") (auto simp: find_None_iff)
  then have "j < NBUF" "?P j" by (auto simp: find_Some_iff in_xs [symmetric])
  then have "find ?P xs = Some b" using j iff [of j] cache_unique [OF assms(1) _ assms(2)] by simp
  moreover have "\<not> sl_locked (b_lock (bufs s b))" using assms(2,3) by (auto simp: heldb_def holds_def)
  moreover from this have "b_refcnt (bufs s b) = 0" using cache_slot [OF assms(1) b] by (simp add: slot_ok_def Let_def)
  ultimately show ?thesis
    unfolding bget_list [OF xs] by (simp add: lock_buf_def acquiresleep_def upd_buf_def)
qed

lemma bget_miss:
  assumes "cache_ok s" "\<And>i. \<not> caches s i n" "card (dirtyb s \<union> heldb s) < NBUF"
  obtains b where "b < NBUF" "\<not> b_dirty (bufs s b)" "\<not> sl_locked (b_lock (bufs s b))"
    "bget 1 n s = Inr (b, upd_buf b (\<lambda>x. x\<lparr>b_dev := 1, b_blockno := n, b_valid := False, b_dirty := False, b_refcnt := 1,
       b_lock := \<lparr>sl_locked = True, sl_pid = cur_pid s\<rparr>\<rparr>) s)"
proof -
  obtain xs where xs: "mru s xs" using assms(1) by (auto simp: cache_ok_def)
  let ?P = "\<lambda>b. b_dev (bufs s b) = 1 \<and> b_blockno (bufs s b) = n"
  let ?Q = "\<lambda>b. b_refcnt (bufs s b) = 0 \<and> \<not> b_dirty (bufs s b)"
  have in_xs: "i \<in> set xs \<longleftrightarrow> i < NBUF" for i using xs by (simp add: mru_def)
  have "\<not> ?P i" if "i < NBUF" for i
    using assms(2) [of i] that cache_slot [OF assms(1) that] by (auto simp: slot_ok_def Let_def caches_def split: if_splits)
  then have p: "find ?P xs = None" by (auto simp: find_None_iff in_xs)
  obtain i where i: "i < NBUF" "\<not> b_dirty (bufs s i)" "\<not> sl_locked (b_lock (bufs s i))"
    using spare_buffer [OF assms(1,3)] .
  then have "?Q i" using cache_slot [OF assms(1) i(1)] by (simp add: slot_ok_def Let_def)
  then obtain b where b: "find ?Q (rev xs) = Some b" using i(1) in_xs by (cases "find ?Q (rev xs)") (auto simp: find_None_iff)
  then have q: "?Q b" and "b \<in> set (rev xs)" using find_SomeD by fast+
  then have lt: "b < NBUF" using in_xs by simp
  have u: "\<not> sl_locked (b_lock (bufs s b))" using q cache_slot [OF assms(1) lt] by (auto simp: slot_ok_def Let_def)
  show ?thesis
    by (rule that [OF lt _ u]) (use p q b u in \<open>simp_all add: bget_list [OF xs] lock_buf_def acquiresleep_def upd_buf_def\<close>)
qed

text \<open>Changing one buffer.\<close>

lemma slot_upd: "i \<noteq> b \<Longrightarrow> slot_ok (upd_buf b f s) i = slot_ok s i"
  by (simp add: slot_ok_def)

lemma caches_upd:
  "caches (upd_buf b f s) i n \<longleftrightarrow> (if i = b then b < NBUF \<and> b_valid (f (bufs s b)) \<and> b_blockno (f (bufs s b)) = n else caches s i n)"
  by (simp add: caches_def)

lemma cache_ok_upd:
  assumes "cache_ok s" "slot_ok (upd_buf b f s) b" "\<And>x. b_next (f x) = b_next x \<and> b_prev (f x) = b_prev x"
    "\<And>i. b_valid (f (bufs s b)) \<Longrightarrow> caches s i (b_blockno (f (bufs s b))) \<Longrightarrow> i = b"
  shows "cache_ok (upd_buf b f s)"
proof -
  have "slot_ok (upd_buf b f s) i" if "i < NBUF" for i
    using that assms(2) cache_slot [OF assms(1) that] by (cases "i = b") (simp_all add: slot_upd)
  moreover have "\<exists>xs. mru (upd_buf b f s) xs" using assms(1,3) by (auto simp: cache_ok_def mru_upd)
  moreover have "i = j" if "caches (upd_buf b f s) i n" "caches (upd_buf b f s) j n" for i j n
    using that assms(4) [of i] assms(4) [of j] cache_unique [OF assms(1), of i n j]
    by (cases "i = b"; cases "j = b") (simp_all add: caches_upd)
  ultimately show ?thesis by (auto simp: cache_ok_def)
qed

text \<open>\<open>got\<close> is the state after \<^verbatim>\<open>b = bread(1, n)\<close> from \<open>s\<close>.\<close>

definition got :: "'a bst_scheme \<Rightarrow> u32 \<Rightarrow> nat \<Rightarrow> 'a bst_scheme \<Rightarrow> bool" where
  "got s n b s' \<longleftrightarrow> cache_ok s' \<and> holds s' b n \<and> b_data (bufs s' b) = view s n \<and> view s' = view s
     \<and> heldb s' = insert n (heldb s) \<and> dirtyb s' = dirtyb s \<and> same_disk s s'
     \<and> (b_dirty (bufs s' b) \<or> view s n = disk s n)
     \<and> (\<forall>i m. holds s i m \<longrightarrow> holds s' i m \<and> i \<noteq> b \<and> bufs s' i = bufs s i)"

lemma bread_hit:
  assumes "cache_ok s" "caches s b n" "n \<notin> heldb s"
  obtains s' where "bread 1 n s = Inr (b, s')" "got s n b s'"
proof -
  let ?f = "\<lambda>x. x\<lparr>b_refcnt := 1, b_lock := \<lparr>sl_locked = True, sl_pid = cur_pid s\<rparr>\<rparr>"
  have b: "b < NBUF" "b_valid (bufs s b)" "b_blockno (bufs s b) = n" using assms(2) by (simp_all add: caches_def)
  have u: "\<not> sl_locked (b_lock (bufs s b))" using assms(2,3) by (auto simp: heldb_def holds_def)
  have slot: "slot_ok s b" using cache_slot [OF assms(1) b(1)] .
  have ok: "cache_ok (upd_buf b ?f s)"
    by (rule cache_ok_upd [OF assms(1)]) (use slot b cache_unique [OF assms(1) _ assms(2)] in \<open>auto simp: slot_ok_def Let_def\<close>)
  have c: "caches (upd_buf b ?f s) i m = caches s i m" for i m using b by (auto simp: caches_upd caches_def)
  have h: "holds (upd_buf b ?f s) i m \<longleftrightarrow> holds s i m \<or> i = b \<and> m = n" for i m
    using assms(2) b c by (auto simp: holds_def caches_def)
  have v: "view (upd_buf b ?f s) = view s" by (rule ext, rule view_eqI [OF assms(1) ok]) (simp_all add: c)
  have d: "dirtyb (upd_buf b ?f s) = dirtyb s" by (auto simp: dirtyb_def c)
  have "got s n b (upd_buf b ?f s)"
    using ok h v d u slot b assms(2) view_cached [OF assms(1,2)]
    by (auto simp: got_def heldb_def slot_ok_def Let_def holds_def)
  moreover have "bread 1 n s = Inr (b, upd_buf b ?f s)" using bget_hit [OF assms] b by (simp add: bread_def)
  ultimately show ?thesis using that by blast
qed

lemma bread_miss:
  assumes "cache_ok s" "\<And>i. \<not> caches s i n" "n < disksize s" "card (dirtyb s \<union> heldb s) < NBUF"
  obtains b s' where "bread 1 n s = Inr (b, s')" "got s n b s'"
proof -
  obtain b where b: "b < NBUF" "\<not> b_dirty (bufs s b)" "\<not> sl_locked (b_lock (bufs s b))"
    and get: "bget 1 n s = Inr (b, upd_buf b (\<lambda>x. x\<lparr>b_dev := 1, b_blockno := n, b_valid := False, b_dirty := False, b_refcnt := 1,
       b_lock := \<lparr>sl_locked = True, sl_pid = cur_pid s\<rparr>\<rparr>) s)"
    using bget_miss [OF assms(1,2,4)] .
  let ?f = "\<lambda>x. x\<lparr>b_dev := 1, b_blockno := n, b_dirty := False, b_refcnt := 1,
       b_lock := \<lparr>sl_locked = True, sl_pid = cur_pid s\<rparr>, b_data := disk s n, b_valid := True\<rparr>"
  let ?s = "upd_buf b ?f s"
  have slot: "slot_ok s b" using cache_slot [OF assms(1) b(1)] .
  have ok: "cache_ok ?s"
    by (rule cache_ok_upd [OF assms(1)]) (use assms(2,3) in \<open>auto simp: slot_ok_def Let_def\<close>)
  have c: "caches ?s i m \<longleftrightarrow> (if i = b then m = n else caches s i m)" for i m using b by (auto simp: caches_upd)
  have h: "holds ?s i m \<longleftrightarrow> holds s i m \<or> i = b \<and> m = n" for i m using b c by (auto simp: holds_def)
  have v: "view ?s m = view s m" for m
  proof (cases "\<exists>i. caches s i m \<and> i \<noteq> b")
    case True
    then obtain i where i: "caches s i m" "i \<noteq> b" by blast
    then show ?thesis using view_cached [OF assms(1) i(1)] view_cached [OF ok, of i m] c by simp
  next
    case False
    have "view s m = disk s m"
      using False slot b view_cached [OF assms(1), of b m] view_uncached [of s m]
      by (cases "caches s b m") (auto simp: slot_ok_def Let_def caches_def)
    moreover have "view ?s m = disk s m"
    proof (cases "m = n")
      case True
      then show ?thesis using view_cached [OF ok, of b n] c by simp
    next
      case neq: False
      have "\<not> caches ?s i m" for i using False neq by (simp add: c) blast
      then show ?thesis using view_uncached [of ?s m] by simp
    qed
    ultimately show ?thesis by simp
  qed
  have d: "dirtyb ?s = dirtyb s" using b by (auto simp: dirtyb_def c)
  have "got s n b ?s"
    using ok h v d b assms(2) view_uncached [of s n] by (auto simp: got_def heldb_def holds_def)
  moreover have "bread 1 n s = Inr (b, ?s)"
    using get assms(3) by (simp add: bread_def iderw_def holdingsleep_def upd_buf_def Let_def not_le)
  ultimately show ?thesis using that by blast
qed

lemma bread_ok:
  assumes "cache_ok s" "n \<notin> heldb s" "n < disksize s" "card (dirtyb s \<union> heldb s) < NBUF \<or> n \<in> dirtyb s"
  obtains b s' where "bread 1 n s = Inr (b, s')" "got s n b s'"
proof (cases "\<exists>b. caches s b n")
  case True
  then show ?thesis using bread_hit [OF assms(1) _ assms(2)] that by blast
next
  case False
  then have "n \<notin> dirtyb s" by (auto simp: dirtyb_def)
  then show ?thesis using bread_miss [OF assms(1) _ assms(3)] False assms(4) that by blast
qed

text \<open>Operations on a buffer that is held.\<close>

lemma holds_unique: "cache_ok s \<Longrightarrow> holds s i n \<Longrightarrow> caches s j n \<Longrightarrow> j = i"
  using cache_unique by (auto simp: holds_def)

lemma holds_facts:
  assumes "cache_ok s" "holds s b n"
  shows "b < NBUF" "caches s b n" "b_valid (bufs s b)" "b_blockno (bufs s b) = n" "b_dev (bufs s b) = 1" "b_refcnt (bufs s b) = 1"
    "sl_locked (b_lock (bufs s b))" "sl_pid (b_lock (bufs s b)) = cur_pid s" "n < disksize s" "view s n = b_data (bufs s b)"
    "holdingsleep (cur_pid s) (b_lock (bufs s b))"
proof -
  show b: "b < NBUF" "caches s b n" "b_valid (bufs s b)" "b_blockno (bufs s b) = n" "sl_locked (b_lock (bufs s b))"
    using assms(2) by (simp_all add: holds_def caches_def)
  show "b_dev (bufs s b) = 1" "b_refcnt (bufs s b) = 1" "sl_pid (b_lock (bufs s b)) = cur_pid s" "n < disksize s"
    using b cache_slot [OF assms(1) b(1)] by (simp_all add: slot_ok_def Let_def)
  show "view s n = b_data (bufs s b)" by (rule view_cached [OF assms(1) b(2)])
  show "holdingsleep (cur_pid s) (b_lock (bufs s b))"
    using b cache_slot [OF assms(1) b(1)] by (simp add: slot_ok_def Let_def holdingsleep_def)
qed

lemma dirty_iff: "cache_ok s \<Longrightarrow> caches s b n \<Longrightarrow> n \<in> dirtyb s \<longleftrightarrow> b_dirty (bufs s b)"
  using cache_unique by (auto simp: dirtyb_def)

lemma held_upd:
  assumes ok: "cache_ok s" and h: "holds s b n" and links: "\<And>x. b_next (f x) = b_next x \<and> b_prev (f x) = b_prev x"
    and f: "\<And>x. (b_valid (f x), b_dev (f x), b_blockno (f x), b_lock (f x), b_refcnt (f x))
              = (b_valid x, b_dev x, b_blockno x, b_lock x, b_refcnt x)"
  shows "cache_ok (upd_buf b f s)" "\<And>i m. caches (upd_buf b f s) i m = caches s i m"
    "\<And>i m. holds (upd_buf b f s) i m = holds s i m" "heldb (upd_buf b f s) = heldb s"
    "view (upd_buf b f s) = (view s)(n := b_data (f (bufs s b)))"
    "dirtyb (upd_buf b f s) = (if b_dirty (f (bufs s b)) then insert n (dirtyb s) else dirtyb s - {n})"
proof -
  note hf = holds_facts [OF ok h]
  have slot: "slot_ok s b" using cache_slot [OF ok hf(1)] .
  show c: "caches (upd_buf b f s) i m = caches s i m" for i m
    using hf f by (auto simp: caches_upd caches_def)
  show ok': "cache_ok (upd_buf b f s)"
  proof (rule cache_ok_upd [OF ok _ links])
    show "slot_ok (upd_buf b f s) b" using slot hf f [of "bufs s b"] by (simp add: slot_ok_def Let_def)
    show "i = b" if "caches s i (b_blockno (f (bufs s b)))" for i
      using that f [of "bufs s b"] hf(4) cache_unique [OF ok _ hf(2), of i] by simp
  qed
  show h': "holds (upd_buf b f s) i m = holds s i m" for i m using f by (simp add: holds_def c)
  then show "heldb (upd_buf b f s) = heldb s" by (simp add: heldb_def)
  show "dirtyb (upd_buf b f s) = (if b_dirty (f (bufs s b)) then insert n (dirtyb s) else dirtyb s - {n})"
  proof -
    have "m \<in> dirtyb (upd_buf b f s) \<longleftrightarrow> (if m = n then b_dirty (f (bufs s b)) else m \<in> dirtyb s)" for m
      using dirty_iff [OF ok', of b n] hf(2,4) by (auto simp: c dirtyb_def) (auto simp: caches_def)
    then show ?thesis by (auto simp: set_eq_iff)
  qed
  have "view (upd_buf b f s) m = view s m" if "m \<noteq> n" for m
  proof (rule view_eqI [OF ok ok' c])
    show "b_data (bufs (upd_buf b f s) i) = b_data (bufs s i)" if "caches s i m" for i
      using that \<open>m \<noteq> n\<close> hf(4) by (auto simp: caches_def)
  qed simp
  moreover have "view (upd_buf b f s) n = b_data (f (bufs s b))" using view_cached [OF ok', of b n] hf(2) by (simp add: c)
  ultimately show "view (upd_buf b f s) = (view s)(n := b_data (f (bufs s b)))" by (simp add: fun_eq_iff)
qed

lemma bwrite_ok:
  assumes ok: "cache_ok s" and h: "holds s b n"
  obtains s' where "bwrite b s = Inr s'" "cache_ok s'" "\<And>i m. holds s' i m = holds s i m" "view s' = view s" "heldb s' = heldb s"
    "dirtyb s' = dirtyb s - {n}" "disk s' = (disk s)(n := view s n)" "writes s' = writes s @ [(n, view s n)]"
    "disksize s' = disksize s" "cur_pid s' = cur_pid s" "bst.more s' = bst.more s" "\<And>i. b_data (bufs s' i) = b_data (bufs s i)"
    "\<not> b_dirty (bufs s' b)" "\<And>i. i \<noteq> b \<Longrightarrow> bufs s' i = bufs s i"
proof -
  note f = holds_facts [OF ok h]
  let ?s = "upd_buf b (\<lambda>x. x\<lparr>b_dirty := False, b_valid := True\<rparr>) s"
  let ?t = "?s\<lparr>disk := (disk s)(n := view s n), writes := writes s @ [(n, view s n)]\<rparr>"
  have w: "bwrite b s = Inr ?t"
    using f by (simp add: bwrite_def iderw_def Let_def upd_buf_def not_le)
  have c: "caches ?t i m = caches s i m" for i m using f by (auto simp: caches_def)
  obtain xs where "mru s xs" using ok by (auto simp: cache_ok_def)
  then have m: "mru ?t xs" using mru_upd [of "\<lambda>x. x\<lparr>b_dirty := False, b_valid := True\<rparr>" b s xs] by (simp add: mru_def)
  have "slot_ok ?t i" if i: "i < NBUF" for i
  proof (cases "i = b")
    case True
    then show ?thesis using f cache_slot [OF ok i] by (simp add: slot_ok_def Let_def)
  next
    case False
    then have "b_valid (bufs s i) \<Longrightarrow> b_blockno (bufs s i) \<noteq> n" using holds_unique [OF ok h, of i] i by (auto simp: caches_def)
    then show ?thesis using False cache_slot [OF ok i] by (simp add: slot_ok_def Let_def)
  qed
  then have okt: "cache_ok ?t" using m cache_unique [OF ok] by (auto simp: cache_ok_def c)
  have ht: "holds ?t i m = holds s i m" for i m by (simp add: holds_def c)
  have vt: "view ?t = view s"
    by (rule ext, rule view_eqI [OF ok okt]) (use f(2) in \<open>auto simp: c\<close>)
  have dt: "dirtyb ?t = dirtyb s - {n}"
  proof -
    have "m \<in> dirtyb ?t \<longleftrightarrow> m \<noteq> n \<and> m \<in> dirtyb s" for m
      using dirty_iff [OF okt, of b n] f(2,4) by (auto simp: c dirtyb_def) (auto simp: caches_def)
    then show ?thesis by (auto simp: set_eq_iff)
  qed
  show ?thesis by (rule that [OF w okt ht vt _ dt]) (simp_all add: heldb_def ht)
qed

text \<open>Releasing a buffer; when it was the last reference, which it is here, the buffer moves to the front.\<close>

lemma relink_ok:
  assumes ok: "cache_ok s" and b: "b < NBUF"
  shows "cache_ok (link_front b (unlink b s))" "\<And>i m. caches (link_front b (unlink b s)) i m = caches s i m"
    "\<And>i m. holds (link_front b (unlink b s)) i m = holds s i m" "heldb (link_front b (unlink b s)) = heldb s"
    "dirtyb (link_front b (unlink b s)) = dirtyb s" "view (link_front b (unlink b s)) = view s"
proof -
  let ?s = "link_front b (unlink b s)"
  have e: "content_of (bufs ?s i) = content_of (bufs s i)" for i by simp
  note e' = e [unfolded content_of_eq]
  show c: "caches ?s i m = caches s i m" for i m using e' [of i] by (simp add: caches_def)
  have "slot_ok ?s i = slot_ok s i" for i using e' [of i] by (simp add: slot_ok_def Let_def)
  moreover have "\<exists>xs. mru ?s xs" using ok mru_move [OF _ b] by (auto simp: cache_ok_def)
  ultimately show ok': "cache_ok ?s" using ok by (simp add: cache_ok_def c)
  show h: "holds ?s i m = holds s i m" for i m using e' [of i] by (simp add: holds_def c)
  show "heldb ?s = heldb s" by (simp add: heldb_def h)
  show "dirtyb ?s = dirtyb s" using e' by (simp add: dirtyb_def c)
  show "view ?s = view s" by (rule ext, rule view_eqI [OF ok ok' c]) (use e' in simp_all)
qed

lemma brelse_ok:
  assumes ok: "cache_ok s" and h: "holds s b n" and clean: "b_dirty (bufs s b) \<or> view s n = disk s n"
  obtains s' where "brelse b s = Inr s'" "cache_ok s'" "view s' = view s" "heldb s' = heldb s - {n}" "dirtyb s' = dirtyb s"
    "same_disk s s'" "\<And>i m. holds s' i m \<longleftrightarrow> holds s i m \<and> m \<noteq> n" "\<And>i. b_data (bufs s' i) = b_data (bufs s i)"
    "\<And>i. b_dirty (bufs s' i) = b_dirty (bufs s i)"
proof -
  note f = holds_facts [OF ok h]
  let ?f = "\<lambda>x. x\<lparr>b_lock := releasesleep (b_lock x), b_refcnt := b_refcnt x - 1\<rparr>"
  let ?s = "upd_buf b ?f s"
  let ?t = "link_front b (unlink b ?s)"
  have ok1: "cache_ok ?s"
  proof (rule cache_ok_upd [OF ok])
    show "slot_ok ?s b" using cache_slot [OF ok f(1)] clean f by (auto simp: slot_ok_def Let_def releasesleep_def)
    show "i = b" if "caches s i (b_blockno (?f (bufs s b)))" for i
      using that f(4) cache_unique [OF ok _ f(2), of i] by simp
  qed simp
  have c: "caches ?s i m = caches s i m" for i m using f by (auto simp: caches_upd caches_def)
  have hs: "holds ?s i m \<longleftrightarrow> holds s i m \<and> m \<noteq> n" for i m
  proof (cases "i = b")
    case True
    then show ?thesis using f(4) by (auto simp: holds_def c releasesleep_def caches_def)
  next
    case False
    then show ?thesis using holds_unique [OF ok h, of i] by (auto simp: holds_def c)
  qed
  have v: "view ?s = view s" by (rule ext, rule view_eqI [OF ok ok1 c]) simp_all
  have d: "dirtyb ?s = dirtyb s" by (auto simp: dirtyb_def c)
  have hb: "heldb ?s = heldb s - {n}" by (auto simp: heldb_def hs)
  note r = relink_ok [OF ok1 f(1)]
  have e: "content_of (bufs ?t i) = content_of (bufs ?s i)" for i by simp
  show ?thesis
  proof (rule that [of ?t])
    show "brelse b s = Inr ?t" using f by (simp add: brelse_def Let_def)
    show "b_data (bufs ?t i) = b_data (bufs s i)" "b_dirty (bufs ?t i) = b_dirty (bufs s i)" for i
      using e [of i, unfolded content_of_eq] by auto
    show "same_disk s ?t" by (simp add: same_disk_def)
  qed (simp_all add: r v d hb hs)
qed

text \<open>Reading a block and releasing it again.\<close>

lemma read_release:
  assumes "cache_ok s" "n \<notin> heldb s" "n < disksize s" "card (dirtyb s \<union> heldb s) < NBUF \<or> n \<in> dirtyb s"
  obtains b s1 s2 where "bread 1 n s = Inr (b, s1)" "b_data (bufs s1 b) = view s n" "brelse b s1 = Inr s2" "cache_ok s2"
    "view s2 = view s" "heldb s2 = heldb s" "dirtyb s2 = dirtyb s" "same_disk s s2"
    "\<And>i m. holds s i m \<Longrightarrow> holds s2 i m \<and> b_data (bufs s2 i) = b_data (bufs s i)"
proof -
  obtain b s1 where r: "bread 1 n s = Inr (b, s1)" "got s n b s1" using bread_ok [OF assms] .
  then have g: "cache_ok s1" "holds s1 b n" "b_data (bufs s1 b) = view s n" "view s1 = view s" "heldb s1 = insert n (heldb s)"
    "dirtyb s1 = dirtyb s" "same_disk s s1" "b_dirty (bufs s1 b) \<or> view s1 n = disk s1 n"
    "\<And>i m. holds s i m \<Longrightarrow> holds s1 i m \<and> i \<noteq> b \<and> bufs s1 i = bufs s i"
    by (simp_all add: got_def same_disk_def)
  obtain s2 where s2: "brelse b s1 = Inr s2" "cache_ok s2" "view s2 = view s1" "heldb s2 = heldb s1 - {n}" "dirtyb s2 = dirtyb s1"
    "same_disk s1 s2" "\<And>i m. holds s2 i m \<longleftrightarrow> holds s1 i m \<and> m \<noteq> n" "\<And>i. b_data (bufs s2 i) = b_data (bufs s1 i)"
    using brelse_ok [OF g(1,2,8)] by metis
  have "m \<noteq> n" if "holds s i m" for i m using that assms(2) by (auto simp: heldb_def)
  then show ?thesis
    using that [OF r(1) g(3) s2(1,2)] s2 g assms(2) same_disk_trans [OF g(7) s2(6)] by simp
qed

section \<open>The cache at boot\<close>

text \<open>Static storage is zero when the kernel starts.\<close>

definition zeroed :: "'a bst_scheme \<Rightarrow> bool" where
  "zeroed s \<longleftrightarrow> (\<forall>i < NBUF. \<not> b_valid (bufs s i) \<and> \<not> b_dirty (bufs s i) \<and> b_dev (bufs s i) = 0 \<and> b_refcnt (bufs s i) = 0)"

lemma binit_prefix:
  assumes "zeroed s" "k \<le> NBUF"
  shows "let s' = fold (\<lambda>b s. link_front b (upd_buf b (\<lambda>x. x\<lparr>b_lock := initsleeplock\<rparr>) s)) [0..<k]
                    (upd_buf NBUF (\<lambda>x. x\<lparr>b_prev := NBUF, b_next := NBUF\<rparr>) s)
         in zeroed s' \<and> (\<forall>i < k. b_lock (bufs s' i) = initsleeplock) \<and> same_disk s s'
            \<and> chain (nexts s') (prevs s') NBUF (rev [0..<k]) NBUF"
  using assms(2)
proof (induction k)
  case 0
  then show ?case using assms(1) by (simp add: zeroed_def same_disk_def)
next
  case (Suc k)
  let ?F = "\<lambda>k. fold (\<lambda>b s. link_front b (upd_buf b (\<lambda>x. x\<lparr>b_lock := initsleeplock\<rparr>) s)) [0..<k]
              (upd_buf NBUF (\<lambda>x. x\<lparr>b_prev := NBUF, b_next := NBUF\<rparr>) s)"
  define t where "t = ?F k"
  define u where "u = upd_buf k (\<lambda>x. x\<lparr>b_lock := initsleeplock\<rparr>) t"
  have step: "?F (Suc k) = link_front k u" by (simp add: t_def u_def)
  have ih: "zeroed t" "\<forall>i < k. b_lock (bufs t i) = initsleeplock" "same_disk s t" "chain (nexts t) (prevs t) NBUF (rev [0..<k]) NBUF"
    using Suc by (simp_all add: t_def Let_def)
  have "chain (nexts u) (prevs u) NBUF (rev [0..<k]) NBUF"
    using ih(4) by (subst chain_cong [where nx = "nexts t" and pv = "prevs t"]) (simp_all add: u_def)
  then have c: "chain (nexts (link_front k u)) (prevs (link_front k u)) NBUF (rev [0..<Suc k]) NBUF"
    using Suc.prems mru_link_front [of u "rev [0..<k]" k] by simp
  have e: "content_of (bufs (link_front k u) i) = content_of (bufs u i)" for i by simp
  have "zeroed (link_front k u)" "\<forall>i < Suc k. b_lock (bufs (link_front k u) i) = initsleeplock"
    using ih(1,2) e [unfolded content_of_eq] by (auto simp: zeroed_def u_def less_Suc_eq)
  moreover have "same_disk s (link_front k u)" using ih(3) by (simp add: same_disk_def u_def)
  ultimately show ?case using c unfolding step Let_def by blast
qed

lemma binit_ok:
  assumes "zeroed s"
  shows "cache_ok (binit s)" "view (binit s) = disk s" "heldb (binit s) = {}" "dirtyb (binit s) = {}" "same_disk s (binit s)"
proof -
  have p: "zeroed (binit s)" "\<forall>i < NBUF. b_lock (bufs (binit s) i) = initsleeplock" "same_disk s (binit s)"
    "chain (nexts (binit s)) (prevs (binit s)) NBUF (rev [0..<NBUF]) NBUF"
    using binit_prefix [OF assms, of NBUF] by (simp_all add: binit_def Let_def)
  have m: "mru (binit s) (rev [0..<NBUF])" using p(4) by (auto simp: mru_def)
  have c: "\<not> caches (binit s) i n" for i n using p(1) by (auto simp: zeroed_def caches_def)
  have "slot_ok (binit s) i" if "i < NBUF" for i
    using p(1,2) that by (simp add: zeroed_def slot_ok_def Let_def initsleeplock_def)
  then show "cache_ok (binit s)" using m c by (auto simp: cache_ok_def)
  show "view (binit s) = disk s" using view_uncached [of "binit s"] c p(3) by (auto simp: same_disk_def fun_eq_iff)
  show "heldb (binit s) = {}" "dirtyb (binit s) = {}" by (auto simp: heldb_def holds_def dirtyb_def c)
  show "same_disk s (binit s)" by (rule p(3))
qed

end
