(* ===== verification/LogInv.thy ===== *)
theory LogInv
  imports Log BioInv
begin

text \<open>
  What the log promises. A commit copies the changed blocks into the log, writes the header,
  installs the blocks at their home locations and clears the header. The main result is that
  recovery after a crash at any point of that sequence finds either all the changes or none.
\<close>

section \<open>Header and frames\<close>

lemma lg_frame:
  assumes "same_disk s s'"
  shows "lg_start s' = lg_start s" "lg_size s' = lg_size s" "lg_outstanding s' = lg_outstanding s" "lg_committing s' = lg_committing s"
    "lg_dev s' = lg_dev s" "lh_n s' = lh_n s" "lh_block s' = lh_block s" "logst.more s' = logst.more s"
    "disk s' = disk s" "disksize s' = disksize s" "writes s' = writes s" "cur_pid s' = cur_pid s"
  using assms by (cases s, cases s', simp add: same_disk_def)+

lemma put_head_n [simp]: "get32 (put_head n blocks d) 0 = of_int n"
proof -
  have "get32 (fold (\<lambda>i. put32 (4 + 4 * i) (blocks i)) is d) 0 = get32 d 0" for "is" d
    by (induction "is" arbitrary: d) (simp_all add: get32_put32_other)
  then show ?thesis by (simp add: put_head_def)
qed

lemma put_head_block: "i < nat n \<Longrightarrow> get32 (put_head n blocks d) (4 + 4 * i) = blocks i"
proof -
  have "i < k \<Longrightarrow> get32 (fold (\<lambda>i. put32 (4 + 4 * i) (blocks i)) [0..<k] d) (4 + 4 * i) = blocks i" for k d
    by (induction k) (auto simp: get32_put32_other less_Suc_eq)
  then show "i < nat n \<Longrightarrow> get32 (put_head n blocks d) (4 + 4 * i) = blocks i" unfolding put_head_def .
qed

section \<open>Copying a block\<close>

lemma two_reads:
  assumes ok: "cache_ok s" "heldb s = {}" and xy: "x \<noteq> y" "x < disksize s" "y < disksize s"
    and room: "card (dirtyb s) < NBUF \<or> x \<in> dirtyb s" "card (insert x (dirtyb s)) < NBUF \<or> y \<in> dirtyb s"
  obtains p q s1 s2 where "bread 1 x s = Inr (p, s1)" "bread 1 y s1 = Inr (q, s2)" "same_disk s s1" "same_disk s s2" "cache_ok s2"
    "holds s2 p x" "holds s2 q y" "view s2 = view s" "heldb s2 = {x, y}" "dirtyb s2 = dirtyb s" "p \<noteq> q"
    "b_dirty (bufs s2 p) \<or> view s x = disk s x" "b_dirty (bufs s2 q) \<or> view s y = disk s y"
proof -
  obtain p s1 where r1: "bread 1 x s = Inr (p, s1)" and "got s x p s1"
    using bread_ok [of s x] assms by auto
  then have g1: "cache_ok s1" "holds s1 p x" "view s1 = view s" "heldb s1 = {x}" "dirtyb s1 = dirtyb s" "same_disk s s1"
    "b_dirty (bufs s1 p) \<or> view s x = disk s x" using ok by (simp_all add: got_def)
  obtain q s2 where r2: "bread 1 y s1 = Inr (q, s2)" and "got s1 y q s2"
    using bread_ok [of s1 y] g1 xy room(2) by (auto simp: insert_commute lg_frame same_disk_def)
  then have g2: "cache_ok s2" "holds s2 q y" "view s2 = view s1" "heldb s2 = {x, y}" "dirtyb s2 = dirtyb s1" "same_disk s1 s2"
    "b_dirty (bufs s2 q) \<or> view s y = disk s y" "holds s2 p x \<and> p \<noteq> q \<and> bufs s2 p = bufs s1 p"
    using g1 by (auto simp: got_def same_disk_def)
  show ?thesis
    by (rule that [OF r1 r2 g1(6) same_disk_trans [OF g1(6) g2(6)] g2(1)]) (use g1 g2 in simp_all)
qed

text \<open>The state after the block writes \<open>ws\<close> have been done, in their order, with nothing held at the end.\<close>

definition apply_writes :: "(u32 \<times> bdata) list \<Rightarrow> (u32 \<Rightarrow> bdata) \<Rightarrow> u32 \<Rightarrow> bdata" where
  "apply_writes ws d = fold (\<lambda>(n, x) d. d(n := x)) ws d"

lemma apply_writes_simps [simp]: "apply_writes [] d = d" "apply_writes (w # ws) d = apply_writes ws (d(fst w := snd w))"
  "apply_writes (ws @ ws') d = apply_writes ws' (apply_writes ws d)"
  by (simp_all add: apply_writes_def case_prod_beta)

lemma apply_writes_other: "n \<notin> fst ` set ws \<Longrightarrow> apply_writes ws d n = d n"
  by (induction ws arbitrary: d) auto

lemma apply_writes_at:
  "distinct (map fst ws) \<Longrightarrow> (n, x) \<in> set ws \<Longrightarrow> apply_writes ws d n = x"
  by (induction ws arbitrary: d) (force simp: apply_writes_other)+

definition wrote :: "'a bst_scheme \<Rightarrow> (u32 \<times> bdata) list \<Rightarrow> 'a bst_scheme \<Rightarrow> bool" where
  "wrote s ws s' \<longleftrightarrow> cache_ok s' \<and> heldb s' = {} \<and> view s' = apply_writes ws (view s) \<and> dirtyb s' = dirtyb s - fst ` set ws
     \<and> disk s' = apply_writes ws (disk s) \<and> writes s' = writes s @ ws \<and> disksize s' = disksize s \<and> cur_pid s' = cur_pid s
     \<and> bst.more s' = bst.more s"

lemma wrote_Nil: "cache_ok s \<Longrightarrow> heldb s = {} \<Longrightarrow> wrote s [] s"
  by (simp add: wrote_def)

lemma wrote_trans: "wrote s ws s' \<Longrightarrow> wrote s' ws' s'' \<Longrightarrow> wrote s (ws @ ws') s''"
  by (auto simp: wrote_def)

lemma wrote_frame:
  assumes "wrote s ws s'"
  shows "lg_start s' = lg_start s" "lg_size s' = lg_size s" "lg_outstanding s' = lg_outstanding s" "lg_committing s' = lg_committing s"
    "lg_dev s' = lg_dev s" "lh_n s' = lh_n s" "lh_block s' = lh_block s" "logst.more s' = logst.more s"
  using assms by (cases s, cases s', simp add: wrote_def)+

lemma write_release:
  assumes ok: "cache_ok u" and hold: "holds u dst n" "heldb u = {n}"
  obtains s4 s6 where "bwrite dst u = Inr s4" "brelse dst s4 = Inr s6" "wrote u [(n, view u n)] s6"
proof -
  obtain s4 where w: "bwrite dst u = Inr s4" "cache_ok s4" "\<And>i m. holds s4 i m = holds u i m" "view s4 = view u" "heldb s4 = heldb u"
    "dirtyb s4 = dirtyb u - {n}" "disk s4 = (disk u)(n := view u n)" "writes s4 = writes u @ [(n, view u n)]"
    "disksize s4 = disksize u" "cur_pid s4 = cur_pid u" "bst.more s4 = bst.more u"
    using bwrite_ok [OF ok hold(1)] by metis
  obtain s6 where r: "brelse dst s4 = Inr s6" "cache_ok s6" "view s6 = view s4" "heldb s6 = heldb s4 - {n}" "dirtyb s6 = dirtyb s4"
    "same_disk s4 s6"
    using brelse_ok [OF w(2), of dst n] w(3,4,7) hold(1) by (metis fun_upd_same)
  show ?thesis
    by (rule that [OF w(1) r(1)]) (use w r hold in \<open>auto simp: wrote_def same_disk_def\<close>)
qed

lemma copy_write:
  assumes ok: "cache_ok u" and hold: "holds u src a" "holds u dst b" "heldb u = {a, b}" "a \<noteq> b" "src \<noteq> dst"
    and clean: "b_dirty (bufs u src) \<or> view u a = disk u a"
  obtains s4 s5 s6 where "bwrite dst (upd_buf dst (\<lambda>x. x\<lparr>b_data := b_data (bufs u src)\<rparr>) u) = Inr s4" "brelse src s4 = Inr s5"
    "brelse dst s5 = Inr s6" "wrote u [(b, view u a)] s6"
proof -
  let ?f = "\<lambda>x. x\<lparr>b_data := b_data (bufs u src)\<rparr>"
  let ?u = "upd_buf dst ?f u"
  have va: "view u a = b_data (bufs u src)" by (rule holds_facts(10) [OF ok hold(1)])
  note h = held_upd [OF ok hold(2), of ?f, simplified]
  have du: "dirtyb ?u - {b} = dirtyb u - {b}" by (auto simp: h(6))
  have hs: "holds ?u src a" "holds ?u dst b" using hold h(3) by simp_all
  obtain s4 where w: "bwrite dst ?u = Inr s4" "cache_ok s4" "\<And>i m. holds s4 i m = holds ?u i m" "view s4 = view ?u"
    "heldb s4 = heldb ?u" "dirtyb s4 = dirtyb ?u - {b}" "disk s4 = (disk ?u)(b := view ?u b)" "writes s4 = writes ?u @ [(b, view ?u b)]"
    "disksize s4 = disksize ?u" "cur_pid s4 = cur_pid ?u" "bst.more s4 = bst.more ?u" "\<not> b_dirty (bufs s4 dst)"
    "\<And>i. i \<noteq> dst \<Longrightarrow> bufs s4 i = bufs ?u i"
    using bwrite_ok [OF h(1) hs(2)] by metis
  have c4: "b_dirty (bufs s4 src) \<or> view s4 a = disk s4 a"
    using clean hold(4,5) w(4,7,13) by (simp add: h(5))
  have "holds s4 src a" using w(3) hs by simp
  then obtain s5 where r: "brelse src s4 = Inr s5" "cache_ok s5" "view s5 = view s4" "heldb s5 = heldb s4 - {a}" "dirtyb s5 = dirtyb s4"
    "same_disk s4 s5" "\<And>i m. holds s5 i m \<longleftrightarrow> holds s4 i m \<and> m \<noteq> a"
    using brelse_ok [OF w(2) _ c4] by metis
  have "holds s5 dst b" using r(7) w(3) hs hold(4) by simp
  moreover have "view s5 b = disk s5 b" using r w(4,7) by (simp add: same_disk_def)
  ultimately obtain s6 where r6: "brelse dst s5 = Inr s6" "cache_ok s6" "view s6 = view s5" "heldb s6 = heldb s5 - {b}"
    "dirtyb s6 = dirtyb s5" "same_disk s5 s6"
    using brelse_ok [OF r(2)] by metis
  show ?thesis
    by (rule that [OF w(1) r(1) r6(1)])
      (use w r r6 h du hold va in \<open>auto simp: wrote_def same_disk_def\<close>)
qed

section \<open>The steps of a commit\<close>

text \<open>The bookkeeping fields of the log do not matter to the cache.\<close>

lemma cache_same:
  assumes "bufs s' = bufs s" "disk s' = disk s" "disksize s' = disksize s" "cur_pid s' = cur_pid s"
  shows "cache_ok s' = cache_ok s" "view s' = view s" "heldb s' = heldb s" "dirtyb s' = dirtyb s" "holds s' = holds s"
proof -
  have c: "caches s' = caches s" by (simp add: fun_eq_iff caches_def assms)
  show h: "holds s' = holds s" by (simp add: fun_eq_iff holds_def c assms)
  show "heldb s' = heldb s" "dirtyb s' = dirtyb s" by (simp_all add: heldb_def dirtyb_def h c assms)
  show "view s' = view s" by (rule ext) (simp add: view_def c assms split: option.split)
  show "cache_ok s' = cache_ok s" by (simp add: cache_ok_def mru_def slot_ok_def c assms)
qed

lemma log_fields [simp]:
  "cache_ok (s\<lparr>lh_n := n\<rparr>) = cache_ok s" "view (s\<lparr>lh_n := n\<rparr>) = view s" "heldb (s\<lparr>lh_n := n\<rparr>) = heldb s"
  "dirtyb (s\<lparr>lh_n := n\<rparr>) = dirtyb s" "holds (s\<lparr>lh_n := n\<rparr>) = holds s"
  "cache_ok (s\<lparr>lh_block := bl\<rparr>) = cache_ok s" "view (s\<lparr>lh_block := bl\<rparr>) = view s" "heldb (s\<lparr>lh_block := bl\<rparr>) = heldb s"
  "dirtyb (s\<lparr>lh_block := bl\<rparr>) = dirtyb s" "holds (s\<lparr>lh_block := bl\<rparr>) = holds s"
  "cache_ok (s\<lparr>lg_start := st\<rparr>) = cache_ok s" "view (s\<lparr>lg_start := st\<rparr>) = view s" "heldb (s\<lparr>lg_start := st\<rparr>) = heldb s"
  "dirtyb (s\<lparr>lg_start := st\<rparr>) = dirtyb s" "cache_ok (s\<lparr>lg_size := sz\<rparr>) = cache_ok s" "view (s\<lparr>lg_size := sz\<rparr>) = view s"
  "heldb (s\<lparr>lg_size := sz\<rparr>) = heldb s" "dirtyb (s\<lparr>lg_size := sz\<rparr>) = dirtyb s" "cache_ok (s\<lparr>lg_dev := dv\<rparr>) = cache_ok s"
  "view (s\<lparr>lg_dev := dv\<rparr>) = view s" "heldb (s\<lparr>lg_dev := dv\<rparr>) = heldb s" "dirtyb (s\<lparr>lg_dev := dv\<rparr>) = dirtyb s"
  "cache_ok (s\<lparr>lg_committing := c\<rparr>) = cache_ok s" "view (s\<lparr>lg_committing := c\<rparr>) = view s"
  "heldb (s\<lparr>lg_committing := c\<rparr>) = heldb s" "dirtyb (s\<lparr>lg_committing := c\<rparr>) = dirtyb s"
  "holds (s\<lparr>lg_committing := c\<rparr>) = holds s"
  "cache_ok (s\<lparr>lg_outstanding := k\<rparr>) = cache_ok s" "view (s\<lparr>lg_outstanding := k\<rparr>) = view s"
  "heldb (s\<lparr>lg_outstanding := k\<rparr>) = heldb s" "dirtyb (s\<lparr>lg_outstanding := k\<rparr>) = dirtyb s"
  "holds (s\<lparr>lg_outstanding := k\<rparr>) = holds s"
  by (rule cache_same; simp)+

text \<open>Where the log lies on the disk.\<close>

definition log_area :: "'a logst_scheme \<Rightarrow> u32 set" where
  "log_area s = {n. unat (lg_start s) \<le> unat n \<and> unat n < unat (lg_start s) + nat (lg_size s)}"

abbreviation log_slot :: "'a logst_scheme \<Rightarrow> nat \<Rightarrow> u32" where
  "log_slot s i \<equiv> lg_start s + of_nat i + 1"

definition log_layout :: "'a logst_scheme \<Rightarrow> bool" where
  "log_layout s \<longleftrightarrow> lg_dev s = 1 \<and> unat (lg_start s) + nat (lg_size s) \<le> unat (disksize s) \<and> 1 \<le> lg_size s \<and> lg_size s \<le> LOGSIZE"

text \<open>The blocks named by the header lie outside the log, and no block is named twice.\<close>

definition header_ok :: "'a logst_scheme \<Rightarrow> bool" where
  "header_ok s \<longleftrightarrow> 0 \<le> lh_n s \<and> lh_n s < lg_size s \<and> distinct (map (lh_block s) [0..<nat (lh_n s)])
     \<and> (\<forall>i < nat (lh_n s). lh_block s i < disksize s \<and> lh_block s i \<notin> log_area s)"

lemma unat_u32: "unat (x :: u32) < 2 ^ 32"
  using uint_lt2p [of x] by (simp add: nat_less_iff flip: nat_uint_eq)

lemma log_slot_facts:
  assumes "log_layout s" "int i < lg_size s - 1"
  shows "unat (log_slot s i) = unat (lg_start s) + i + 1" "log_slot s i \<in> log_area s" "log_slot s i < disksize s" "log_slot s i \<noteq> lg_start s"
proof -
  have l: "unat (lg_start s) + i + 1 < unat (disksize s)" using assms unfolding log_layout_def by linarith
  also have "\<dots> < 2 ^ 32" by (rule unat_u32)
  finally have b: "unat (lg_start s) + i + 1 < 2 ^ 32" .
  have "log_slot s i = of_nat (unat (lg_start s) + i + 1)" by simp
  then have "unat (log_slot s i) = (unat (lg_start s) + i + 1) mod 2 ^ 32" by (simp only: unat_of_nat) simp
  then show u: "unat (log_slot s i) = unat (lg_start s) + i + 1" using b by simp
  show "log_slot s i \<in> log_area s" unfolding log_area_def mem_Collect_eq u using assms(2) by linarith
  show "log_slot s i < disksize s" using u l by (simp add: word_less_nat_alt)
  show "log_slot s i \<noteq> lg_start s" using u by (metis add.assoc less_add_same_cancel1 less_irrefl zero_less_Suc Suc_eq_plus1 add_Suc_right)
qed

lemma log_start_facts: "log_layout s \<Longrightarrow> lg_start s \<in> log_area s" "log_layout s \<Longrightarrow> lg_start s < disksize s"
  unfolding log_layout_def log_area_def word_less_nat_alt mem_Collect_eq by linarith+

lemma install_one_ok:
  assumes "log_layout s" "header_ok s" "i < nat (lh_n s)" "cache_ok s" "heldb s = {}"
    and "card (dirtyb s) + 1 < NBUF \<or> card (dirtyb s) < NBUF \<and> lh_block s i \<in> dirtyb s"
  obtains s' where "install_one i s = Inr s'" "wrote s [(lh_block s i, view s (log_slot s i))] s'"
proof -
  note l = log_slot_facts [OF assms(1), of i]
  have i: "int i < lg_size s - 1" "lh_block s i < disksize s" "lh_block s i \<notin> log_area s" "lg_dev s = 1"
    using assms(1-3) by (auto simp: header_ok_def log_layout_def)
  have ne: "log_slot s i \<noteq> lh_block s i" using i l(2) by auto
  have room: "card (dirtyb s) < NBUF \<or> log_slot s i \<in> dirtyb s"
    "card (insert (log_slot s i) (dirtyb s)) < NBUF \<or> lh_block s i \<in> dirtyb s"
    using assms(6) busy_card(2) [OF assms(4)] by (auto simp: card_insert_if)
  obtain p q s1 s2 where r: "bread 1 (log_slot s i) s = Inr (p, s1)" "bread 1 (lh_block s i) s1 = Inr (q, s2)"
    "same_disk s s1" "same_disk s s2" "cache_ok s2" "holds s2 p (log_slot s i)" "holds s2 q (lh_block s i)" "view s2 = view s"
    "heldb s2 = {log_slot s i, lh_block s i}" "dirtyb s2 = dirtyb s" "p \<noteq> q"
    "b_dirty (bufs s2 p) \<or> view s (log_slot s i) = disk s (log_slot s i)"
    using two_reads [OF assms(4,5) ne l(3) [OF i(1)] i(2) room] by metis
  have "b_dirty (bufs s2 p) \<or> view s2 (log_slot s i) = disk s2 (log_slot s i)" using r by (simp add: same_disk_def)
  then obtain s4 s5 s6 where w: "bwrite q (upd_buf q (\<lambda>x. x\<lparr>b_data := b_data (bufs s2 p)\<rparr>) s2) = Inr s4"
    "brelse p s4 = Inr s5" "brelse q s5 = Inr s6" "wrote s2 [(lh_block s i, view s2 (log_slot s i))] s6"
    using copy_write [OF r(5,6,7,9) ne r(11)] by metis
  have "install_one i s = Inr s6" using r(1-3) w i(4) by (simp add: install_one_def lg_frame)
  moreover have "wrote s [(lh_block s i, view s (log_slot s i))] s6" using w(4) r by (simp add: wrote_def same_disk_def)
  ultimately show ?thesis using that by blast
qed

lemma write_log_one_ok:
  assumes "log_layout s" "header_ok s" "i < nat (lh_n s)" "cache_ok s" "heldb s = {}"
    and "card (dirtyb s) < NBUF" "lh_block s i \<in> dirtyb s"
  obtains s' where "write_log_one i s = Inr s'" "wrote s [(log_slot s i, view s (lh_block s i))] s'"
proof -
  note l = log_slot_facts [OF assms(1), of i]
  have i: "int i < lg_size s - 1" "lh_block s i < disksize s" "lh_block s i \<notin> log_area s" "lg_dev s = 1"
    using assms(1-3) by (auto simp: header_ok_def log_layout_def)
  have ne: "log_slot s i \<noteq> lh_block s i" using i l(2) by auto
  obtain p q s1 s2 where r: "bread 1 (log_slot s i) s = Inr (p, s1)" "bread 1 (lh_block s i) s1 = Inr (q, s2)"
    "same_disk s s1" "same_disk s s2" "cache_ok s2" "holds s2 p (log_slot s i)" "holds s2 q (lh_block s i)" "view s2 = view s"
    "heldb s2 = {log_slot s i, lh_block s i}" "dirtyb s2 = dirtyb s" "p \<noteq> q"
    "b_dirty (bufs s2 q) \<or> view s (lh_block s i) = disk s (lh_block s i)"
    using two_reads [OF assms(4,5) ne l(3) [OF i(1)] i(2) disjI1 [OF assms(6)] disjI2 [OF assms(7)]] by metis
  have "b_dirty (bufs s2 q) \<or> view s2 (lh_block s i) = disk s2 (lh_block s i)" using r by (simp add: same_disk_def)
  moreover have "heldb s2 = {lh_block s i, log_slot s i}" using r(9) by auto
  ultimately obtain s4 s5 s6 where w: "bwrite p (upd_buf p (\<lambda>x. x\<lparr>b_data := b_data (bufs s2 q)\<rparr>) s2) = Inr s4"
    "brelse q s4 = Inr s5" "brelse p s5 = Inr s6" "wrote s2 [(log_slot s i, view s2 (lh_block s i))] s6"
    using copy_write [OF r(5,7,6) _ ne [symmetric]] r(11) by metis
  have "write_log_one i s = Inr s6" using r(1-3) w i(4) by (simp add: write_log_one_def lg_frame)
  moreover have "wrote s [(log_slot s i, view s (lh_block s i))] s6" using w(4) r by (simp add: wrote_def same_disk_def)
  ultimately show ?thesis using that by blast
qed

lemma wrote_layout:
  assumes "wrote s ws s'"
  shows "log_area s' = log_area s" "log_layout s' = log_layout s" "header_ok s' = header_ok s" "disksize s' = disksize s"
proof -
  note f = wrote_frame [OF assms]
  show d: "disksize s' = disksize s" using assms by (simp add: wrote_def)
  show a: "log_area s' = log_area s" by (simp add: log_area_def f)
  show "log_layout s' = log_layout s" "header_ok s' = header_ok s" by (simp_all add: log_layout_def header_ok_def f d a)
qed

definition installs :: "'a logst_scheme \<Rightarrow> nat \<Rightarrow> (u32 \<times> bdata) list" where
  "installs s k = map (\<lambda>i. (lh_block s i, view s (log_slot s i))) [0..<k]"

definition log_copies :: "'a logst_scheme \<Rightarrow> nat \<Rightarrow> (u32 \<times> bdata) list" where
  "log_copies s k = map (\<lambda>i. (log_slot s i, view s (lh_block s i))) [0..<k]"

lemma fst_installs: "fst ` set (installs s k) = lh_block s ` {..<k}" "fst ` set (log_copies s k) = log_slot s ` {..<k}"
  by (simp_all add: installs_def log_copies_def image_image lessThan_atLeast0)

lemma header_inj: "header_ok s \<Longrightarrow> inj_on (lh_block s) {..<nat (lh_n s)}"
  by (simp add: header_ok_def distinct_map lessThan_atLeast0)

lemma header_card:
  assumes "header_ok s" "log_layout s"
  shows "card (lh_block s ` {..<nat (lh_n s)}) < NBUF"
proof -
  have "nat (lh_n s) < NBUF" using assms unfolding header_ok_def log_layout_def LOGSIZE_def MAXOPBLOCKS_def NBUF_def by linarith
  then show ?thesis using card_image [OF header_inj [OF assms(1)]] by simp
qed

lemma header_slot:
  assumes "log_layout s" "header_ok s" "i < nat (lh_n s)" "j < nat (lh_n s)"
  shows "log_slot s j \<noteq> lh_block s i"
proof -
  have "int j < lg_size s - 1" using assms(2,4) unfolding header_ok_def by linarith
  then show ?thesis using log_slot_facts(2) [OF assms(1)] assms(2,3) unfolding header_ok_def by metis
qed

lemma wrote_lh_n:
  assumes "wrote s ws s'"
  shows "wrote (s\<lparr>lh_n := x\<rparr>) ws (s'\<lparr>lh_n := x\<rparr>)"
proof -
  have "bst.more s' = bst.more s" using assms by (simp add: wrote_def)
  then have "bst.more (s'\<lparr>lh_n := x\<rparr>) = bst.more (s\<lparr>lh_n := x\<rparr>)" by (cases s, cases s') simp
  then show ?thesis using assms by (simp add: wrote_def)
qed

lemma header_disjoint:
  assumes "log_layout s" "header_ok s"
  shows "lh_block s ` {..<nat (lh_n s)} \<inter> log_slot s ` {..<nat (lh_n s)} = {}"
proof (rule equals0I)
  fix x assume "x \<in> lh_block s ` {..<nat (lh_n s)} \<inter> log_slot s ` {..<nat (lh_n s)}"
  then obtain i j where "i < nat (lh_n s)" "j < nat (lh_n s)" "lh_block s i = log_slot s j" by auto
  then show False using header_slot [OF assms, of i j] by metis
qed

lemma install_loop:
  assumes st: "log_layout s" "header_ok s" "cache_ok s" "heldb s = {}" and D: "dirtyb s = {} \<or> dirtyb s = lh_block s ` {..<nat (lh_n s)}"
    and k: "k \<le> nat (lh_n s)"
  obtains s' where "foldk install_one [0..<k] s = Inr s'" "wrote s (installs s k) s'"
  using k
proof (induction k arbitrary: thesis)
  case 0
  show ?case by (rule "0.prems"(1) [of s]) (simp_all add: installs_def wrote_Nil st)
next
  case (Suc k)
  obtain t where t: "foldk install_one [0..<k] s = Inr t" "wrote s (installs s k) t"
    using Suc.IH Suc.prems(2) by auto
  note f = wrote_frame [OF t(2)] wrote_layout [OF t(2)]
  have k: "k < nat (lh_n s)" using Suc.prems(2) by simp
  have t': "cache_ok t" "heldb t = {}" "dirtyb t = dirtyb s - lh_block s ` {..<k}" "view t = apply_writes (installs s k) (view s)"
    using t(2) by (auto simp: wrote_def fst_installs)
  have "log_slot s k \<notin> lh_block s ` {..<k}"
    using header_slot [OF st(1,2) less_trans k] k by (metis imageE lessThan_iff)
  then have v: "view t (log_slot s k) = view s (log_slot s k)" using t'(4) by (simp add: apply_writes_other fst_installs)
  have "lh_block s k \<notin> lh_block s ` {..<k}" using inj_onD [OF header_inj [OF st(2)], of k] k by fastforce
  moreover have "card (dirtyb t) \<le> card (dirtyb s)" using t'(3) busy_card(2) [OF st(3)] by (simp add: card_mono)
  ultimately have "card (dirtyb t) + 1 < NBUF \<or> card (dirtyb t) < NBUF \<and> lh_block s k \<in> dirtyb t"
    using D header_card [OF st(2,1)] t'(3) k by (auto simp: NBUF_def)
  then obtain u where u: "install_one k t = Inr u" "wrote t [(lh_block s k, view s (log_slot s k))] u"
    using install_one_ok [of t k] t'(1,2) f st k v by auto
  show ?case
  proof (rule Suc.prems(1))
    show "foldk install_one [0..<Suc k] s = Inr u" using t(1) u(1) by (simp add: foldk_append)
    show "wrote s (installs s (Suc k)) u" using wrote_trans [OF t(2) u(2)] by (simp add: installs_def)
  qed
qed

lemma write_log_loop:
  assumes st: "log_layout s" "header_ok s" "cache_ok s" "heldb s = {}" and D: "dirtyb s = lh_block s ` {..<nat (lh_n s)}"
    and k: "k \<le> nat (lh_n s)"
  obtains s' where "foldk write_log_one [0..<k] s = Inr s'" "wrote s (log_copies s k) s'"
  using k
proof (induction k arbitrary: thesis)
  case 0
  show ?case by (rule "0.prems"(1) [of s]) (simp_all add: log_copies_def wrote_Nil st)
next
  case (Suc k)
  obtain t where t: "foldk write_log_one [0..<k] s = Inr t" "wrote s (log_copies s k) t"
    using Suc.IH Suc.prems(2) by auto
  note f = wrote_frame [OF t(2)] wrote_layout [OF t(2)]
  have k: "k < nat (lh_n s)" using Suc.prems(2) by simp
  have ns: "lh_block s i \<notin> log_slot s ` {..<k}" if "i < nat (lh_n s)" for i
  proof
    assume "lh_block s i \<in> log_slot s ` {..<k}"
    then obtain j where "j < k" "lh_block s i = log_slot s j" by auto
    then show False using header_slot [OF st(1,2) that, of j] k by simp
  qed
  then have dt: "dirtyb t = dirtyb s" using t(2) by (auto simp: wrote_def fst_installs D)
  have t': "cache_ok t" "heldb t = {}" "view t (lh_block s k) = view s (lh_block s k)"
    using t(2) ns [OF k] by (simp_all add: wrote_def apply_writes_other fst_installs)
  obtain u where u: "write_log_one k t = Inr u" "wrote t [(log_slot s k, view s (lh_block s k))] u"
    using write_log_one_ok [of t k] t' dt D f st k header_card [OF st(2,1)] by auto
  show ?case
  proof (rule Suc.prems(1))
    show "foldk write_log_one [0..<Suc k] s = Inr u" using t(1) u(1) by (simp add: foldk_append)
    show "wrote s (log_copies s (Suc k)) u" using wrote_trans [OF t(2) u(2)] by (simp add: log_copies_def)
  qed
qed

lemma write_head_ok:
  assumes "log_layout s" "cache_ok s" "heldb s = {}" "card (dirtyb s) < NBUF"
  obtains s' where "write_head s = Inr s'" "wrote s [(lg_start s, put_head (lh_n s) (lh_block s) (view s (lg_start s)))] s'"
proof -
  have dev: "lg_dev s = 1" using assms(1) by (simp add: log_layout_def)
  obtain p s1 where r: "bread 1 (lg_start s) s = Inr (p, s1)" and "got s (lg_start s) p s1"
    using bread_ok [of s "lg_start s"] assms log_start_facts(2) [OF assms(1)] by auto
  then have g: "cache_ok s1" "holds s1 p (lg_start s)" "b_data (bufs s1 p) = view s (lg_start s)" "view s1 = view s"
    "heldb s1 = {lg_start s}" "dirtyb s1 = dirtyb s" "same_disk s s1" using assms(3) by (simp_all add: got_def)
  let ?f = "\<lambda>x. x\<lparr>b_data := put_head (lh_n s) (lh_block s) (b_data x)\<rparr>"
  note h = held_upd [OF g(1,2), of ?f, simplified]
  have hd: "holds (upd_buf p ?f s1) p (lg_start s)" "heldb (upd_buf p ?f s1) = {lg_start s}" using h(3,4) g(2,5) by simp_all
  obtain s4 s6 where w: "bwrite p (upd_buf p ?f s1) = Inr s4" "brelse p s4 = Inr s6"
    "wrote (upd_buf p ?f s1) [(lg_start s, view (upd_buf p ?f s1) (lg_start s))] s6"
    using write_release [OF h(1) hd] by blast
  have "write_head s = Inr s6" using r w dev g(7) by (simp add: write_head_def lg_frame)
  moreover have "dirtyb (upd_buf p ?f s1) - {lg_start s} = dirtyb s - {lg_start s}" using h(6) g(6) by auto
  then have "wrote s [(lg_start s, put_head (lh_n s) (lh_block s) (view s (lg_start s)))] s6"
    using w(3) h(5) g(3,4,7) by (simp add: wrote_def same_disk_def)
  ultimately show ?thesis using that by blast
qed

text \<open>The block writes of a commit.\<close>

definition commit_writes :: "'a logst_scheme \<Rightarrow> (u32 \<times> bdata) list" where
  "commit_writes s =
     (let n = nat (lh_n s); hdr = put_head (lh_n s) (lh_block s) (view s (lg_start s))
      in log_copies s n @ [(lg_start s, hdr)] @ map (\<lambda>i. (lh_block s i, view s (lh_block s i))) [0..<n]
         @ [(lg_start s, put_head 0 (lh_block s) hdr)])"

lemma log_slot_inj: "log_layout s \<Longrightarrow> inj_on (log_slot s) {..<nat (lg_size s - 1)}"
proof (rule inj_onI)
  fix i j assume a: "log_layout s" "i \<in> {..<nat (lg_size s - 1)}" "j \<in> {..<nat (lg_size s - 1)}" "log_slot s i = log_slot s j"
  then have "int i < lg_size s - 1" "int j < lg_size s - 1" by simp_all
  then have "unat (lg_start s) + i + 1 = unat (lg_start s) + j + 1"
    using log_slot_facts(1) [OF a(1)] a(4) by metis
  then show "i = j" by simp
qed

lemma log_copies_at:
  assumes "log_layout s" "header_ok s" "i < nat (lh_n s)"
  shows "apply_writes (log_copies s (nat (lh_n s))) d (log_slot s i) = view s (lh_block s i)"
proof (rule apply_writes_at)
  have "nat (lh_n s) \<le> nat (lg_size s - 1)" using assms(2) unfolding header_ok_def by linarith
  then have "inj_on (log_slot s) {..<nat (lh_n s)}" using inj_on_subset [OF log_slot_inj [OF assms(1)]] by simp
  then show "distinct (map fst (log_copies s (nat (lh_n s))))" by (simp add: log_copies_def o_def distinct_map lessThan_atLeast0)
  show "(log_slot s i, view s (lh_block s i)) \<in> set (log_copies s (nat (lh_n s)))" using assms(3) by (auto simp: log_copies_def)
qed

lemma start_not_slot: "log_layout s \<Longrightarrow> header_ok s \<Longrightarrow> k \<le> nat (lh_n s) \<Longrightarrow> lg_start s \<notin> log_slot s ` {..<k}"
proof
  assume a: "log_layout s" "header_ok s" "k \<le> nat (lh_n s)" "lg_start s \<in> log_slot s ` {..<k}"
  then obtain i where i: "i < k" "log_slot s i = lg_start s" by auto
  then have "int i < lg_size s - 1" using a(2,3) unfolding header_ok_def by linarith
  then show False using log_slot_facts(4) [OF a(1)] i(2) by blast
qed

lemma commit_ok:
  assumes st: "log_layout s" "header_ok s" "cache_ok s" "heldb s = {}" and D: "dirtyb s = lh_block s ` {..<nat (lh_n s)}"
    and n: "lh_n s > 0"
  obtains s' where "commit s = Inr s'" "wrote (s\<lparr>lh_n := 0\<rparr>) (commit_writes s) s'"
proof -
  let ?n = "nat (lh_n s)" and ?b = "lh_block s"
  let ?hdr = "put_head (lh_n s) ?b (view s (lg_start s))"
  obtain s1 where s1: "write_log s = Inr s1" "wrote s (log_copies s ?n) s1"
    using write_log_loop [OF st D order_refl] unfolding write_log_def .
  note f1 = wrote_frame [OF s1(2)] wrote_layout [OF s1(2)]
  have v1: "view s1 (lg_start s) = view s (lg_start s)"
    using s1(2) start_not_slot [OF st(1,2) order_refl] by (simp add: wrote_def apply_writes_other fst_installs)
  have d1: "dirtyb s1 = dirtyb s" using s1(2) Diff_triv [OF header_disjoint [OF st(1,2)]] by (simp add: wrote_def fst_installs D)
  obtain s2 where s2: "write_head s1 = Inr s2" "wrote s1 [(lg_start s, ?hdr)] s2"
    using write_head_ok [of s1] s1(2) f1 st d1 D header_card [OF st(2,1)] v1 by (auto simp: wrote_def)
  note f2 = wrote_frame [OF s2(2)] wrote_layout [OF s2(2)]
  have "lg_start s \<notin> ?b ` {..<?n}" using st(2) log_start_facts(1) [OF st(1)] by (auto simp: header_ok_def)
  then have d2: "dirtyb s2 = ?b ` {..<?n}" using s2(2) d1 D by (simp add: wrote_def)
  have v2: "view s2 (log_slot s i) = view s (?b i)" if "i < ?n" for i
  proof -
    have "log_slot s i \<in> log_slot s ` {..<?n}" using that by (intro imageI) simp
    then have "log_slot s i \<noteq> lg_start s" using start_not_slot [OF st(1,2) order_refl] by metis
    then show ?thesis using s1(2) s2(2) log_copies_at [OF st(1,2) that] by (simp add: wrote_def)
  qed
  obtain s3 where s3: "install_trans s2 = Inr s3" "wrote s2 (installs s2 ?n) s3"
    using install_loop [of s2 ?n] f1 f2 st d2 s2(2) unfolding install_trans_def by (auto simp: wrote_def)
  have i2: "installs s2 ?n = map (\<lambda>i. (?b i, view s (?b i))) [0..<?n]" using v2 by (simp add: installs_def f1 f2)
  note f3 = wrote_frame [OF s3(2)] wrote_layout [OF s3(2)]
  have d3: "dirtyb s3 = {}" using s3(2) d2 by (simp add: wrote_def fst_installs f1 f2)
  have v3: "view s3 (lg_start s) = ?hdr"
    using s3(2) s2(2) \<open>lg_start s \<notin> ?b ` {..<?n}\<close> by (simp add: wrote_def apply_writes_other fst_installs f1 f2)
  have lay: "log_layout (s3\<lparr>lh_n := 0\<rparr>)" using st f1 f2 f3 by (simp add: log_layout_def)
  obtain s4 where s4: "write_head (s3\<lparr>lh_n := 0\<rparr>) = Inr s4" "wrote (s3\<lparr>lh_n := 0\<rparr>) [(lg_start s, put_head 0 ?b ?hdr)] s4"
    using write_head_ok [OF lay] s3(2) d3 v3 by (auto simp: wrote_def f1 f2 f3 NBUF_def)
  have "wrote s (log_copies s ?n @ [(lg_start s, ?hdr)] @ map (\<lambda>i. (?b i, view s (?b i))) [0..<?n]) s3"
    using wrote_trans [OF wrote_trans [OF s1(2) s2(2)] s3(2)] i2 by simp
  then have "wrote (s\<lparr>lh_n := 0\<rparr>) (log_copies s ?n @ [(lg_start s, ?hdr)] @ map (\<lambda>i. (?b i, view s (?b i))) [0..<?n]) (s3\<lparr>lh_n := 0\<rparr>)"
    by (rule wrote_lh_n)
  from wrote_trans [OF this s4(2)] have "wrote (s\<lparr>lh_n := 0\<rparr>) (commit_writes s) s4"
    by (simp add: commit_writes_def Let_def)
  moreover have "commit s = Inr s4" using n s1(1) s2(1) s3(1) s4(1) by (simp add: commit_def)
  ultimately show ?thesis using that by blast
qed

section \<open>Recovery\<close>

text \<open>A buffer that is neither dirty nor held shows what is on the disk.\<close>

lemma view_clean: "cache_ok s \<Longrightarrow> n \<notin> dirtyb s \<Longrightarrow> n \<notin> heldb s \<Longrightarrow> view s n = disk s n"
proof (cases "\<exists>i. caches s i n")
  assume a: "cache_ok s" "n \<notin> dirtyb s" "n \<notin> heldb s" and "\<exists>i. caches s i n"
  then obtain i where i: "caches s i n" by blast
  then have "slot_ok s i" "\<not> b_dirty (bufs s i)" "\<not> sl_locked (b_lock (bufs s i))"
    using a cache_slot by (auto simp: caches_def dirtyb_def heldb_def holds_def)
  then show ?thesis using i view_cached [OF a(1) i] by (auto simp: slot_ok_def Let_def caches_def)
qed (use view_uncached in blast)

text \<open>\<open>head_n\<close> and \<open>head_block\<close> read a header block; \<open>head_ok\<close> says that it is a sensible one.\<close>

definition head_n :: "bdata \<Rightarrow> int" where "head_n d = sint (get32 d 0)"

definition head_block :: "bdata \<Rightarrow> nat \<Rightarrow> u32" where "head_block d i = get32 d (4 + 4 * i)"

definition head_ok :: "'a logst_scheme \<Rightarrow> bdata \<Rightarrow> bool" where
  "head_ok s d \<longleftrightarrow> 0 \<le> head_n d \<and> head_n d < lg_size s \<and> distinct (map (head_block d) [0..<nat (head_n d)])
     \<and> (\<forall>i < nat (head_n d). head_block d i < disksize s \<and> head_block d i \<notin> log_area s)"

lemma read_head_ok:
  assumes "log_layout s" "cache_ok s" "heldb s = {}" "card (dirtyb s) < NBUF" "head_n (view s (lg_start s)) \<le> LOGSIZE"
  obtains s' where "read_head s = Inr s'" "cache_ok s'" "heldb s' = {}" "view s' = view s" "dirtyb s' = dirtyb s" "disk s' = disk s"
    "disksize s' = disksize s" "lg_start s' = lg_start s" "lg_size s' = lg_size s" "lg_dev s' = lg_dev s"
    "lh_n s' = head_n (view s (lg_start s))" "\<And>i. i < nat (lh_n s') \<Longrightarrow> lh_block s' i = head_block (view s (lg_start s)) i"
    "lg_outstanding s' = lg_outstanding s" "lg_committing s' = lg_committing s" "logst.more s' = logst.more s"
proof -
  have dev: "lg_dev s = 1" using assms(1) by (simp add: log_layout_def)
  obtain p s1 where r: "bread 1 (lg_start s) s = Inr (p, s1)" and "got s (lg_start s) p s1"
    using bread_ok [of s "lg_start s"] assms(2-4) log_start_facts(2) [OF assms(1)] by auto
  then have g: "cache_ok s1" "holds s1 p (lg_start s)" "b_data (bufs s1 p) = view s (lg_start s)" "view s1 = view s"
    "heldb s1 = {lg_start s}" "dirtyb s1 = dirtyb s" "same_disk s s1" "b_dirty (bufs s1 p) \<or> view s (lg_start s) = disk s (lg_start s)"
    using assms(3) by (simp_all add: got_def)
  let ?d = "view s (lg_start s)"
  define s2 where "s2 = s1\<lparr>lh_n := head_n ?d, lh_block := (\<lambda>i. if i < nat (head_n ?d) then head_block ?d i else lh_block s1 i)\<rparr>"
  have f2: "cache_ok s2" "holds s2 p (lg_start s)" "bufs s2 = bufs s1" "disk s2 = disk s1" "disksize s2 = disksize s1" "view s2 = view s"
    "heldb s2 = {lg_start s}" "dirtyb s2 = dirtyb s" "lh_n s2 = head_n ?d" "\<And>i. i < nat (head_n ?d) \<Longrightarrow> lh_block s2 i = head_block ?d i"
    "lg_start s2 = lg_start s1" "lg_size s2 = lg_size s1" "lg_dev s2 = lg_dev s1"
    "lg_outstanding s2 = lg_outstanding s1" "lg_committing s2 = lg_committing s1" "logst.more s2 = logst.more s1"
    using g by (simp_all add: s2_def)
  have "b_dirty (bufs s2 p) \<or> view s2 (lg_start s) = disk s2 (lg_start s)" using g f2 by (simp add: same_disk_def)
  then obtain s3 where s3: "brelse p s2 = Inr s3" "cache_ok s3" "view s3 = view s2" "heldb s3 = heldb s2 - {lg_start s}"
    "dirtyb s3 = dirtyb s2" "same_disk s2 s3"
    using brelse_ok [OF f2(1,2)] by metis
  have "read_head s = Inr s3"
    using r s3(1) dev g(3) assms(5) by (simp add: read_head_def Let_def head_n_def head_block_def s2_def cong: if_cong)
  then show ?thesis
    by (rule that) (use s3 f2 lg_frame [OF s3(6)] lg_frame [OF g(7)] in simp_all)
qed

lemma recover_ok:
  assumes lay: "log_layout s" and st: "cache_ok s" "heldb s = {}" "dirtyb s = {}" and hd: "head_ok s (view s (lg_start s))"
  obtains s' where "recover_from_log s = Inr s'" "cache_ok s'" "lh_n s' = 0" "dirtyb s' = {}" "heldb s' = {}"
    "lg_start s' = lg_start s" "lg_size s' = lg_size s" "lg_dev s' = lg_dev s" "disksize s' = disksize s"
    "lg_outstanding s' = lg_outstanding s" "lg_committing s' = lg_committing s" "logst.more s' = logst.more s"
    "head_n (disk s' (lg_start s)) = 0"
    "\<And>n. n \<notin> log_area s \<Longrightarrow> n \<notin> head_block (view s (lg_start s)) ` {..<nat (head_n (view s (lg_start s)))} \<Longrightarrow> disk s' n = disk s n"
    "\<And>i. i < nat (head_n (view s (lg_start s))) \<Longrightarrow> disk s' (head_block (view s (lg_start s)) i) = view s (log_slot s i)"
proof -
  let ?d = "view s (lg_start s)"
  have le: "head_n ?d \<le> LOGSIZE" using hd lay unfolding head_ok_def log_layout_def by linarith
  have "card (dirtyb s) < NBUF" by (simp add: st(3) NBUF_def)
  then obtain s1 where s1: "read_head s = Inr s1" "cache_ok s1" "heldb s1 = {}" "view s1 = view s" "dirtyb s1 = dirtyb s" "disk s1 = disk s"
    "disksize s1 = disksize s" "lg_start s1 = lg_start s" "lg_size s1 = lg_size s" "lg_dev s1 = lg_dev s" "lh_n s1 = head_n ?d"
    "\<And>i. i < nat (lh_n s1) \<Longrightarrow> lh_block s1 i = head_block ?d i"
    "lg_outstanding s1 = lg_outstanding s" "lg_committing s1 = lg_committing s" "logst.more s1 = logst.more s"
    using read_head_ok [OF lay st(1,2) _ le] by metis
  have area: "log_area s1 = log_area s" "log_layout s1" using lay s1 by (simp_all add: log_area_def log_layout_def)
  have m: "map (lh_block s1) [0..<nat (head_n ?d)] = map (head_block ?d) [0..<nat (head_n ?d)]" using s1(11,12) by simp
  have h1: "header_ok s1" using hd s1(7,9,11,12) unfolding header_ok_def head_ok_def s1(11) m area by simp
  obtain s2 where s2: "install_trans s1 = Inr s2" "wrote s1 (installs s1 (nat (lh_n s1))) s2"
    using install_loop [OF area(2) h1 s1(2,3) _ order_refl] s1(5) st(3) unfolding install_trans_def by auto
  note f2 = wrote_frame [OF s2(2)] wrote_layout [OF s2(2)]
  have lay2: "log_layout (s2\<lparr>lh_n := 0\<rparr>)" using f2 area(2) by (simp add: log_layout_def)
  obtain s3 where s3: "write_head (s2\<lparr>lh_n := 0\<rparr>) = Inr s3"
    "wrote (s2\<lparr>lh_n := 0\<rparr>) [(lg_start s, put_head 0 (lh_block s2) (view s2 (lg_start s)))] s3"
    using write_head_ok [OF lay2] s2(2) s1(5,8) st(3) f2 by (auto simp: wrote_def NBUF_def)
  note f3 = wrote_frame [OF s3(2)]
  have I: "installs s1 (nat (lh_n s1)) = map (\<lambda>i. (head_block ?d i, view s (log_slot s i))) [0..<nat (head_n ?d)]"
    using s1(4,8,11,12) by (simp add: installs_def)
  have d: "disk s3 = (apply_writes (installs s1 (nat (lh_n s1))) (disk s))(lg_start s := put_head 0 (lh_block s2) (view s2 (lg_start s)))"
    using s2(2) s3(2) s1(6) by (simp add: wrote_def)
  show ?thesis
  proof (rule that [of s3])
    show "recover_from_log s = Inr s3" using s1(1) s2(1) s3(1) by (simp add: recover_from_log_def)
    show "dirtyb s3 = {}" using s3(2) s2(2) s1(5) st(3) by (simp add: wrote_def)
    show "head_n (disk s3 (lg_start s)) = 0" by (simp add: d head_n_def)
    show "disk s3 n = disk s n" if "n \<notin> log_area s" "n \<notin> head_block ?d ` {..<nat (head_n ?d)}" for n
      using that log_start_facts(1) [OF lay] by (auto simp: d I apply_writes_other image_image lessThan_atLeast0)
    show "disk s3 (head_block ?d i) = view s (log_slot s i)" if "i < nat (head_n ?d)" for i
    proof -
      have "head_block ?d i \<noteq> lg_start s" using that hd log_start_facts(1) [OF lay] by (auto simp: head_ok_def)
      moreover have "apply_writes (installs s1 (nat (lh_n s1))) (disk s) (head_block ?d i) = view s (log_slot s i)"
        by (rule apply_writes_at) (use that hd in \<open>auto simp: I o_def head_ok_def\<close>)
      ultimately show ?thesis by (simp add: d)
    qed
  qed (use s3(2) f3 f2 s1 in \<open>simp_all add: wrote_def\<close>)
qed

text \<open>\<open>boot b\<close> is \<open>b\<close> with the fields that \<^const>\<open>initlog\<close> sets from the super block.\<close>

definition boot :: "'a logst_scheme \<Rightarrow> 'a logst_scheme" where
  "boot b = b\<lparr>lg_start := sb_logstart (sb_of (disk b 1)), lg_size := sint (sb_nlog (sb_of (disk b 1))), lg_dev := 1\<rparr>"

lemma initlog_ok:
  assumes z: "zeroed b" and lay: "log_layout (boot b)" and one: "1 < disksize b" and hd: "head_ok (boot b) (disk b (lg_start (boot b)))"
  obtains r where "initlog 1 (binit b) = Inr r" "cache_ok r" "lh_n r = 0" "dirtyb r = {}" "heldb r = {}"
    "lg_start r = lg_start (boot b)" "lg_size r = lg_size (boot b)" "lg_dev r = 1" "disksize r = disksize b"
    "lg_outstanding r = lg_outstanding b" "lg_committing r = lg_committing b" "logst.more r = logst.more b" "head_n (disk r (lg_start r)) = 0"
    "\<And>n. n \<notin> log_area (boot b) \<Longrightarrow>
        n \<notin> head_block (disk b (lg_start (boot b))) ` {..<nat (head_n (disk b (lg_start (boot b))))} \<Longrightarrow> disk r n = disk b n"
    "\<And>i. i < nat (head_n (disk b (lg_start (boot b)))) \<Longrightarrow>
        disk r (head_block (disk b (lg_start (boot b))) i) = disk b (log_slot (boot b) i)"
proof -
  note t = binit_ok [OF z]
  have one': "1 < disksize (binit b)" using one t(5) by (simp add: same_disk_def)
  have room: "card (dirtyb (binit b) \<union> heldb (binit b)) < NBUF \<or> 1 \<in> dirtyb (binit b)" by (simp add: t NBUF_def)
  obtain p s1 s2 where r: "bread 1 1 (binit b) = Inr (p, s1)" "b_data (bufs s1 p) = view (binit b) 1" "brelse p s1 = Inr s2" "cache_ok s2"
    "view s2 = view (binit b)" "heldb s2 = heldb (binit b)" "dirtyb s2 = dirtyb (binit b)" "same_disk (binit b) s2"
    using read_release [OF t(1) _ one' room] t(3) by (metis empty_iff)
  let ?sb = "sb_of (disk b 1)"
  define s3 where "s3 = s2\<lparr>lg_start := sb_logstart ?sb, lg_size := sint (sb_nlog ?sb), lg_dev := 1\<rparr>"
  have f3: "cache_ok s3" "heldb s3 = {}" "dirtyb s3 = {}" "view s3 = disk b" "disk s3 = disk b" "disksize s3 = disksize b"
    "lg_start s3 = lg_start (boot b)" "lg_size s3 = lg_size (boot b)" "lg_dev s3 = 1"
    "lg_outstanding s3 = lg_outstanding b" "lg_committing s3 = lg_committing b" "logst.more s3 = logst.more b"
    using r t lg_frame [OF r(8)] lg_frame [OF t(5)] by (simp_all add: s3_def boot_def same_disk_def)
  have a: "log_area s3 = log_area (boot b)" by (simp add: log_area_def f3)
  have l3: "log_layout s3" using lay f3 by (simp add: log_layout_def boot_def)
  have h3: "head_ok s3 (view s3 (lg_start s3))" using hd f3 a by (simp add: head_ok_def boot_def)
  have e: "initlog 1 (binit b) = recover_from_log s3"
    using r t(2) by (simp add: initlog_def readsb_def Let_def s3_def LOGSIZE_def MAXOPBLOCKS_def BSIZE_def)
  obtain r' where r': "recover_from_log s3 = Inr r'" "cache_ok r'" "lh_n r' = 0" "dirtyb r' = {}" "heldb r' = {}"
    "lg_start r' = lg_start s3" "lg_size r' = lg_size s3" "lg_dev r' = lg_dev s3" "disksize r' = disksize s3"
    "lg_outstanding r' = lg_outstanding s3" "lg_committing r' = lg_committing s3" "logst.more r' = logst.more s3" "head_n (disk r' (lg_start s3)) = 0"
    "\<And>n. n \<notin> log_area s3 \<Longrightarrow> n \<notin> head_block (view s3 (lg_start s3)) ` {..<nat (head_n (view s3 (lg_start s3)))} \<Longrightarrow> disk r' n = disk s3 n"
    "\<And>i. i < nat (head_n (view s3 (lg_start s3))) \<Longrightarrow> disk r' (head_block (view s3 (lg_start s3)) i) = view s3 (log_slot s3 i)"
    using recover_ok [OF l3 f3(1-3) h3] by blast
  show ?thesis
    by (rule that [of r']) (use e r' f3 a in simp_all)
qed

section \<open>Crashes\<close>

text \<open>
  The state in which \<^const>\<open>commit\<close> is called: no buffer is held, the dirty blocks are those of the
  header, the log on the disk is empty, and the super block on the disk describes the log.
\<close>

definition txn_ready :: "'a logst_scheme \<Rightarrow> bool" where
  "txn_ready s \<longleftrightarrow> log_layout s \<and> header_ok s \<and> cache_ok s \<and> heldb s = {} \<and> dirtyb s = lh_block s ` {..<nat (lh_n s)}
     \<and> head_n (disk s (lg_start s)) = 0 \<and> sb_logstart (sb_of (disk s 1)) = lg_start s \<and> sint (sb_nlog (sb_of (disk s 1))) = lg_size s
     \<and> 1 \<notin> log_area s \<and> 1 \<notin> dirtyb s \<and> 1 < disksize s"

lemma slot_in_area:
  assumes "log_layout s" "header_ok s" "k \<le> nat (lh_n s)"
  shows "log_slot s ` {..<k} \<subseteq> log_area s"
proof (rule image_subsetI)
  fix i assume "i \<in> {..<k}"
  then have "int i < lg_size s - 1" using assms(2,3) unfolding header_ok_def lessThan_iff by linarith
  then show "log_slot s i \<in> log_area s" by (rule log_slot_facts(2) [OF assms(1)])
qed

lemma three_parts: "X \<subseteq> A \<Longrightarrow> a \<in> A \<Longrightarrow> Y \<subseteq> D \<Longrightarrow> X \<union> {a} \<union> Y \<subseteq> A \<union> D"
  by blast

lemma crash_before:
  assumes "txn_ready s" "k \<le> nat (lh_n s)"
  shows "apply_writes (take k (commit_writes s)) d (lg_start s) = d (lg_start s)"
    "m \<notin> log_area s \<Longrightarrow> apply_writes (take k (commit_writes s)) d m = d m"
proof -
  have ws: "take k (commit_writes s) = log_copies s k"
    using assms(2) by (simp add: commit_writes_def Let_def log_copies_def take_map)
  have l: "log_layout s" "header_ok s" using assms(1) by (simp_all add: txn_ready_def)
  show "apply_writes (take k (commit_writes s)) d (lg_start s) = d (lg_start s)"
    using start_not_slot [OF l assms(2)] by (simp add: ws apply_writes_other fst_installs)
  show "apply_writes (take k (commit_writes s)) d m = d m" if "m \<notin> log_area s"
    unfolding ws by (rule apply_writes_other, unfold fst_installs) (use that slot_in_area [OF l assms(2)] in blast)
qed

lemma crash_between:
  assumes t: "txn_ready s" and j: "j \<le> nat (lh_n s)"
  defines "ws \<equiv> take (nat (lh_n s) + 1 + j) (commit_writes s)"
  shows "apply_writes ws d (lg_start s) = put_head (lh_n s) (lh_block s) (view s (lg_start s))"
    "i < nat (lh_n s) \<Longrightarrow> apply_writes ws d (log_slot s i) = view s (lh_block s i)"
    "m \<notin> log_area s \<Longrightarrow> m \<notin> dirtyb s \<Longrightarrow> apply_writes ws d m = d m"
proof -
  let ?n = "nat (lh_n s)" and ?H = "(lg_start s, put_head (lh_n s) (lh_block s) (view s (lg_start s)))"
  let ?I = "map (\<lambda>i. (lh_block s i, view s (lh_block s i))) [0..<j]"
  have ws: "ws = log_copies s ?n @ [?H] @ ?I"
    using j by (simp add: ws_def commit_writes_def Let_def log_copies_def take_map)
  have l: "log_layout s" "header_ok s" "dirtyb s = lh_block s ` {..<?n}" using t by (simp_all add: txn_ready_def)
  have I: "fst ` set ?I \<subseteq> dirtyb s" using j l(3) by auto
  have B: "dirtyb s \<inter> log_area s = {}" using l(2,3) by (auto simp: header_ok_def)
  have s0: "lg_start s \<in> log_area s" by (rule log_start_facts(1) [OF l(1)])
  have a: "x \<notin> fst ` set ?I" if "x \<in> log_area s" for x using that I B by blast
  show "apply_writes ws d (lg_start s) = put_head (lh_n s) (lh_block s) (view s (lg_start s))"
    using a [OF s0] by (simp add: ws apply_writes_other)
  show "apply_writes ws d (log_slot s i) = view s (lh_block s i)" if i: "i < ?n"
  proof -
    have "log_slot s i \<in> log_slot s ` {..<?n}" using i by (intro imageI) simp
    then have "log_slot s i \<in> log_area s" "log_slot s i \<noteq> lg_start s"
      using slot_in_area [OF l(1,2) order_refl] start_not_slot [OF l(1,2) order_refl] by (blast, metis)
    then show ?thesis using a log_copies_at [OF l(1,2) i] by (simp add: ws apply_writes_other)
  qed
  show "apply_writes ws d m = d m" if "m \<notin> log_area s" "m \<notin> dirtyb s"
  proof (rule apply_writes_other)
    have "fst ` set ws = log_slot s ` {..<?n} \<union> {lg_start s} \<union> fst ` set ?I" by (simp only: ws set_append image_Un fst_installs) simp
    then show "m \<notin> fst ` set ws"
      using that subsetD [OF three_parts [OF slot_in_area [OF l(1,2) order_refl] s0 I], of m] by (metis Un_iff)
  qed
qed

lemma crash_after:
  assumes t: "txn_ready s" and k: "2 * nat (lh_n s) + 2 \<le> k"
  shows "head_n (apply_writes (take k (commit_writes s)) d (lg_start s)) = 0"
    "i < nat (lh_n s) \<Longrightarrow> apply_writes (take k (commit_writes s)) d (lh_block s i) = view s (lh_block s i)"
    "m \<notin> log_area s \<Longrightarrow> m \<notin> dirtyb s \<Longrightarrow> apply_writes (take k (commit_writes s)) d m = d m"
proof -
  let ?n = "nat (lh_n s)" and ?I = "map (\<lambda>i. (lh_block s i, view s (lh_block s i))) [0..<nat (lh_n s)]"
  have ws: "take k (commit_writes s) = commit_writes s"
    using k by (simp add: commit_writes_def Let_def log_copies_def)
  have l: "log_layout s" "header_ok s" "dirtyb s = lh_block s ` {..<?n}" using t by (simp_all add: txn_ready_def)
  have s0: "lg_start s \<in> log_area s" by (rule log_start_facts(1) [OF l(1)])
  show "head_n (apply_writes (take k (commit_writes s)) d (lg_start s)) = 0"
    unfolding ws by (simp add: commit_writes_def Let_def head_n_def)
  show "apply_writes (take k (commit_writes s)) d (lh_block s i) = view s (lh_block s i)" if i: "i < ?n"
  proof -
    have "lh_block s i \<noteq> lg_start s" using l(2) i s0 by (auto simp: header_ok_def)
    moreover have "apply_writes ?I e (lh_block s i) = view s (lh_block s i)" for e
      by (rule apply_writes_at) (use l(2) i in \<open>auto simp: o_def header_ok_def\<close>)
    ultimately show ?thesis unfolding ws by (simp add: commit_writes_def Let_def)
  qed
  show "apply_writes (take k (commit_writes s)) d m = d m" if "m \<notin> log_area s" "m \<notin> dirtyb s"
  proof (rule apply_writes_other, unfold ws)
    have "fst ` set (commit_writes s) = log_slot s ` {..<?n} \<union> {lg_start s} \<union> fst ` set ?I"
      by (simp only: commit_writes_def Let_def set_append image_Un fst_installs) auto
    moreover have I: "fst ` set ?I \<subseteq> dirtyb s" by (simp add: l(3) image_image lessThan_atLeast0)
    ultimately show "m \<notin> fst ` set (commit_writes s)"
      using that subsetD [OF three_parts [OF slot_in_area [OF l(1,2) order_refl] s0 I], of m] by (metis Un_iff)
  qed
qed

lemma ready_boot:
  assumes t: "txn_ready s" and b: "disksize b = disksize s" "disk b 1 = disk s 1"
  shows "lg_start (boot b) = lg_start s" "lg_size (boot b) = lg_size s" "log_area (boot b) = log_area s" "log_layout (boot b)"
    "head_ok (boot b) d = head_ok s d" "1 < disksize b"
proof -
  show st: "lg_start (boot b) = lg_start s" "lg_size (boot b) = lg_size s" using t b by (simp_all add: boot_def txn_ready_def)
  show a: "log_area (boot b) = log_area s" by (simp add: log_area_def st)
  show "1 < disksize b" using t b by (simp add: txn_ready_def)
  have dz: "disksize (boot b) = disksize s" using b by (simp add: boot_def)
  have "lg_dev (boot b) = 1" by (simp add: boot_def)
  then show "log_layout (boot b)" using t st dz by (simp add: log_layout_def txn_ready_def)
  show "head_ok (boot b) d = head_ok s d" by (simp add: head_ok_def st a dz)
qed

lemma head_of_put_head:
  assumes "log_layout s" "header_ok s"
  shows "head_n (put_head (lh_n s) (lh_block s) d) = lh_n s"
    "i < nat (lh_n s) \<Longrightarrow> head_block (put_head (lh_n s) (lh_block s) d) i = lh_block s i"
    "head_ok s (put_head (lh_n s) (lh_block s) d)"
proof -
  have n: "0 \<le> lh_n s" "lh_n s < 30" using assms unfolding header_ok_def log_layout_def LOGSIZE_def MAXOPBLOCKS_def by linarith+
  have "uint (of_int (lh_n s) :: u32) = lh_n s" using n by (simp add: uint_word_of_int_eq take_bit_int_eq_self)
  then show hn: "head_n (put_head (lh_n s) (lh_block s) d) = lh_n s" using n by (simp add: head_n_def sint_u32)
  show hb: "head_block (put_head (lh_n s) (lh_block s) d) i = lh_block s i" if "i < nat (lh_n s)" for i
    using put_head_block [OF that] by (simp add: head_block_def)
  have "map (head_block (put_head (lh_n s) (lh_block s) d)) [0..<nat (lh_n s)] = map (lh_block s) [0..<nat (lh_n s)]" using hb by simp
  then show "head_ok s (put_head (lh_n s) (lh_block s) d)" using assms(2) hb unfolding head_ok_def hn header_ok_def by metis
qed

lemma recover_from:
  assumes t: "txn_ready s" and z: "zeroed b" "disksize b = disksize s" and d: "disk b 1 = disk s 1"
    and h: "head_ok s (disk b (lg_start s))"
    and old: "\<And>m. m \<notin> log_area s \<Longrightarrow> m \<notin> head_block (disk b (lg_start s)) ` {..<nat (head_n (disk b (lg_start s)))} \<Longrightarrow> disk b m = g m"
    and new: "\<And>i. i < nat (head_n (disk b (lg_start s))) \<Longrightarrow> disk b (log_slot s i) = g (head_block (disk b (lg_start s)) i)"
  shows "\<exists>r. initlog 1 (binit b) = Inr r \<and> cache_ok r \<and> lh_n r = 0 \<and> head_n (disk r (lg_start r)) = 0
     \<and> (\<forall>n. n \<notin> log_area s \<longrightarrow> disk r n = g n)"
proof -
  note rb = ready_boot [OF t z(2) d]
  obtain r where r: "initlog 1 (binit b) = Inr r" "cache_ok r" "lh_n r = 0" "head_n (disk r (lg_start r)) = 0"
    "\<And>n. n \<notin> log_area s \<Longrightarrow> n \<notin> head_block (disk b (lg_start s)) ` {..<nat (head_n (disk b (lg_start s)))} \<Longrightarrow> disk r n = disk b n"
    "\<And>i. i < nat (head_n (disk b (lg_start s))) \<Longrightarrow> disk r (head_block (disk b (lg_start s)) i) = disk b (log_slot s i)"
    using initlog_ok [OF z(1) rb(4,6)] h rb by metis
  have "disk r n = g n" if "n \<notin> log_area s" for n
    using that r(5,6) old new
    by (cases "n \<in> head_block (disk b (lg_start s)) ` {..<nat (head_n (disk b (lg_start s)))}") auto
  then show ?thesis using r by blast
qed

text \<open>What a crash after \<open>k\<close> of the block writes of a commit leaves behind, once the log has been recovered.\<close>

lemma recovered:
  assumes t: "txn_ready s" and z: "zeroed b" "disksize b = disksize s" and d: "disk b = apply_writes (take k (commit_writes s)) (disk s)"
  shows "\<exists>r. initlog 1 (binit b) = Inr r \<and> cache_ok r \<and> lh_n r = 0 \<and> head_n (disk r (lg_start r)) = 0
     \<and> (\<forall>n. n \<notin> log_area s \<longrightarrow> disk r n = (if k \<le> nat (lh_n s) then disk s n else view s n))"
proof -
  let ?n = "nat (lh_n s)"
  have l: "log_layout s" "header_ok s" "dirtyb s = lh_block s ` {..<?n}" "1 \<notin> log_area s" "1 \<notin> dirtyb s"
    "cache_ok s" "heldb s = {}" "head_n (disk s (lg_start s)) = 0" using t unfolding txn_ready_def by blast+
  have vc: "view s m = disk s m" if "m \<notin> dirtyb s" for m using view_clean [OF l(6) that] l(7) by simp
  have h0: "head_ok s e" if "head_n e = 0" for e using that l(1) by (simp add: head_ok_def log_layout_def)
  have "a \<le> c \<or> (\<exists>j. a = c + 1 + j \<and> j \<le> c) \<or> 2 * c + 2 \<le> a" for a c :: nat by presburger
  then consider "k \<le> ?n" | j where "k = ?n + 1 + j" "j \<le> ?n" | "2 * ?n + 2 \<le> k" by blast
  then show ?thesis
  proof cases
    case 1
    note c = crash_before [OF t 1, where d = "disk s", folded d]
    show ?thesis by (rule recover_from [OF t z]) (use c l h0 1 in simp_all)
  next
    case (2 j)
    note c = crash_between [OF t 2(2), folded 2(1), where d = "disk s", folded d]
    note h = head_of_put_head [OF l(1,2), where d = "view s (lg_start s)"]
    show ?thesis by (rule recover_from [OF t z]) (use c l h vc 2 in simp_all)
  next
    case 3
    note c = crash_after [OF t 3, where d = "disk s", folded d]
    have "disk b m = view s m" if "m \<notin> log_area s" for m using that c(2,3) l(3) vc by (cases "m \<in> dirtyb s") auto
    then show ?thesis by (intro recover_from [OF t z]) (use c l h0 3 in simp_all)
  qed
qed

section \<open>Changing a block inside a transaction\<close>

text \<open>The state during a transaction; \<^const>\<open>txn_ready\<close> is this with no buffer held.\<close>

definition log_inv :: "'a logst_scheme \<Rightarrow> bool" where
  "log_inv s \<longleftrightarrow> log_layout s \<and> header_ok s \<and> cache_ok s \<and> dirtyb s = lh_block s ` {..<nat (lh_n s)}
     \<and> head_n (disk s (lg_start s)) = 0 \<and> sb_logstart (sb_of (disk s 1)) = lg_start s \<and> sint (sb_nlog (sb_of (disk s 1))) = lg_size s
     \<and> 1 \<notin> log_area s \<and> 1 \<notin> dirtyb s \<and> 1 < disksize s"

lemma txn_ready_iff: "txn_ready s \<longleftrightarrow> log_inv s \<and> heldb s = {}"
  unfolding txn_ready_def log_inv_def by blast

lemma log_inv_cong:
  assumes "cache_ok s'" "dirtyb s' = dirtyb s" "same_disk s s'" "log_inv s"
  shows "log_inv s'"
proof -
  note f = lg_frame [OF assms(3)]
  have a: "log_area s' = log_area s" by (simp add: log_area_def f)
  show ?thesis using assms(1,4) unfolding log_inv_def log_layout_def header_ok_def f a assms(2) by blast
qed

lemma log_write_header:
  assumes h: "header_ok s" and n: "n < disksize s" "n \<notin> log_area s" and room: "lh_n s < lg_size s - 1"
  defines "i \<equiv> (case find (\<lambda>i. lh_block s i = n) [0..<nat (lh_n s)] of Some i \<Rightarrow> i | None \<Rightarrow> nat (lh_n s))"
  defines "s' \<equiv> (let s = s\<lparr>lh_block := (lh_block s)(i := n)\<rparr> in if int i = lh_n s then s\<lparr>lh_n := lh_n s + 1\<rparr> else s)"
  shows "header_ok s'" "lh_block s' ` {..<nat (lh_n s')} = insert n (lh_block s ` {..<nat (lh_n s)})"
    "lh_n s' = (if n \<in> lh_block s ` {..<nat (lh_n s)} then lh_n s else lh_n s + 1)"
proof -
  have pos: "0 \<le> lh_n s" using h by (simp add: header_ok_def)
  have "header_ok s' \<and> lh_block s' ` {..<nat (lh_n s')} = insert n (lh_block s ` {..<nat (lh_n s)})
      \<and> lh_n s' = (if n \<in> lh_block s ` {..<nat (lh_n s)} then lh_n s else lh_n s + 1)"
  proof (cases "find (\<lambda>i. lh_block s i = n) [0..<nat (lh_n s)]")
    case (Some j)
    then have j: "j < nat (lh_n s)" "lh_block s j = n" by (auto simp: find_upt_Some_iff)
    then have "i = j" "int j \<noteq> lh_n s" "(lh_block s)(j := n) = lh_block s" using Some by (auto simp: i_def)
    then have "s' = s" by (simp add: s'_def Let_def)
    then show ?thesis using h j by auto
  next
    case None
    then have ni: "n \<notin> lh_block s ` {..<nat (lh_n s)}" by (auto simp: find_upt_None_iff)
    have s': "s' = s\<lparr>lh_block := (lh_block s)(nat (lh_n s) := n), lh_n := lh_n s + 1\<rparr>"
      using None pos by (simp add: s'_def i_def Let_def)
    have nat1: "nat (lh_n s + 1) = Suc (nat (lh_n s))" using pos by simp
    have img: "((lh_block s)(nat (lh_n s) := n)) ` {..<Suc (nat (lh_n s))} = insert n (lh_block s ` {..<nat (lh_n s)})"
      by (auto simp: lessThan_Suc)
    have m: "map ((lh_block s)(nat (lh_n s) := n)) [0..<nat (lh_n s)] = map (lh_block s) [0..<nat (lh_n s)]" by simp
    have "distinct (map ((lh_block s)(nat (lh_n s) := n)) [0..<Suc (nat (lh_n s))])"
      using h ni m by (simp add: header_ok_def lessThan_atLeast0)
    moreover have "log_area s' = log_area s" by (simp add: log_area_def s')
    ultimately have "header_ok s'" using h n room pos unfolding header_ok_def by (simp add: s' nat1 less_Suc_eq)
    moreover have "lh_block s' ` {..<nat (lh_n s')} = insert n (lh_block s ` {..<nat (lh_n s)})"
      using img by (simp add: s' nat1)
    ultimately show ?thesis using ni s' by simp
  qed
  then show "header_ok s'" "lh_block s' ` {..<nat (lh_n s')} = insert n (lh_block s ` {..<nat (lh_n s)})"
    "lh_n s' = (if n \<in> lh_block s ` {..<nat (lh_n s)} then lh_n s else lh_n s + 1)" by blast+
qed

text \<open>\<open>txn_frame s s'\<close>: what does not change in a transaction except by the operation itself.\<close>

definition txn_frame :: "'a logst_scheme \<Rightarrow> 'a logst_scheme \<Rightarrow> bool" where
  "txn_frame s s' \<longleftrightarrow> disk s' = disk s \<and> disksize s' = disksize s \<and> writes s' = writes s \<and> cur_pid s' = cur_pid s
     \<and> lg_start s' = lg_start s \<and> lg_size s' = lg_size s \<and> lg_dev s' = lg_dev s \<and> lg_outstanding s' = lg_outstanding s
     \<and> lg_committing s' = lg_committing s \<and> logst.more s' = logst.more s"

lemma same_disk_txn: "same_disk s s' \<Longrightarrow> txn_frame s s'"
  by (simp add: txn_frame_def lg_frame)

lemma txn_frame_trans: "txn_frame s s' \<Longrightarrow> txn_frame s' s'' \<Longrightarrow> txn_frame s s''"
  by (simp add: txn_frame_def)

lemma log_write_ok:
  assumes inv: "log_inv s" and h: "holds s b n" and n: "n \<notin> log_area s" "n \<noteq> 1" and room: "lh_n s < lg_size s - 1"
    and out: "1 \<le> lg_outstanding s"
  obtains s' where "log_write b s = Inr s'" "log_inv s'" "view s' = view s" "heldb s' = heldb s" "dirtyb s' = insert n (dirtyb s)"
    "txn_frame s s'" "\<And>i m. holds s' i m = holds s i m" "b_dirty (bufs s' b)"
    "lh_n s' = (if n \<in> dirtyb s then lh_n s else lh_n s + 1)"
proof -
  have l: "log_layout s" "header_ok s" "cache_ok s" "dirtyb s = lh_block s ` {..<nat (lh_n s)}" "1 \<notin> log_area s" "1 \<notin> dirtyb s"
    using inv unfolding log_inv_def by blast+
  note hf = holds_facts [OF l(3) h]
  define i where "i = (case find (\<lambda>i. lh_block s i = n) [0..<nat (lh_n s)] of Some i \<Rightarrow> i | None \<Rightarrow> nat (lh_n s))"
  define t where "t = (let s = s\<lparr>lh_block := (lh_block s)(i := n)\<rparr> in if int i = lh_n s then s\<lparr>lh_n := lh_n s + 1\<rparr> else s)"
  note th = log_write_header [OF l(2) hf(9) n(1) room, folded i_def, folded t_def]
  have tf: "bufs t = bufs s" "disk t = disk s" "disksize t = disksize s" "cur_pid t = cur_pid s" "txn_frame s t"
    by (simp_all add: t_def Let_def txn_frame_def)
  note tc = cache_same [OF tf(1-4)]
  let ?f = "\<lambda>x. x\<lparr>b_dirty := True\<rparr>"
  note u = held_upd [of t b n ?f, simplified, unfolded tc, OF l(3) h]
  have ar: "log_area (upd_buf b ?f t) = log_area s" "log_area t = log_area s"
    by (simp_all add: log_area_def upd_buf_def t_def Let_def)
  have w: "log_write b s = Inr (upd_buf b ?f t)"
    using room out l(1) hf(4) by (simp add: log_write_def log_layout_def i_def t_def Let_def)
  have tu: "lh_block (upd_buf b ?f t) = lh_block t" "lh_n (upd_buf b ?f t) = lh_n t" "lg_start (upd_buf b ?f t) = lg_start s"
    "lg_size (upd_buf b ?f t) = lg_size s" "lg_dev (upd_buf b ?f t) = lg_dev s"
    by (simp_all add: upd_buf_def t_def Let_def)
  have "log_layout (upd_buf b ?f t)" using l(1) tf by (simp add: log_layout_def tu)
  moreover have "header_ok (upd_buf b ?f t)" using th(1) tf unfolding header_ok_def ar tu by (simp add: tu txn_frame_def)
  moreover have "dirtyb (upd_buf b ?f t) = lh_block t ` {..<nat (lh_n t)}" using u(6) th(2) l(4) by simp
  moreover have "1 \<notin> dirtyb (upd_buf b ?f t)" using u(6) l(6) n(2) by simp
  moreover have "head_n (disk s (lg_start s)) = 0" "sb_logstart (sb_of (disk s 1)) = lg_start s"
    "sint (sb_nlog (sb_of (disk s 1))) = lg_size s" "1 < disksize s" using inv by (simp_all add: log_inv_def)
  ultimately have "log_inv (upd_buf b ?f t)"
    using u(1) l(5) unfolding log_inv_def ar tu by (simp only: upd_buf_simps tf simp_thms)
  moreover have "view (upd_buf b ?f t) = view s" using u(5) hf(10) tf(1) by (auto simp: fun_eq_iff)
  moreover have "txn_frame s (upd_buf b ?f t)" using tf(5) tu by (simp add: txn_frame_def upd_buf_def)
  moreover have "lh_n (upd_buf b ?f t) = (if n \<in> dirtyb s then lh_n s else lh_n s + 1)" using th(3) tu(2) l(4) by simp
  ultimately show ?thesis by (intro that [OF w]) (use u in simp_all)
qed

text \<open>Reading a block, changing it, logging it and releasing it.\<close>

lemma log_update:
  assumes inv: "log_inv s" and n: "n \<notin> heldb s" "n < disksize s" "n \<notin> log_area s" "n \<noteq> 1" and room: "lh_n s < lg_size s - 1"
    and out: "1 \<le> lg_outstanding s" and spare: "card (dirtyb s \<union> heldb s) < NBUF \<or> n \<in> dirtyb s"
  obtains b s1 s2 s3 where "bread 1 n s = Inr (b, s1)" "b_data (bufs s1 b) = view s n"
    "log_write b (upd_buf b (\<lambda>x. x\<lparr>b_data := g (b_data x)\<rparr>) s1) = Inr s2" "brelse b s2 = Inr s3" "log_inv s3"
    "view s3 = (view s)(n := g (view s n))" "heldb s3 = heldb s" "dirtyb s3 = insert n (dirtyb s)" "txn_frame s s3"
    "lh_n s3 = (if n \<in> dirtyb s then lh_n s else lh_n s + 1)"
proof -
  have ok: "cache_ok s" using inv by (simp add: log_inv_def)
  obtain b s1 where r: "bread 1 n s = Inr (b, s1)" and "got s n b s1" using bread_ok [OF ok n(1,2) spare] .
  then have g: "cache_ok s1" "holds s1 b n" "b_data (bufs s1 b) = view s n" "view s1 = view s" "heldb s1 = insert n (heldb s)"
    "dirtyb s1 = dirtyb s" "same_disk s s1" by (simp_all add: got_def)
  let ?f = "\<lambda>x. x\<lparr>b_data := g (b_data x)\<rparr>"
  note u = held_upd [OF g(1,2), of ?f, simplified]
  have c1: "caches s1 b n" using g(2) by (simp add: holds_def)
  have du: "dirtyb (upd_buf b ?f s1) = dirtyb s" using u(6) g(6) dirty_iff [OF g(1) c1] by auto
  have sd: "same_disk s (upd_buf b ?f s1)" using g(7) by (simp add: same_disk_def)
  note f = lg_frame [OF sd]
  have iu: "log_inv (upd_buf b ?f s1)" by (rule log_inv_cong [OF u(1) du sd inv])
  have hu: "holds (upd_buf b ?f s1) b n" using u(3) g(2) by simp
  have au: "n \<notin> log_area (upd_buf b ?f s1)" using n(3) by (simp add: log_area_def f)
  obtain s2 where s2: "log_write b (upd_buf b ?f s1) = Inr s2" "log_inv s2" "view s2 = view (upd_buf b ?f s1)"
    "heldb s2 = heldb (upd_buf b ?f s1)" "dirtyb s2 = insert n (dirtyb (upd_buf b ?f s1))" "txn_frame (upd_buf b ?f s1) s2"
    "\<And>i m. holds s2 i m = holds (upd_buf b ?f s1) i m" "b_dirty (bufs s2 b)"
    "lh_n s2 = (if n \<in> dirtyb (upd_buf b ?f s1) then lh_n (upd_buf b ?f s1) else lh_n (upd_buf b ?f s1) + 1)"
    by (rule log_write_ok [OF iu hu au n(4)]) (use room out f in \<open>simp_all only:\<close>)
  have ok2: "cache_ok s2" "holds s2 b n" using s2(2,7) hu by (simp_all add: log_inv_def)
  obtain s3 where s3: "brelse b s2 = Inr s3" "cache_ok s3" "view s3 = view s2" "heldb s3 = heldb s2 - {n}" "dirtyb s3 = dirtyb s2"
    "same_disk s2 s3" using brelse_ok [OF ok2 disjI1 [OF s2(8)]] by metis
  have hb: "heldb s3 = heldb s" using s3(4) s2(4) u(4) g(5) n(1) by simp
  have v: "view s3 = (view s)(n := g (view s n))" using s3(3) s2(3) u(5) g(3,4) by simp
  have fr: "txn_frame s s3"
    using txn_frame_trans [OF same_disk_txn [OF sd] txn_frame_trans [OF s2(6) same_disk_txn [OF s3(6)]]] .
  show ?thesis
    by (rule that [OF r g(3) s2(1) s3(1) log_inv_cong [OF s3(2,5,6) s2(2)] v hb _ fr])
      (use s3(5) s2(5,9) du f lg_frame(6) [OF s3(6)] in simp_all)
qed

section \<open>Committing, and starting up\<close>

lemma ready_fields [simp]:
  "log_inv (s\<lparr>lg_outstanding := x\<rparr>) = log_inv s" "log_inv (s\<lparr>lg_committing := c\<rparr>) = log_inv s"
  "log_area (s\<lparr>lg_outstanding := x\<rparr>) = log_area s" "log_area (s\<lparr>lg_committing := c\<rparr>) = log_area s" "log_area (s\<lparr>lh_n := k\<rparr>) = log_area s"
  by (simp_all add: log_inv_def log_layout_def header_ok_def log_area_def)

lemma commit_empties:
  assumes t: "txn_ready s"
  obtains s' where "commit s = Inr s'" "log_inv s'" "heldb s' = {}" "dirtyb s' = {}" "lh_n s' = 0" "lg_outstanding s' = lg_outstanding s"
    "lg_committing s' = lg_committing s" "logst.more s' = logst.more s" "log_area s' = log_area s" "disksize s' = disksize s"
    "lg_size s' = lg_size s" "\<And>n. n \<notin> log_area s \<Longrightarrow> disk s' n = view s n" "\<And>n. n \<notin> log_area s \<Longrightarrow> view s' n = view s n"
proof (cases "0 < lh_n s")
  case False
  have "header_ok s" "cache_ok s" "dirtyb s = lh_block s ` {..<nat (lh_n s)}" "heldb s = {}" using t unfolding txn_ready_def by blast+
  then have z: "lh_n s = 0" "dirtyb s = {}" "heldb s = {}" "\<And>n. view s n = disk s n"
    using False view_clean [of s] by (simp_all add: header_ok_def)
  show ?thesis using that [of s] False z t txn_ready_iff [of s] by (simp add: commit_def)
next
  case True
  have l: "log_layout s" "header_ok s" "cache_ok s" "heldb s = {}" "dirtyb s = lh_block s ` {..<nat (lh_n s)}"
    "1 \<notin> log_area s" "1 \<notin> dirtyb s" "1 < disksize s" "sb_logstart (sb_of (disk s 1)) = lg_start s" "sint (sb_nlog (sb_of (disk s 1))) = lg_size s"
    using t unfolding txn_ready_def by blast+
  obtain s' where c: "commit s = Inr s'" "wrote (s\<lparr>lh_n := 0\<rparr>) (commit_writes s) s'"
    using commit_ok [OF l(1-5) True] .
  note f = wrote_frame [OF c(2)] wrote_layout [OF c(2)]
  define k where "k = 2 * nat (lh_n s) + 2"
  have all: "take k (commit_writes s) = commit_writes s" by (simp add: k_def commit_writes_def Let_def log_copies_def)
  have kk: "2 * nat (lh_n s) + 2 \<le> k" by (simp add: k_def)
  note a = crash_after [OF t kk, unfolded all]
  have ok: "cache_ok s'" "heldb s' = {}" and dv: "disk s' = apply_writes (commit_writes s) (disk s)"
    "view s' = apply_writes (commit_writes s) (view s)" and d: "dirtyb s' = dirtyb s - fst ` set (commit_writes s)"
    using c(2) by (simp_all add: wrote_def)
  have "fst ` set (commit_writes s) \<supseteq> lh_block s ` {..<nat (lh_n s)}"
    by (force simp: commit_writes_def Let_def image_Un image_image)
  then have d0: "dirtyb s' = {}" using d l(5) by auto
  have vc: "view s m = disk s m" if "m \<notin> dirtyb s" for m using view_clean [OF l(3) that] l(4) by simp
  have dn: "disk s' n = view s n" "view s' n = view s n" if "n \<notin> log_area s" for n
    using that a(2,3) l(5) vc by (cases "n \<in> dirtyb s"; auto simp: dv)+
  have "log_layout s'" using f l(1) by (simp add: log_layout_def)
  moreover have "header_ok s'" using l(1) f by (simp add: header_ok_def log_layout_def)
  moreover have "head_n (disk s' (lg_start s')) = 0" using a(1) f by (simp add: dv)
  moreover have "disk s' 1 = disk s 1" using dn(1) [OF l(6)] vc [OF l(7)] by simp
  ultimately have "log_inv s'" using ok d0 l(6,8,9,10) f by (simp add: log_inv_def)
  then show ?thesis using that [OF c(1)] ok d0 f dn by simp
qed

lemma initlog_inv:
  assumes z: "zeroed b" and lay: "log_layout (boot b)" and one: "1 < disksize b" "1 \<notin> log_area (boot b)"
    and hd: "head_n (disk b (lg_start (boot b))) = 0"
  obtains r where "initlog 1 (binit b) = Inr r" "log_inv r" "heldb r = {}" "dirtyb r = {}" "lh_n r = 0" "lg_outstanding r = lg_outstanding b"
    "lg_committing r = lg_committing b" "logst.more r = logst.more b" "disksize r = disksize b" "lg_start r = lg_start (boot b)"
    "lg_size r = lg_size (boot b)" "\<And>n. n \<notin> log_area (boot b) \<Longrightarrow> disk r n = disk b n"
proof -
  have "head_ok (boot b) (disk b (lg_start (boot b)))" using hd lay by (simp add: head_ok_def log_layout_def)
  from initlog_ok [OF z lay one(1) this]
  obtain r where r: "initlog 1 (binit b) = Inr r" "cache_ok r" "lh_n r = 0" "dirtyb r = {}" "heldb r = {}"
    "lg_start r = lg_start (boot b)" "lg_size r = lg_size (boot b)" "lg_dev r = 1" "disksize r = disksize b"
    "lg_outstanding r = lg_outstanding b" "lg_committing r = lg_committing b" "logst.more r = logst.more b"
    "head_n (disk r (lg_start r)) = 0" "\<And>n. n \<notin> log_area (boot b) \<Longrightarrow> disk r n = disk b n"
    using hd by (metis empty_iff image_empty lessThan_0 nat_0)
  have a: "log_area r = log_area (boot b)" by (simp add: log_area_def r)
  have d1: "disk r 1 = disk b 1" using r(14) one(2) by simp
  have "log_layout r" using lay r by (simp add: log_layout_def boot_def)
  moreover have "header_ok r" using lay r by (simp add: header_ok_def log_layout_def)
  moreover have "sb_logstart (sb_of (disk r 1)) = lg_start r" "sint (sb_nlog (sb_of (disk r 1))) = lg_size r"
    by (simp_all add: d1 r boot_def)
  ultimately have "log_inv r" using r one by (simp add: log_inv_def a)
  then show ?thesis using that [OF r(1)] r by simp
qed

end
