(* ===== verification/LogSpec.thy ===== *)
theory LogSpec
  imports LogInv
begin

text \<open>
  The properties of the buffer cache and of the log, with a small disk on which they are
  exercised: 200 blocks of which block 1 holds the super block, blocks 2 to 31 the log.
\<close>

section \<open>A disk\<close>

definition zero_buf :: buf where
  "zero_buf = \<lparr>b_valid = False, b_dirty = False, b_dev = 0, b_blockno = 0, b_lock = \<lparr>sl_locked = False, sl_pid = 0\<rparr>,
     b_refcnt = 0, b_prev = 0, b_next = 0, b_data = (\<lambda>_. 0)\<rparr>"

definition demo_super :: bdata where
  "demo_super = put32 24 58 (put32 20 32 (put32 16 2 (put32 12 30 (put32 8 200 (put32 4 141 (put32 0 200 (\<lambda>_. 0)))))))"

definition demo_disk :: "u32 \<Rightarrow> bdata" where
  "demo_disk n = (if n = 1 then demo_super else (\<lambda>_. 0))"

definition power_on :: "'x \<Rightarrow> 'x logst_scheme" where
  "power_on x = \<lparr>bufs = (\<lambda>_. zero_buf), disk = demo_disk, disksize = 200, writes = [], cur_pid = 1, lg_start = 0, lg_size = 0,
     lg_outstanding = 0, lg_committing = False, lg_dev = 0, lh_n = 0, lh_block = (\<lambda>_. 0), \<dots> = x\<rparr>"

lemma demo_super_fields:
  "sb_of demo_super = \<lparr>sb_size = 200, sb_nblocks = 141, sb_ninodes = 200, sb_nlog = 30, sb_logstart = 2, sb_inodestart = 32, sb_bmapstart = 58\<rparr>"
  by (simp add: sb_of_def demo_super_def get32_put32_other)

lemma power_on_boot: "lg_start (boot (power_on x)) = 2" "lg_size (boot (power_on x)) = 30" "log_layout (boot (power_on x))"
  "log_area (boot (power_on x)) = {n. 2 \<le> unat n \<and> unat n < 32}" "disksize (power_on x) = 200" "lg_outstanding (power_on x) = 0"
  "lg_committing (power_on x) = False" "logst.more (power_on x) = x" "disk (power_on x) = demo_disk" "zeroed (power_on x)"
  by (simp_all add: boot_def power_on_def demo_disk_def demo_super_fields log_layout_def log_area_def LOGSIZE_def MAXOPBLOCKS_def
      zeroed_def zero_buf_def sint_u32)

lemma started:
  obtains r where "initlog 1 (binit (power_on x)) = Inr r" "log_inv r" "heldb r = {}" "dirtyb r = {}" "lh_n r = 0"
    "lg_outstanding r = 0" "\<not> lg_committing r" "logst.more r = x" "disksize r = 200" "lg_start r = 2" "lg_size r = 30"
    "log_area r = {n. 2 \<le> unat n \<and> unat n < 32}" "\<forall>n. n \<notin> log_area r \<longrightarrow> disk r n = demo_disk n"
proof -
  have "head_n (disk (power_on x) (lg_start (boot (power_on x)))) = 0"
    by (simp add: power_on_boot demo_disk_def head_n_def get32_def)
  then obtain r where r: "initlog 1 (binit (power_on x)) = Inr r" "log_inv r" "heldb r = {}" "dirtyb r = {}" "lh_n r = 0"
    "lg_outstanding r = 0" "\<not> lg_committing r" "logst.more r = x" "disksize r = 200" "lg_start r = 2" "lg_size r = 30"
    "\<And>n. n \<notin> log_area (boot (power_on x)) \<Longrightarrow> disk r n = demo_disk n"
    using initlog_inv [of "power_on x"] by (auto simp: power_on_boot)
  have "log_area r = log_area (boot (power_on x))" by (simp add: log_area_def r power_on_boot)
  then show ?thesis using that [OF r(1-11)] r(12) by (simp add: power_on_boot)
qed

text \<open>One operation that changes block 100, up to the point where it ends.\<close>

lemma changed:
  obtains r b s1 s2 s3 where "initlog 1 (binit (power_on x)) = Inr r" "begin_op r = Inr (r\<lparr>lg_outstanding := 1\<rparr>)"
    "bread 1 100 (r\<lparr>lg_outstanding := 1\<rparr>) = Inr (b, s1)"
    "log_write b (upd_buf b (\<lambda>y. y\<lparr>b_data := (b_data y)(0 := 7)\<rparr>) s1) = Inr s2" "brelse b s2 = Inr s3"
    "txn_ready s3" "lh_n s3 = 1" "lg_outstanding s3 = 1" "\<not> lg_committing s3" "100 \<in> dirtyb s3" "100 \<notin> log_area s3" "disksize s3 = 200"
    "view s3 100 0 = 7" "disk s3 100 0 = 0"
proof -
  obtain r where r: "initlog 1 (binit (power_on x)) = Inr r" "log_inv r" "heldb r = {}" "dirtyb r = {}" "lh_n r = 0"
    "lg_outstanding r = 0" "\<not> lg_committing r" "logst.more r = x" "disksize r = 200" "lg_start r = 2" "lg_size r = 30"
    "log_area r = {n. 2 \<le> unat n \<and> unat n < 32}" "\<forall>n. n \<notin> log_area r \<longrightarrow> disk r n = demo_disk n"
    using started [of x] .
  let ?t = "r\<lparr>lg_outstanding := 1\<rparr>"
  have b: "begin_op r = Inr ?t" using r by (simp add: begin_op_def LOGSIZE_def MAXOPBLOCKS_def)
  have ne: "(100 :: u32) \<notin> log_area r" by (simp add: r)
  obtain b s1 s2 s3 where s: "bread 1 100 ?t = Inr (b, s1)" "b_data (bufs s1 b) = view ?t 100"
    "log_write b (upd_buf b (\<lambda>y. y\<lparr>b_data := (b_data y)(0 := 7)\<rparr>) s1) = Inr s2" "brelse b s2 = Inr s3" "log_inv s3"
    "view s3 = (view ?t)(100 := (view ?t 100)(0 := 7))" "heldb s3 = heldb ?t" "dirtyb s3 = insert 100 (dirtyb ?t)" "txn_frame ?t s3"
    "lh_n s3 = (if 100 \<in> dirtyb ?t then lh_n ?t else lh_n ?t + 1)"
    by (rule log_update [of ?t 100 "\<lambda>d. d(0 := 7)"]) (use r ne in \<open>simp_all add: NBUF_def\<close>)
  have a3: "log_area s3 = log_area r" using s(9) by (simp add: log_area_def txn_frame_def)
  show ?thesis
    by (rule that [OF r(1) b s(1,3,4)])
      (use s(5-10) r ne in \<open>simp_all add: txn_ready_iff txn_frame_def a3 [unfolded r(12)] demo_disk_def\<close>)
qed

section \<open>Properties\<close>

lemma length_commit_writes: "length (commit_writes s) = 2 * nat (lh_n s) + 2"
  by (simp add: commit_writes_def Let_def log_copies_def)

text \<open>C26: A commit is atomic with respect to crashes. It succeeds with a sequence of block writes; after any
  number \<open>k\<close> of them, booting from the disk as it is then (empty buffers, \<^const>\<open>binit\<close>, \<^const>\<open>initlog\<close>) succeeds
  and leaves an empty log and, outside the log, either every block as it was before the transaction or every block
  as the transaction changed it. The header write, the write after the copies into the log, is the commit point.\<close>
theorem crash_atomic:
  assumes "txn_ready s" "0 < lh_n s"
  shows "\<exists>s' ws. commit s = Inr s' \<and> writes s' = writes s @ ws \<and> length ws = 2 * nat (lh_n s) + 2
     \<and> (\<forall>k b. zeroed b \<and> disksize b = disksize s \<and> disk b = apply_writes (take k ws) (disk s) \<longrightarrow>
          (\<exists>r. initlog 1 (binit b) = Inr r \<and> cache_ok r \<and> lh_n r = 0
             \<and> (\<forall>n. n \<notin> log_area s \<longrightarrow> disk r n = (if k \<le> nat (lh_n s) then disk s n else view s n))))"
proof -
  have l: "log_layout s" "header_ok s" "cache_ok s" "heldb s = {}" "dirtyb s = lh_block s ` {..<nat (lh_n s)}"
    using assms(1) unfolding txn_ready_def by blast+
  obtain s' where c: "commit s = Inr s'" "wrote (s\<lparr>lh_n := 0\<rparr>) (commit_writes s) s'" using commit_ok [OF l assms(2)] .
  then have w: "writes s' = writes s @ commit_writes s" by (simp add: wrote_def)
  show ?thesis
  proof (rule exI [of _ s'], rule exI [of _ "commit_writes s"], intro conjI allI impI)
    fix k and b :: "'b logst_scheme"
    assume b: "zeroed b \<and> disksize b = disksize s \<and> disk b = apply_writes (take k (commit_writes s)) (disk s)"
    show "\<exists>r. initlog 1 (binit b) = Inr r \<and> cache_ok r \<and> lh_n r = 0
             \<and> (\<forall>n. n \<notin> log_area s \<longrightarrow> disk r n = (if k \<le> nat (lh_n s) then disk s n else view s n))"
      using recovered [OF assms(1), of b k] b by blast
  qed (use c w length_commit_writes in simp_all)
qed

theorem crash_atomic_witness:
  "\<exists>r b s1 s2 s3. initlog 1 (binit (power_on ())) = Inr r \<and> bread 1 100 (r\<lparr>lg_outstanding := 1\<rparr>) = Inr (b, s1)
     \<and> log_write b (upd_buf b (\<lambda>y. y\<lparr>b_data := (b_data y)(0 := 7)\<rparr>) s1) = Inr s2 \<and> brelse b s2 = Inr s3
     \<and> txn_ready s3 \<and> 0 < lh_n s3 \<and> disk s3 100 0 = 0 \<and> view s3 100 0 = 7
     \<and> (\<exists>s' ws. commit s3 = Inr s' \<and> writes s' = writes s3 @ ws \<and> length ws = 2 * nat (lh_n s3) + 2
         \<and> (\<forall>k (b :: logst). zeroed b \<and> disksize b = disksize s3 \<and> disk b = apply_writes (take k ws) (disk s3) \<longrightarrow>
          (\<exists>r. initlog 1 (binit b) = Inr r \<and> cache_ok r \<and> lh_n r = 0
             \<and> (\<forall>n. n \<notin> log_area s3 \<longrightarrow> disk r n = (if k \<le> nat (lh_n s3) then disk s3 n else view s3 n)))))"
proof (rule changed [of "()"])
  fix r b s1 s2 s3
  assume a: "initlog 1 (binit (power_on ())) = Inr r" "bread 1 100 (r\<lparr>lg_outstanding := 1\<rparr>) = Inr (b, s1)"
    "log_write b (upd_buf b (\<lambda>y. y\<lparr>b_data := (b_data y)(0 := 7)\<rparr>) s1) = Inr s2" "brelse b s2 = Inr s3"
    "txn_ready s3" "lh_n s3 = 1" "view s3 100 0 = 7" "disk s3 100 0 = 0"
  then have "0 < lh_n s3" by simp
  from crash_atomic [OF a(5) this] a this show ?thesis by blast
qed

text \<open>C27: The end of the last outstanding operation commits: afterwards every block outside the log is on the disk
  as the file system last saw it, no buffer is dirty and the log is empty.\<close>
theorem end_op_commits:
  assumes "txn_ready s" "lg_outstanding s = 1" "\<not> lg_committing s"
  shows "\<exists>s'. end_op s = Inr s' \<and> txn_ready s' \<and> dirtyb s' = {} \<and> lh_n s' = 0 \<and> lg_outstanding s' = 0 \<and> \<not> lg_committing s'
     \<and> logst.more s' = logst.more s \<and> (\<forall>n. n \<notin> log_area s \<longrightarrow> disk s' n = view s n \<and> view s' n = view s n)"
proof -
  let ?t = "s\<lparr>lg_outstanding := 0, lg_committing := True\<rparr>"
  have t: "txn_ready ?t" using assms(1) by (simp add: txn_ready_iff)
  obtain s' where c: "commit ?t = Inr s'" "log_inv s'" "heldb s' = {}" "dirtyb s' = {}" "lh_n s' = 0" "lg_outstanding s' = 0"
    "logst.more s' = logst.more s" "\<And>n. n \<notin> log_area s \<Longrightarrow> disk s' n = view s n" "\<And>n. n \<notin> log_area s \<Longrightarrow> view s' n = view s n"
    by (rule commit_empties [OF t]) simp
  have "end_op s = Inr (s'\<lparr>lg_committing := False\<rparr>)" using assms c(1) by (simp add: end_op_def Let_def)
  then show ?thesis using c by (simp add: txn_ready_iff)
qed

theorem end_op_commits_witness:
  "\<exists>r b s1 s2 s3. initlog 1 (binit (power_on ())) = Inr r \<and> bread 1 100 (r\<lparr>lg_outstanding := 1\<rparr>) = Inr (b, s1)
     \<and> log_write b (upd_buf b (\<lambda>y. y\<lparr>b_data := (b_data y)(0 := 7)\<rparr>) s1) = Inr s2 \<and> brelse b s2 = Inr s3
     \<and> txn_ready s3 \<and> lg_outstanding s3 = 1 \<and> \<not> lg_committing s3 \<and> disk s3 100 0 = 0
     \<and> (\<exists>s'. end_op s3 = Inr s' \<and> dirtyb s' = {} \<and> disk s' 100 0 = 7)"
proof (rule changed [of "()"])
  fix r b s1 s2 s3
  assume a: "initlog 1 (binit (power_on ())) = Inr r" "bread 1 100 (r\<lparr>lg_outstanding := 1\<rparr>) = Inr (b, s1)"
    "log_write b (upd_buf b (\<lambda>y. y\<lparr>b_data := (b_data y)(0 := 7)\<rparr>) s1) = Inr s2" "brelse b s2 = Inr s3"
    "txn_ready s3" "lg_outstanding s3 = 1" "\<not> lg_committing s3" "100 \<notin> log_area s3" "view s3 100 0 = 7" "disk s3 100 0 = 0"
  obtain s' where s': "end_op s3 = Inr s'" "dirtyb s' = {}" "\<And>n. n \<notin> log_area s3 \<longrightarrow> disk s' n = view s3 n"
    using end_op_commits [OF a(5-7)] by blast
  have "disk s' 100 0 = 7" using s'(3) [of 100] a(8,9) by simp
  then show ?thesis using a s'(1,2) by blast
qed

text \<open>C28: Reading a block that is on the disk and not held succeeds as long as one buffer is neither dirty nor held, and returns a
  locked buffer with the contents the file system last gave the block. No other block changes, in the cache or on the disk.\<close>
theorem bread_returns:
  assumes "cache_ok s" "n \<notin> heldb s" "n < disksize s" "card (dirtyb s \<union> heldb s) < NBUF"
  shows "\<exists>b s'. bread 1 n s = Inr (b, s') \<and> cache_ok s' \<and> holds s' b n \<and> b_data (bufs s' b) = view s n \<and> view s' = view s
     \<and> heldb s' = insert n (heldb s) \<and> dirtyb s' = dirtyb s \<and> disk s' = disk s \<and> writes s' = writes s"
proof -
  obtain b s' where "bread 1 n s = Inr (b, s')" "got s n b s'" using bread_ok [OF assms(1-3)] assms(4) by blast
  then show ?thesis by (auto simp: got_def same_disk_def)
qed

theorem bread_returns_witness:
  "\<exists>b s'. bread 1 1 (binit (power_on ())) = Inr (b, s') \<and> b_data (bufs s' b) = demo_super \<and> heldb s' = {1}"
proof -
  note z = binit_ok [OF power_on_boot(10), of "()"]
  have "\<exists>b s'. bread 1 1 (binit (power_on ())) = Inr (b, s') \<and> cache_ok s' \<and> holds s' b 1 \<and> b_data (bufs s' b) = view (binit (power_on ())) 1
      \<and> view s' = view (binit (power_on ())) \<and> heldb s' = insert 1 (heldb (binit (power_on ())))
      \<and> dirtyb s' = dirtyb (binit (power_on ())) \<and> disk s' = disk (binit (power_on ())) \<and> writes s' = writes (binit (power_on ()))"
    by (rule bread_returns) (use z in \<open>simp_all add: same_disk_def power_on_boot NBUF_def\<close>)
  then show ?thesis using z by (auto simp: power_on_boot demo_disk_def)
qed

lemma bget_full:
  assumes "cache_ok s" "\<And>i. \<not> caches s i n" "card (dirtyb s \<union> heldb s) = NBUF"
  shows "bget 1 n s = Inl ''bget: no buffers''"
proof -
  obtain xs where xs: "mru s xs" using assms(1) by (auto simp: cache_ok_def)
  have in_xs: "i \<in> set xs \<longleftrightarrow> i < NBUF" for i using xs by (simp add: mru_def)
  let ?B = "{i. i < NBUF \<and> (b_dirty (bufs s i) \<or> sl_locked (b_lock (bufs s i)))}"
  have "?B = {..<NBUF}"
    using busy_card(1) [OF assms(1)] assms(3) card_subset_eq [of "{..<NBUF}" ?B] by fastforce
  then have busy: "b_dirty (bufs s i) \<or> sl_locked (b_lock (bufs s i))" if "i < NBUF" for i using that by blast
  have "b_dev (bufs s i) \<noteq> 1 \<or> b_blockno (bufs s i) \<noteq> n" if "i < NBUF" for i
    using assms(2) [of i] that cache_slot [OF assms(1) that] by (auto simp: slot_ok_def Let_def caches_def split: if_splits)
  moreover have "b_refcnt (bufs s i) \<noteq> 0 \<or> b_dirty (bufs s i)" if "i < NBUF" for i
    using busy [OF that] cache_slot [OF assms(1) that] by (auto simp: slot_ok_def Let_def)
  ultimately have "find (\<lambda>b. b_dev (bufs s b) = 1 \<and> b_blockno (bufs s b) = n) xs = None"
    "find (\<lambda>b. b_refcnt (bufs s b) = 0 \<and> \<not> b_dirty (bufs s b)) (rev xs) = None"
    by (auto simp: find_None_iff in_xs)
  then show ?thesis by (simp add: bget_list [OF xs])
qed

lemma bread_busy:
  assumes ok: "cache_ok s" and n: "n \<in> heldb s"
  shows "bread 1 n s = Inl ''sleep''"
proof -
  obtain b where h: "holds s b n" using n by (auto simp: heldb_def)
  note f = holds_facts [OF ok h]
  obtain xs where xs: "mru s xs" using ok by (auto simp: cache_ok_def)
  let ?P = "\<lambda>b. b_dev (bufs s b) = 1 \<and> b_blockno (bufs s b) = n"
  have in_xs: "i \<in> set xs \<longleftrightarrow> i < NBUF" for i using xs by (simp add: mru_def)
  obtain j where j: "find ?P xs = Some j" using f in_xs by (cases "find ?P xs") (auto simp: find_None_iff)
  then have "?P j" "j < NBUF" using find_SomeD in_xs by fast+
  then have "caches s j n" using cache_slot [OF ok, of j] by (auto simp: slot_ok_def Let_def caches_def split: if_splits)
  then have "j = b" using holds_unique [OF ok h] by blast
  then show ?thesis using j f(7) by (simp add: bread_def bget_list [OF xs] lock_buf_def acquiresleep_def)
qed

lemma bread_outside:
  assumes ok: "cache_ok s" and n: "disksize s \<le> n" "card (dirtyb s \<union> heldb s) < NBUF"
  shows "bread 1 n s = Inl ''iderw: block out of range''"
proof -
  have c: "\<not> caches s i n" for i
    using n(1) cache_slot [OF ok, of i] by (auto simp: caches_def slot_ok_def Let_def)
  obtain b where "bget 1 n s = Inr (b, upd_buf b (\<lambda>x. x\<lparr>b_dev := 1, b_blockno := n, b_valid := False, b_dirty := False, b_refcnt := 1,
       b_lock := \<lparr>sl_locked = True, sl_pid = cur_pid s\<rparr>\<rparr>) s)"
    using bget_miss [OF ok c n(2)] by blast
  then show ?thesis using n(1) by (simp add: bread_def iderw_def holdingsleep_def Let_def)
qed

text \<open>C29: The ways in which reading a block does not return: the block is held (the process sleeps), no buffer can be recycled (panic), or
  the block is not on the disk (panic).\<close>
theorem bread_errors:
  assumes "cache_ok s"
  shows "(n \<in> heldb s \<longrightarrow> bread 1 n s = Inl ''sleep'')
    \<and> ((\<forall>i. \<not> caches s i n) \<and> card (dirtyb s \<union> heldb s) = NBUF \<longrightarrow> bread 1 n s = Inl ''bget: no buffers'')
    \<and> (disksize s \<le> n \<and> card (dirtyb s \<union> heldb s) < NBUF \<longrightarrow> bread 1 n s = Inl ''iderw: block out of range'')"
  using bread_busy [OF assms] bread_outside [OF assms] bget_full [OF assms] by (simp add: bread_def)

theorem bread_errors_witness:
  "bread 1 250 (binit (power_on ())) = Inl ''iderw: block out of range''"
proof -
  note z = binit_ok [OF power_on_boot(10), of "()"]
  have "disksize (binit (power_on ())) \<le> 250" "card (dirtyb (binit (power_on ())) \<union> heldb (binit (power_on ()))) < NBUF"
    using z by (simp_all add: same_disk_def power_on_boot NBUF_def)
  then show ?thesis using bread_errors [OF z(1), of 250] by blast
qed

text \<open>C30: The buffer list is in order of last release. A block that is not cached takes the buffer released longest ago among those that are
  neither dirty nor referenced, and releasing the last reference to a buffer moves it to the front and keeps the order of the others.\<close>
theorem cache_is_lru:
  assumes "mru s xs" "\<forall>b \<in> set xs. b_dev (bufs s b) = dev \<longrightarrow> b_blockno (bufs s b) \<noteq> n"
    "find (\<lambda>b. b_refcnt (bufs s b) = 0 \<and> \<not> b_dirty (bufs s b)) (rev xs) = Some v" "\<not> sl_locked (b_lock (bufs s v))"
    "c < NBUF" "holdingsleep (cur_pid s) (b_lock (bufs s c))" "b_refcnt (bufs s c) = 1"
  shows "(\<exists>s'. bget dev n s = Inr (v, s') \<and> mru s' xs) \<and> (\<exists>s'. brelse c s = Inr s' \<and> mru s' (c # remove1 c xs))"
proof -
  have "find (\<lambda>b. b_dev (bufs s b) = dev \<and> b_blockno (bufs s b) = n) xs = None" using assms(2) by (auto simp: find_None_iff)
  then have "\<exists>s'. bget dev n s = Inr (v, s') \<and> mru s' xs"
    using assms(1,3,4) by (simp add: bget_list [OF assms(1)] lock_buf_def acquiresleep_def mru_upd)
  moreover have "mru (upd_buf c (\<lambda>x. x\<lparr>b_lock := releasesleep (b_lock x), b_refcnt := b_refcnt x - 1\<rparr>) s) xs"
    using assms(1) by (simp add: mru_upd)
  from mru_move [OF this assms(5)] have "\<exists>s'. brelse c s = Inr s' \<and> mru s' (c # remove1 c xs)"
    using assms(6,7) by (simp add: brelse_def Let_def)
  ultimately show ?thesis ..
qed

lemma binit_list:
  assumes "zeroed s"
  shows "mru (binit s) (rev [0..<NBUF])" "zeroed (binit s)" "i < NBUF \<Longrightarrow> b_lock (bufs (binit s) i) = initsleeplock"
  using binit_prefix [OF assms, of NBUF] by (auto simp: binit_def Let_def mru_def)

theorem cache_is_lru_witness:
  "\<exists>s. s = upd_buf 0 (\<lambda>x. x\<lparr>b_refcnt := 1, b_lock := \<lparr>sl_locked = True, sl_pid = 1\<rparr>\<rparr>) (binit (power_on ()))
     \<and> (\<exists>s'. bget 1 5 s = Inr (1, s') \<and> mru s' (rev [0..<NBUF]))
     \<and> (\<exists>s'. brelse 0 s = Inr s' \<and> mru s' (0 # remove1 0 (rev [0..<NBUF])))"
proof -
  define s where "s = upd_buf 0 (\<lambda>x. x\<lparr>b_refcnt := 1, b_lock := \<lparr>sl_locked = True, sl_pid = 1\<rparr>\<rparr>) (binit (power_on ()))"
  note b = binit_list [OF power_on_boot(10) [of "()"]] and z = binit_ok(5) [OF power_on_boot(10) [of "()"]]
  have f: "b_dev (bufs s i) = 0" "\<not> b_dirty (bufs s i)" "i \<noteq> 0 \<Longrightarrow> b_refcnt (bufs s i) = 0"
    "i \<noteq> 0 \<Longrightarrow> \<not> sl_locked (b_lock (bufs s i))" if "i < NBUF" for i
    using b(2,3) that by (auto simp: s_def zeroed_def initsleeplock_def)
  have f0: "b_refcnt (bufs s 0) = 1" "b_lock (bufs s 0) = \<lparr>sl_locked = True, sl_pid = 1\<rparr>" by (simp_all add: s_def)
  have p: "cur_pid s = 1" using z by (simp add: s_def same_disk_def power_on_def)
  have "[0..<NBUF] = 0 # 1 # [2..<NBUF]" by (simp add: NBUF_def upt_conv_Cons)
  then have v: "find (\<lambda>b. b_refcnt (bufs s b) = 0 \<and> \<not> b_dirty (bufs s b)) (rev (rev [0..<NBUF])) = Some 1"
    using f [of 1] f0 by (simp add: NBUF_def)
  have "(\<exists>s'. bget 1 5 s = Inr (1, s') \<and> mru s' (rev [0..<NBUF])) \<and> (\<exists>s'. brelse 0 s = Inr s' \<and> mru s' (0 # remove1 0 (rev [0..<NBUF])))"
  proof (rule cache_is_lru [OF _ _ v])
    show "mru s (rev [0..<NBUF])" unfolding s_def using b(1) by (subst mru_upd) simp_all
    show "\<forall>b \<in> set (rev [0..<NBUF]). b_dev (bufs s b) = 1 \<longrightarrow> b_blockno (bufs s b) \<noteq> 5" using f(1) by simp
    show "\<not> sl_locked (b_lock (bufs s 1))" using f(4) [of 1] by (simp add: NBUF_def)
  qed (simp_all add: NBUF_def f0 holdingsleep_def p)
  then show ?thesis using s_def by blast
qed

end
