(* ===== verification/Strings.thy ===== *)
theory Strings
  imports Prelude
begin

text \<open>
  The memory and string routines of the kernel (\<^verbatim>\<open>string.c\<close>) and of user programs
  (\<^verbatim>\<open>ulib.c\<close>). \<^verbatim>\<open>memmove\<close> and \<^verbatim>\<open>memset\<close> work on the memory itself, because their behaviour depends
  on how the two areas lie and on alignment. The others take the bytes they see through each
  pointer, \<open>p i\<close> for \<^verbatim>\<open>p[i]\<close>. A scan that never meets the end of its string does not return: its value is
  \<open>None\<close>.
\<close>

type_synonym mem = "u32 \<Rightarrow> u8"
type_synonym bytes = "nat \<Rightarrow> u8"

section \<open>Filling and moving\<close>

fun stosb :: "nat \<Rightarrow> u32 \<Rightarrow> u8 \<Rightarrow> mem \<Rightarrow> mem" where
  "stosb 0 a c m = m"
| "stosb (Suc n) a c m = stosb n (a + 1) c (m(a := c))"

fun stosl :: "nat \<Rightarrow> u32 \<Rightarrow> u32 \<Rightarrow> mem \<Rightarrow> mem" where
  "stosl 0 a w m = m"
| "stosl (Suc n) a w m = stosl n (a + 4) w
     (m(a := ucast w, a + 1 := ucast (drop_bit 8 w), a + 2 := ucast (drop_bit 16 w), a + 3 := ucast (drop_bit 24 w)))"

definition memset :: "u32 \<Rightarrow> u32 \<Rightarrow> u32 \<Rightarrow> mem \<Rightarrow> mem" where
  "memset dst c n m =
     (if sint dst mod 4 = 0 \<and> n mod 4 = 0
      then let c = c AND 0xFF
           in stosl (unat (n div 4)) dst (push_bit 24 c OR push_bit 16 c OR push_bit 8 c OR c) m
      else stosb (unat n) dst (ucast c) m)"

definition ulib_memset :: "u32 \<Rightarrow> u32 \<Rightarrow> u32 \<Rightarrow> mem \<Rightarrow> mem" where
  "ulib_memset dst c n m = stosb (unat n) dst (ucast c) m"

fun copy_forward :: "nat \<Rightarrow> u32 \<Rightarrow> u32 \<Rightarrow> mem \<Rightarrow> mem" where
  "copy_forward 0 d s m = m"
| "copy_forward (Suc n) d s m = copy_forward n (d + 1) (s + 1) (m(d := m s))"

fun copy_backward :: "nat \<Rightarrow> u32 \<Rightarrow> u32 \<Rightarrow> mem \<Rightarrow> mem" where
  "copy_backward 0 d s m = m"
| "copy_backward (Suc n) d s m = copy_backward n (d - 1) (s - 1) (m(d - 1 := m (s - 1)))"

definition memmove :: "u32 \<Rightarrow> u32 \<Rightarrow> u32 \<Rightarrow> mem \<Rightarrow> mem" where
  "memmove dst src n m =
     (if src < dst \<and> src + n > dst then copy_backward (unat n) (dst + n) (src + n) m
      else copy_forward (unat n) dst src m)"

definition memcpy :: "u32 \<Rightarrow> u32 \<Rightarrow> u32 \<Rightarrow> mem \<Rightarrow> mem" where
  "memcpy dst src n m = memmove dst src n m"

definition ulib_memmove :: "u32 \<Rightarrow> u32 \<Rightarrow> int \<Rightarrow> mem \<Rightarrow> mem" where
  "ulib_memmove vdst vsrc n m = copy_forward (nat n) vdst vsrc m"

section \<open>Comparing and copying strings\<close>

fun memcmp :: "nat \<Rightarrow> bytes \<Rightarrow> bytes \<Rightarrow> int" where
  "memcmp 0 s1 s2 = 0"
| "memcmp (Suc n) s1 s2 =
     (if s1 0 \<noteq> s2 0 then uint (s1 0) - uint (s2 0) else memcmp n (\<lambda>i. s1 (Suc i)) (\<lambda>i. s2 (Suc i)))"

fun strncmp :: "nat \<Rightarrow> bytes \<Rightarrow> bytes \<Rightarrow> int" where
  "strncmp 0 p q = 0"
| "strncmp (Suc n) p q =
     (if p 0 \<noteq> 0 \<and> p 0 = q 0 then strncmp n (\<lambda>i. p (Suc i)) (\<lambda>i. q (Suc i)) else uint (p 0) - uint (q 0))"

text \<open>
  \<open>str_copy n i t s\<close> is the loop \<^verbatim>\<open>while(n-- > 0 && (*s++ = *t++) != 0)\<close> from offset \<open>i\<close>; it returns the
  count that is left, the offset reached and the new bytes.
\<close>

fun str_copy :: "nat \<Rightarrow> nat \<Rightarrow> bytes \<Rightarrow> bytes \<Rightarrow> nat \<times> nat \<times> bytes" where
  "str_copy 0 i t s = (0, i, s)"
| "str_copy (Suc n) i t s =
     (let s = s(i := t i) in if t i \<noteq> 0 then str_copy n (Suc i) t s else (n, Suc i, s))"

fun zero_fill :: "nat \<Rightarrow> nat \<Rightarrow> bytes \<Rightarrow> bytes" where
  "zero_fill 0 i s = s"
| "zero_fill (Suc n) i s = zero_fill n (Suc i) (s(i := 0))"

definition strncpy :: "bytes \<Rightarrow> bytes \<Rightarrow> int \<Rightarrow> bytes" where
  "strncpy s t n = (let (k, i, s) = str_copy (nat n) 0 t s in zero_fill k i s)"

definition safestrcpy :: "bytes \<Rightarrow> bytes \<Rightarrow> int \<Rightarrow> bytes" where
  "safestrcpy s t n =
     (if n \<le> 0 then s else let (k, i, s) = str_copy (nat (n - 1)) 0 t s in s(i := 0))"

text \<open>The counter of \<^verbatim>\<open>strlen\<close> is an \<^verbatim>\<open>int\<close>; counting past \<open>INT_MAX\<close> is a signed overflow, \<open>None\<close>.\<close>

function strlen_from :: "bytes \<Rightarrow> nat \<Rightarrow> nat option" where
  "strlen_from s n =
     (if s n \<noteq> 0 then if int n < INT_MAX then strlen_from s (n + 1) else None else Some n)"
  by pat_completeness auto
termination
  by (relation "measure (\<lambda>(s, n). nat (INT_MAX - int n))") auto

declare strlen_from.simps [simp del]

definition strlen :: "bytes \<Rightarrow> nat option" where
  "strlen s = strlen_from s 0"

partial_function (option) strcmp :: "bytes \<Rightarrow> bytes \<Rightarrow> int option" where
  "strcmp p q =
     (if p 0 \<noteq> 0 \<and> p 0 = q 0 then strcmp (\<lambda>i. p (Suc i)) (\<lambda>i. q (Suc i)) else Some (uint (p 0) - uint (q 0)))"

partial_function (option) strcpy_from :: "bytes \<Rightarrow> bytes \<Rightarrow> nat \<Rightarrow> bytes option" where
  "strcpy_from s t i = (let s = s(i := t i) in if t i \<noteq> 0 then strcpy_from s t (i + 1) else Some s)"

definition strcpy :: "bytes \<Rightarrow> bytes \<Rightarrow> bytes option" where
  "strcpy s t = strcpy_from s t 0"

text \<open>The result of \<^verbatim>\<open>strchr\<close> is the offset of the character found; the outer option is for not returning.\<close>

partial_function (option) strchr_from :: "bytes \<Rightarrow> u8 \<Rightarrow> nat \<Rightarrow> nat option option" where
  "strchr_from s c i = (if s i = 0 then Some None else if s i = c then Some (Some i) else strchr_from s c (i + 1))"

definition strchr :: "bytes \<Rightarrow> u8 \<Rightarrow> nat option option" where
  "strchr s c = strchr_from s c 0"

text \<open>\<^verbatim>\<open>gets\<close> with the bytes that standard input has left; \<open>j\<close> counts the reads that are allowed.\<close>

fun gets_loop :: "nat \<Rightarrow> nat \<Rightarrow> u8 list \<Rightarrow> bytes \<Rightarrow> nat \<times> u8 list \<times> bytes" where
  "gets_loop 0 i inp b = (i, inp, b)"
| "gets_loop (Suc j) i [] b = (i, [], b)"
| "gets_loop (Suc j) i (c # inp) b =
     (let b = b(i := c) in if c = 10 \<or> c = 13 then (Suc i, inp, b) else gets_loop j (Suc i) inp b)"

definition gets :: "int \<Rightarrow> u8 list \<Rightarrow> bytes \<Rightarrow> bytes \<times> u8 list" where
  "gets mx inp b = (let (i, inp, b) = gets_loop (nat (mx - 1)) 0 inp b in (b(i := 0), inp))"

section \<open>What they do\<close>

text \<open>The \<open>n\<close> bytes from \<open>d\<close> on, where addresses wrap around, are those \<open>a\<close> with \<open>unat (a - d) < n\<close>.\<close>

lemma unat_minus1: "a \<noteq> d \<Longrightarrow> unat (a - (d + 1)) = unat (a - d) - 1" for a d :: u32
proof -
  assume "a \<noteq> d"
  then have "a - d \<noteq> 0" by simp
  then have "1 \<le> a - d" by (metis word_neq_0_conv word_less_1 linorder_not_le)
  then show ?thesis by (simp add: unat_sub diff_diff_add [symmetric])
qed

lemma unat_self1: "unat (d - (d + 1)) = 2 ^ 32 - 1" for d :: u32
proof -
  have "d - (d + 1) = - 1" by simp
  moreover have "unat (- 1 :: u32) = 2 ^ 32 - 1" by (simp add: unsigned_minus_1_eq_mask mask_eq_exp_minus_1)
  ultimately show ?thesis by (simp only:)
qed

lemma copy_forward_at:
  assumes "dst = src \<or> n \<le> unat (dst - src)" "n \<le> 2 ^ 32"
  shows "copy_forward n dst src m a = (if unat (a - dst) < n then m (src + (a - dst)) else m a)"
  using assms
proof (induction n arbitrary: dst src m)
  case (Suc n)
  have "dst + 1 = src + 1 \<or> n \<le> unat (dst + 1 - (src + 1))" using Suc.prems by auto
  then have ih: "copy_forward (Suc n) dst src m a = (if unat (a - (dst + 1)) < n then (m(dst := m src)) (src + 1 + (a - (dst + 1))) else (m(dst := m src)) a)"
    using Suc.IH [of "dst + 1" "src + 1"] Suc.prems(2) by simp
  show ?case
  proof (cases "a = dst")
    case True
    then show ?thesis using ih unat_self1 [of dst] Suc.prems(2) by simp
  next
    case False
    then have pos: "0 < unat (a - dst)" by (simp add: unat_gt_0)
    have "src + (a - dst) \<noteq> dst" if "unat (a - dst) < Suc n"
    proof
      assume e: "src + (a - dst) = dst"
      then have "dst - src = a - dst" by (metis add_diff_cancel_left')
      then show False using Suc.prems(1) that False e by auto
    qed
    then show ?thesis using ih unat_minus1 [OF False] False pos by auto
  qed
qed simp

lemma copy_backward_at:
  assumes "dst = src \<or> n \<le> unat (src - dst)" "n \<le> 2 ^ 32"
  shows "copy_backward n (dst + of_nat n) (src + of_nat n) m a = (if unat (a - dst) < n then m (src + (a - dst)) else m a)"
  using assms
proof (induction n arbitrary: m)
  case (Suc n)
  let ?m = "m(dst + of_nat n := m (src + of_nat n))"
  have pred: "x + of_nat (Suc n) - 1 = x + of_nat n" for x :: u32 by simp
  have "dst = src \<or> n \<le> unat (src - dst)" using Suc.prems(1) by auto
  then have ih: "copy_backward (Suc n) (dst + of_nat (Suc n)) (src + of_nat (Suc n)) m a = (if unat (a - dst) < n then ?m (src + (a - dst)) else ?m a)"
    using Suc.IH [of ?m] Suc.prems(2) by (simp only: copy_backward.simps pred)
  have nn: "unat (of_nat n :: u32) = n" using Suc.prems(2) by (simp add: unsigned_of_nat take_bit_nat_eq_self)
  show ?case
  proof (cases "a = dst + of_nat n")
    case True
    then show ?thesis using ih nn by simp
  next
    case False
    then have "a - dst \<noteq> of_nat n" by (auto simp: algebra_simps)
    then have "unat (a - dst) \<noteq> n" by (metis of_nat_unat ucast_id)
    moreover have "src + (a - dst) \<noteq> dst + of_nat n" if l: "unat (a - dst) < n"
    proof
      assume e: "src + (a - dst) = dst + of_nat n"
      then have "src - dst = of_nat n - (a - dst)" by (simp add: algebra_simps)
      moreover have "a - dst \<le> of_nat n" using l nn by (simp add: word_le_nat_alt)
      ultimately have "unat (src - dst) = n - unat (a - dst)" using unat_sub [of "a - dst" "of_nat n"] nn by metis
      moreover have "dst \<noteq> src" using e False by auto
      ultimately show False using Suc.prems(1) by auto
    qed
    ultimately show ?thesis using ih False by auto
  qed
qed simp

lemma stosb_at: "n \<le> 2 ^ 32 \<Longrightarrow> stosb n dst c m a = (if unat (a - dst) < n then c else m a)"
proof (induction n arbitrary: dst m)
  case (Suc n)
  then have ih: "stosb (Suc n) dst c m a = (if unat (a - (dst + 1)) < n then c else (m(dst := c)) a)" by simp
  show ?case
  proof (cases "a = dst")
    case True
    then show ?thesis using ih by simp
  next
    case False
    then have "0 < unat (a - dst)" by (simp add: unat_gt_0)
    then show ?thesis using ih unat_minus1 [OF False] False by auto
  qed
qed simp

lemma stosl_stosb:
  assumes "ucast w = c" "ucast (drop_bit 8 w) = c" "ucast (drop_bit 16 w) = c" "ucast (drop_bit 24 w) = c"
  shows "stosl n a w m = stosb (4 * n) a c m"
proof (induction n arbitrary: a m)
  case (Suc n)
  have "4 * Suc n = Suc (Suc (Suc (Suc (4 * n))))" by simp
  moreover have "a + 1 + 1 = a + 2" "a + 2 + 1 = a + 3" "a + 3 + 1 = a + 4" by simp_all
  ultimately show ?case using Suc.IH by (simp only: stosl.simps stosb.simps assms)
qed simp

lemma spread_byte:
  defines "w c \<equiv> push_bit 24 (c AND 0xFF) OR push_bit 16 (c AND 0xFF) OR push_bit 8 (c AND 0xFF) OR (c AND 0xFF) :: u32"
  shows "ucast (w c) = (ucast c :: u8)" "ucast (drop_bit 8 (w c)) = (ucast c :: u8)"
    "ucast (drop_bit 16 (w c)) = (ucast c :: u8)" "ucast (drop_bit 24 (w c)) = (ucast c :: u8)"
proof -
  have b: "bit (w c) (8 * k + i) = bit c i" if "i < 8" "k < 4" for k i
  proof -
    have m: "(255 :: u32) = mask 8" by (simp add: mask_eq_exp_minus_1)
    have "k = 0 \<or> k = 1 \<or> k = 2 \<or> k = 3" using that by auto
    then show ?thesis unfolding w_def m using that(1) by (elim disjE) (simp_all add: bit_simps)
  qed
  show "ucast (w c) = (ucast c :: u8)" "ucast (drop_bit 8 (w c)) = (ucast c :: u8)"
    "ucast (drop_bit 16 (w c)) = (ucast c :: u8)" "ucast (drop_bit 24 (w c)) = (ucast c :: u8)"
    by (rule bit_word_eqI; use b [of _ 0] b [of _ 1] b [of _ 2] b [of _ 3] in \<open>simp add: bit_simps add.commute\<close>)+
qed

text \<open>The kernel's \<^const>\<open>memset\<close> fills exactly the given bytes with the low byte of its argument, whether it takes the
  path by words or the path by bytes; it is the same function as the user library's.\<close>
theorem memset_fills:
  "memset dst c n m a = (if unat (a - dst) < unat n then ucast c else m a) \<and> memset dst c n m = ulib_memset dst c n m"
proof -
  have le: "unat n \<le> 2 ^ 32" using uint_lt2p [of n] by (simp add: nat_le_iff less_imp_le flip: nat_uint_eq)
  have eq: "memset dst c n m = stosb (unat n) dst (ucast c) m"
  proof (cases "sint dst mod 4 = 0 \<and> n mod 4 = 0")
    case True
    then have "unat n mod 4 = 0" using unat_mod [of n 4] by simp
    then have "4 * unat (n div 4) = unat n" by (simp add: unat_div mult.commute mod_0_imp_dvd)
    then show ?thesis
      using True by (simp only: memset_def Let_def simp_thms if_True stosl_stosb [OF spread_byte])
  qed (auto simp: memset_def)
  show ?thesis by (simp add: eq stosb_at [OF le] ulib_memset_def)
qed

text \<open>C31: The kernel's \<^const>\<open>memmove\<close> leaves in the destination what the source held before, however the two areas overlap, and
  changes nothing else, as long as neither area reaches the end of the address space.\<close>
theorem memmove_moves:
  assumes "unat src + unat n < 2 ^ 32" "unat dst + unat n < 2 ^ 32"
  shows "memmove dst src n m a = (if unat (a - dst) < unat n then m (src + (a - dst)) else m a)"
proof -
  have le: "unat n \<le> 2 ^ 32" using assms(1) by simp
  have sum: "unat (src + n) = unat src + unat n" using assms(1) by (simp add: unat_word_ariths)
  have sub: "unat (x - y) = unat x - unat y" if "y \<le> x" for x y :: u32 by (rule unat_sub [OF that])
  have wrap: "unat (x - y) = 2 ^ 32 - (unat y - unat x)" if "x < y" for x y :: u32
  proof -
    have "uint (x - y) = uint x - uint y + 2 ^ 32" using that uint_sub_if' [of x y] by (simp add: word_less_def)
    then have i: "int (unat (x - y)) = int (unat x) - int (unat y) + 4294967296" by simp
    have "int (unat y) < 4294967296" using uint_lt2p [of y] by simp
    moreover have "unat x < unat y" using that by (simp add: word_less_nat_alt)
    ultimately have "unat (x - y) = 4294967296 - (unat y - unat x)" using i by linarith
    then show ?thesis by simp
  qed
  show ?thesis
  proof (cases "src < dst \<and> src + n > dst")
    case True
    then have "unat n \<le> unat (src - dst)" using wrap [of src dst] assms(2) by (simp add: word_less_nat_alt)
    then show ?thesis using True copy_backward_at [of dst src "unat n" m a] le by (simp add: memmove_def)
  next
    case False
    have "dst = src \<or> unat n \<le> unat (dst - src)"
    proof (cases dst src rule: linorder_cases)
      case less
      then have "unat (dst - src) = 4294967296 - (unat src - unat dst)" using wrap [of dst src] by simp
      moreover have "unat src + unat n < 4294967296" using assms(1) by simp
      ultimately show ?thesis by linarith
    next
      case greater
      then have "unat src + unat n \<le> unat dst" using False sum by (simp add: word_less_nat_alt)
      moreover have "unat (dst - src) = unat dst - unat src" using sub [of src dst] greater by simp
      ultimately show ?thesis by linarith
    qed simp
    then have "copy_forward (unat n) dst src m a = (if unat (a - dst) < unat n then m (src + (a - dst)) else m a)"
      by (rule copy_forward_at [OF _ le])
    then show ?thesis unfolding memmove_def if_not_P [OF False] .
  qed
qed

theorem memmove_moves_witness:
  "memmove 101 100 3 (\<lambda>a. ucast a) 103 = 102 \<and> memmove 100 101 3 (\<lambda>a. ucast a) 100 = 101"
  using memmove_moves [of 100 3 101 "\<lambda>a. ucast a" 103] memmove_moves [of 101 3 100 "\<lambda>a. ucast a" 100] by simp

text \<open>The user library's version always copies upwards, so it repeats the first byte when the destination starts just above the source.\<close>

lemma ulib_memmove_overlap: "ulib_memmove 101 100 3 (\<lambda>a. ucast a) 103 = 100"
proof -
  have "nat 3 = Suc (Suc (Suc 0))" by simp
  then show ?thesis by (simp only: ulib_memmove_def copy_forward.simps) simp
qed

lemma str_copy_spec:
  assumes "str_copy n i t s = (k, i', s')" "\<forall>j < i. t j \<noteq> 0"
  shows "i \<le> i'" "i' + k = i + n" "(k = 0 \<and> i' = i + n \<and> (\<forall>j < i' - 1. t j \<noteq> 0)) \<or> (i < i' \<and> t (i' - 1) = 0 \<and> (\<forall>j < i' - 1. t j \<noteq> 0))"
    "s' j = (if i \<le> j \<and> j < i' then t j else s j)"
proof -
  have "i \<le> i' \<and> i' + k = i + n \<and> ((k = 0 \<and> i' = i + n \<and> (\<forall>j < i' - 1. t j \<noteq> 0)) \<or> (i < i' \<and> t (i' - 1) = 0 \<and> (\<forall>j < i' - 1. t j \<noteq> 0)))
      \<and> (\<forall>j. s' j = (if i \<le> j \<and> j < i' then t j else s j))"
    using assms
  proof (induction n i t s rule: str_copy.induct)
    case (2 n i t s)
    show ?case
    proof (cases "t i = 0")
      case True
      then show ?thesis using "2.prems" by (auto simp: le_less_Suc_eq)
    next
      case False
      then have nz: "\<forall>j < Suc i. t j \<noteq> 0" using "2.prems"(2) by (simp add: less_Suc_eq)
      have c: "str_copy n (Suc i) t (s(i := t i)) = (k, i', s')" using "2.prems"(1) False by (simp only: str_copy.simps Let_def if_True simp_thms)
      note ih = "2.IH" [OF refl False c nz]
      have "s' j = (if i \<le> j \<and> j < i' then t j else s j)" for j
        using ih by (cases "j = i") (auto simp: Suc_le_eq)
      then show ?thesis using ih by auto
    qed
  qed auto
  then show "i \<le> i'" "i' + k = i + n" "(k = 0 \<and> i' = i + n \<and> (\<forall>j < i' - 1. t j \<noteq> 0)) \<or> (i < i' \<and> t (i' - 1) = 0 \<and> (\<forall>j < i' - 1. t j \<noteq> 0))"
    "s' j = (if i \<le> j \<and> j < i' then t j else s j)" by blast+
qed

lemma zero_fill_at: "zero_fill n i s j = (if i \<le> j \<and> j < i + n then 0 else s j)"
  by (induction n arbitrary: i s) auto

lemma strncpy_at: "strncpy s t n j = (if int j < n then (if \<forall>l < j. t l \<noteq> 0 then t j else 0) else s j)"
proof -
  obtain k i s' where c: "str_copy (nat n) 0 t s = (k, i, s')" by (metis prod_cases3)
  note sp = str_copy_spec [OF c, simplified]
  have z: "strncpy s t n j = (if i \<le> j \<and> j < i + k then 0 else s' j)" by (simp add: strncpy_def c zero_fill_at)
  show ?thesis
  proof (cases "j < i")
    case True
    then have "\<forall>l < j. t l \<noteq> 0" using sp(3) by auto
    then show ?thesis using True z sp(1,2,4) by auto
  next
    case False
    have "t (i - 1) = 0 \<and> i - 1 < j" if "j < nat n" using sp(2,3) that False by auto
    then have "\<not> (\<forall>l < j. t l \<noteq> 0)" if "j < nat n" using that by blast
    then show ?thesis using False z sp(2) sp(4) by auto
  qed
qed

lemma strncmp_zero: "strncmp n p q = 0 \<longleftrightarrow> (\<forall>i < n. (\<forall>j < i. p j \<noteq> 0) \<longrightarrow> p i = q i)"
proof (induction n p q rule: strncmp.induct)
  case (2 n p q)
  have split: "(\<forall>i < Suc n. (\<forall>j < i. p j \<noteq> 0) \<longrightarrow> p i = q i)
      \<longleftrightarrow> p 0 = q 0 \<and> (p 0 \<noteq> 0 \<longrightarrow> (\<forall>i < n. (\<forall>j < i. p (Suc j) \<noteq> 0) \<longrightarrow> p (Suc i) = q (Suc i)))"
    by (simp only: All_less_Suc2 not_less_zero simp_thms) blast
  show ?case
  proof (cases "p 0 \<noteq> 0 \<and> p 0 = q 0")
    case True
    then show ?thesis using "2.IH" split by simp
  next
    case False
    then have "strncmp (Suc n) p q = uint (p 0) - uint (q 0)" by auto
    moreover have "uint (p 0) - uint (q 0) = 0 \<longleftrightarrow> p 0 = q 0" by (simp add: word_uint_eq_iff)
    ultimately show ?thesis using split False by auto
  qed
qed simp

text \<open>A name stored with \<^const>\<open>strncpy\<close> is found again by \<^const>\<open>strncmp\<close>, whatever the field held before, by exactly those strings that agree
  with it up to the end of the string or the size of the field.\<close>
theorem stored_name_found:
  "strncmp n p (strncpy s t (int n)) = 0 \<longleftrightarrow> (\<forall>i < n. (\<forall>j < i. p j \<noteq> 0) \<longrightarrow> p i = t i)"
proof -
  have "(\<forall>i < n. (\<forall>j < i. p j \<noteq> 0) \<longrightarrow> p i = (if \<forall>l < i. t l \<noteq> 0 then t i else 0)) \<longleftrightarrow> (\<forall>i < n. (\<forall>j < i. p j \<noteq> 0) \<longrightarrow> p i = t i)"
    (is "?L \<longleftrightarrow> ?R")
  proof -
    have pre: "\<forall>l < i. t l \<noteq> 0" if "\<forall>j < i. p j \<noteq> 0" "\<forall>k < i. p k = t k" for i using that by metis
    have "\<forall>k \<le> i. p k = t k" if L: "?L" and "i < n" "\<forall>j < i. p j \<noteq> 0" for i
      using that(2,3)
    proof (induction i)
      case 0
      then show ?case using L by fastforce
    next
      case (Suc i)
      then have e: "\<forall>k \<le> i. p k = t k" by simp
      then have "\<forall>l < Suc i. t l \<noteq> 0" using pre [of "Suc i"] Suc.prems by (simp add: less_Suc_eq_le)
      then have "p (Suc i) = t (Suc i)" using L Suc.prems by auto
      then show ?case using e by (simp add: le_Suc_eq)
    qed
    then have "?L \<Longrightarrow> ?R" by blast
    moreover have "?R \<Longrightarrow> ?L" using pre by (metis less_trans)
    ultimately show ?thesis by blast
  qed
  then show ?thesis by (simp add: strncmp_zero strncpy_at)
qed

text \<open>\<^const>\<open>safestrcpy\<close> writes inside its field, ends the copy with a zero byte there, and copies the bytes before it.\<close>
theorem safestrcpy_terminates_string:
  assumes "0 < n"
  shows "(\<exists>j. int j < n \<and> safestrcpy s t n j = 0 \<and> (\<forall>l < j. safestrcpy s t n l = t l \<and> t l \<noteq> 0) \<and> (t j = 0 \<or> int j = n - 1))
     \<and> (\<forall>j. n \<le> int j \<longrightarrow> safestrcpy s t n j = s j)"
proof -
  obtain k i s' where c: "str_copy (nat (n - 1)) 0 t s = (k, i, s')" by (metis prod_cases3)
  note sp = str_copy_spec [OF c, simplified]
  have z: "safestrcpy s t n j = (if j = i then 0 else if j < i then t j else s j)" for j
    using assms sp(4) by (simp add: safestrcpy_def c)
  have i: "int i < n" using sp(2) assms by linarith
  have "\<exists>j. int j < n \<and> safestrcpy s t n j = 0 \<and> (\<forall>l < j. safestrcpy s t n l = t l \<and> t l \<noteq> 0) \<and> (t j = 0 \<or> int j = n - 1)"
  proof (cases "\<exists>l < i. t l = 0")
    case True
    then obtain l where l: "l < i" "t l = 0" by blast
    have nz: "\<forall>j < i - 1. t j \<noteq> 0" using sp(3) by auto
    then have "l = i - 1" using l by (metis Suc_pred' gr_implies_not0 less_antisym not_gr_zero)
    then have "0 < i" "t (i - 1) = 0" "\<forall>j < i - 1. t j \<noteq> 0" using l nz by auto
    then show ?thesis using z i by (intro exI [of _ "i - 1"]) auto
  next
    case False
    then have "\<not> (0 < i \<and> t (i - 1) = 0)" by (metis diff_less zero_less_one)
    then have "int i = n - 1" using sp(3) assms by auto
    then show ?thesis using z False i by (intro exI [of _ i]) auto
  qed
  moreover have "\<forall>j. n \<le> int j \<longrightarrow> safestrcpy s t n j = s j" using z i by auto
  ultimately show ?thesis ..
qed

theorem stored_name_found_witness:
  "strncmp 2 (\<lambda>i. if i = 0 then 97 else 0) (strncpy (\<lambda>_. 5) (\<lambda>i. if i = 0 then 97 else 0) (int 2)) = 0
     \<and> strncmp 2 (\<lambda>_. 97) (strncpy (\<lambda>_. 5) (\<lambda>i. if i = 0 then 97 else 0) (int 2)) \<noteq> 0"
proof
  show "strncmp 2 (\<lambda>i. if i = 0 then 97 else 0) (strncpy (\<lambda>_. 5) (\<lambda>i. if i = 0 then 97 else 0) (int 2)) = 0"
    by (subst stored_name_found) simp
  show "strncmp 2 (\<lambda>_. 97) (strncpy (\<lambda>_. 5) (\<lambda>i. if i = 0 then 97 else 0) (int 2)) \<noteq> 0"
    by (subst stored_name_found) (auto intro!: exI [of _ 1])
qed

theorem safestrcpy_terminates_string_witness:
  "\<exists>j. int j < 4 \<and> safestrcpy (\<lambda>_. 9) (\<lambda>i. 65 + of_nat i) 4 j = 0"
  using safestrcpy_terminates_string [of 4 "\<lambda>_. 9" "\<lambda>i. 65 + of_nat i"] by auto

text \<open>The scan from \<open>i\<close>: where it ends, and when it overflows.\<close>

lemma strlen_from_spec:
  "strlen_from s i = (case find (\<lambda>j. s j = 0) [i..<2147483648] of None \<Rightarrow> if s i = 0 then Some i else None | Some n \<Rightarrow> Some n)"
proof (induction s i rule: strlen_from.induct)
  case (1 s i)
  show ?case
  proof (cases "int i < INT_MAX")
    case True
    then have "[i..<2147483648] = i # [i + 1..<2147483648]" by (simp add: INT_MAX_def upt_conv_Cons)
    moreover have "s (i + 1) = 0 \<Longrightarrow> find (\<lambda>j. s j = 0) [i + 1..<2147483648] \<noteq> None"
      using True by (auto simp: INT_MAX_def find_None_iff intro!: exI [of _ "Suc i"])
    ultimately show ?thesis using 1 True by (subst strlen_from.simps) (auto split: option.splits)
  next
    case False
    then show ?thesis
      by (subst strlen_from.simps) (auto simp: INT_MAX_def find_Some_iff find_None_iff upt_rec [of i] split: option.splits)
  qed
qed

lemma find_first_upt: "find P [0..<m] = Some n \<longleftrightarrow> n < m \<and> P n \<and> (\<forall>j<n. \<not> P j)"
  by (auto simp: find_Some_iff)

text \<open>C32: \<^const>\<open>strlen\<close> returns \<open>n\<close> exactly when the first zero byte is at position \<open>n\<close> and \<open>n\<close>
  is an \<^verbatim>\<open>int\<close>; it overflows its counter exactly when none of the bytes at the positions up to
  \<open>INT_MAX\<close> is zero.\<close>

theorem strlen_returns:
  "(strlen s = Some n \<longleftrightarrow> n \<le> 2147483647 \<and> s n = 0 \<and> (\<forall>j < n. s j \<noteq> 0))
   \<and> (strlen s = None \<longleftrightarrow> (\<forall>j \<le> 2147483647. s j \<noteq> 0))"
proof -
  have "s 0 = 0 \<Longrightarrow> find (\<lambda>j. s j = 0) [0..<2147483648] \<noteq> None" by (auto simp: find_None_iff intro!: exI [of _ 0])
  then have "strlen s = find (\<lambda>j. s j = 0) [0..<2147483648]"
    unfolding strlen_def strlen_from_spec by (auto split: option.split)
  then show ?thesis by (auto simp: find_first_upt find_None_iff)
qed

theorem strlen_returns_witness:
  "strlen (\<lambda>i. if i = 3 then 0 else 7) = Some 3"
  using strlen_returns [of "\<lambda>i. if i = 3 then 0 else 7" 3] by simp

end
