(* ===== verification/Fs.thy ===== *)
theory Fs
  imports Log Strings
begin

text \<open>
  The file system (\<^verbatim>\<open>fs.c\<close>): block allocation, inodes, file contents, directories and path
  names, on the state of the log extended with the inode cache. A pointer to an inode is its
  index in \<^verbatim>\<open>icache.inode\<close>.

  The table of devices \<^verbatim>\<open>devsw\<close> holds function pointers; it is the argument \<open>D\<close> of the operations
  that reach it. Bytes that an operation stores through its pointer argument are part of its
  result, and the bytes it reads through one are a list argument.
\<close>

section \<open>Data\<close>

definition NINODE :: nat where "NINODE = 50"
definition NDEV :: int where "NDEV = 10"
definition ROOTDEV :: u32 where "ROOTDEV = 1"
definition ROOTINO :: u32 where "ROOTINO = 1"
definition NDIRECT :: nat where "NDIRECT = 12"
definition NINDIRECT :: nat where "NINDIRECT = BSIZE div 4"
definition MAXFILE :: nat where "MAXFILE = NDIRECT + NINDIRECT"
definition IPB :: u32 where "IPB = 8"
definition BPB :: nat where "BPB = BSIZE * 8"
definition DIRSIZ :: nat where "DIRSIZ = 14"
definition T_DIR :: u16 where "T_DIR = 1"
definition T_FILE :: u16 where "T_FILE = 2"
definition T_DEV :: u16 where "T_DEV = 3"

record inode =
  i_dev :: u32
  i_inum :: u32
  i_ref :: int
  i_lock :: sleeplock
  i_valid :: bool
  i_type :: u16
  i_major :: u16
  i_minor :: u16
  i_nlink :: u16
  i_size :: u32
  i_addrs :: "nat \<Rightarrow> u32"

record fsst = logst +
  sb :: superblock
  icache :: "nat \<Rightarrow> inode"
  cwd :: nat

record 's devops =
  dev_read :: "int \<Rightarrow> (nat \<Rightarrow> u32 \<Rightarrow> 's \<Rightarrow> ((int \<times> u8 list) \<times> 's) kres) option"
  dev_write :: "int \<Rightarrow> (nat \<Rightarrow> u8 list \<Rightarrow> u32 \<Rightarrow> 's \<Rightarrow> (int \<times> 's) kres) option"

definition upd_inode :: "nat \<Rightarrow> (inode \<Rightarrow> inode) \<Rightarrow> 'a fsst_scheme \<Rightarrow> 'a fsst_scheme" where
  "upd_inode ip f s = s\<lparr>icache := (icache s)(ip := f (icache s ip))\<rparr>"

text \<open>Overwriting the bytes of a block from offset \<open>o\<close> on.\<close>

definition blit :: "nat \<Rightarrow> u8 list \<Rightarrow> bdata \<Rightarrow> bdata" where
  "blit i bs d = (\<lambda>j. if i \<le> j \<and> j < i + length bs then bs ! (j - i) else d j)"

section \<open>Blocks\<close>

definition bzero :: "u32 \<Rightarrow> u32 \<Rightarrow> 'a fsst_scheme \<Rightarrow> 'a fsst_scheme kres" where
  "bzero dev bno s =
     and_then (bread dev bno s) (\<lambda>(bp, s).
       let s = upd_buf bp (\<lambda>x. x\<lparr>b_data := (\<lambda>_. 0)\<rparr>) s
       in and_then (log_write bp s) (brelse bp))"

definition BBLOCK :: "u32 \<Rightarrow> superblock \<Rightarrow> u32" where
  "BBLOCK b blk = b div of_nat BPB + sb_bmapstart blk"

definition bit_set :: "bdata \<Rightarrow> nat \<Rightarrow> bool" where
  "bit_set d bi \<longleftrightarrow> d (bi div 8) AND push_bit (bi mod 8) 1 \<noteq> 0"

definition mark_bit :: "nat \<Rightarrow> bdata \<Rightarrow> bdata" where
  "mark_bit bi d = d(bi div 8 := d (bi div 8) OR push_bit (bi mod 8) 1)"

definition clear_bit :: "nat \<Rightarrow> bdata \<Rightarrow> bdata" where
  "clear_bit bi d = d(bi div 8 := d (bi div 8) AND NOT (push_bit (bi mod 8) 1))"

text \<open>The loop of \<^verbatim>\<open>balloc\<close> from \<open>b\<close> on, over a file system of \<open>n\<close> blocks.\<close>

function balloc_from :: "u32 \<Rightarrow> nat \<Rightarrow> nat \<Rightarrow> 'a fsst_scheme \<Rightarrow> (u32 \<times> 'a fsst_scheme) kres" where
  "balloc_from dev n b s =
     (if b < n
      then and_then (bread dev (BBLOCK (of_nat b) (sb s)) s) (\<lambda>(bp, s).
             case find (\<lambda>bi. \<not> bit_set (b_data (bufs s bp)) bi) [0..<min BPB (n - b)] of
               Some bi \<Rightarrow>
                 let s = upd_buf bp (\<lambda>x. x\<lparr>b_data := mark_bit bi (b_data x)\<rparr>) s
                 in and_then (log_write bp s) (\<lambda>s.
                    and_then (brelse bp s) (\<lambda>s.
                    and_then (bzero dev (of_nat (b + bi)) s) (\<lambda>s.
                    Inr (of_nat (b + bi), s))))
             | None \<Rightarrow> and_then (brelse bp s) (balloc_from dev n (b + BPB)))
      else Inl ''balloc: out of blocks'')"
  by pat_completeness auto
termination by (relation "measure (\<lambda>(_, n, b, _). n - b)") (auto simp: BPB_def BSIZE_def)

declare balloc_from.simps [simp del]

definition balloc :: "u32 \<Rightarrow> 'a fsst_scheme \<Rightarrow> (u32 \<times> 'a fsst_scheme) kres" where
  "balloc dev s = balloc_from dev (unat (sb_size (sb s))) 0 s"

definition bfree :: "u32 \<Rightarrow> u32 \<Rightarrow> 'a fsst_scheme \<Rightarrow> 'a fsst_scheme kres" where
  "bfree dev b s =
     and_then (bread dev (BBLOCK b (sb s)) s) (\<lambda>(bp, s).
       let bi = unat b mod BPB
       in if \<not> bit_set (b_data (bufs s bp)) bi then Inl ''freeing free block''
          else let s = upd_buf bp (\<lambda>x. x\<lparr>b_data := clear_bit bi (b_data x)\<rparr>) s
               in and_then (log_write bp s) (brelse bp))"

section \<open>Inodes\<close>

definition iinit :: "u32 \<Rightarrow> 'a fsst_scheme \<Rightarrow> 'a fsst_scheme kres" where
  "iinit dev s =
     (let s = fold (\<lambda>i. upd_inode i (\<lambda>x. x\<lparr>i_lock := initsleeplock\<rparr>)) [0..<NINODE] s
      in and_then (readsb dev s) (\<lambda>(sblk, s). Inr (s\<lparr>sb := sblk\<rparr>)))"

definition iget :: "u32 \<Rightarrow> u32 \<Rightarrow> 'a fsst_scheme \<Rightarrow> (nat \<times> 'a fsst_scheme) kres" where
  "iget dev inum s =
     (case find (\<lambda>i. i_ref (icache s i) > 0 \<and> i_dev (icache s i) = dev \<and> i_inum (icache s i) = inum) [0..<NINODE] of
        Some ip \<Rightarrow> Inr (ip, upd_inode ip (\<lambda>x. x\<lparr>i_ref := i_ref x + 1\<rparr>) s)
      | None \<Rightarrow>
          (case find (\<lambda>i. i_ref (icache s i) = 0) [0..<NINODE] of
             None \<Rightarrow> Inl ''iget: no inodes''
           | Some ip \<Rightarrow> Inr (ip, upd_inode ip (\<lambda>x. x\<lparr>i_dev := dev, i_inum := inum, i_ref := 1, i_valid := False\<rparr>) s)))"

definition idup :: "nat \<Rightarrow> 'a fsst_scheme \<Rightarrow> 'a fsst_scheme" where
  "idup ip s = upd_inode ip (\<lambda>x. x\<lparr>i_ref := i_ref x + 1\<rparr>) s"

definition IBLOCK :: "u32 \<Rightarrow> superblock \<Rightarrow> u32" where
  "IBLOCK i blk = i div IPB + sb_inodestart blk"

text \<open>The offset of an inode in its block: \<^verbatim>\<open>sizeof(struct dinode)\<close> is 64.\<close>

definition dip :: "u32 \<Rightarrow> nat" where
  "dip inum = 64 * unat (inum mod IPB)"

function ialloc_from :: "u32 \<Rightarrow> u16 \<Rightarrow> nat \<Rightarrow> nat \<Rightarrow> 'a fsst_scheme \<Rightarrow> (nat \<times> 'a fsst_scheme) kres" where
  "ialloc_from dev ty n inum s =
     (if inum < n
      then and_then (bread dev (IBLOCK (of_nat inum) (sb s)) s) (\<lambda>(bp, s).
             let o' = dip (of_nat inum)
             in if get16 (b_data (bufs s bp)) o' = 0
                then let s = upd_buf bp (\<lambda>x. x\<lparr>b_data := put16 o' ty (blit o' (replicate 64 0) (b_data x))\<rparr>) s
                     in and_then (log_write bp s) (\<lambda>s. and_then (brelse bp s) (iget dev (of_nat inum)))
                else and_then (brelse bp s) (ialloc_from dev ty n (inum + 1)))
      else Inl ''ialloc: no inodes'')"
  by pat_completeness auto
termination by (relation "measure (\<lambda>(_, _, n, i, _). n - i)") auto

declare ialloc_from.simps [simp del]

definition ialloc :: "u32 \<Rightarrow> u16 \<Rightarrow> 'a fsst_scheme \<Rightarrow> (nat \<times> 'a fsst_scheme) kres" where
  "ialloc dev ty s = ialloc_from dev ty (unat (sb_ninodes (sb s))) 1 s"

definition put_dinode :: "nat \<Rightarrow> inode \<Rightarrow> bdata \<Rightarrow> bdata" where
  "put_dinode i ip d =
     fold (\<lambda>k. put32 (i + 12 + 4 * k) (i_addrs ip k)) [0..<NDIRECT + 1]
       (put32 (i + 8) (i_size ip) (put16 (i + 6) (i_nlink ip) (put16 (i + 4) (i_minor ip) (put16 (i + 2) (i_major ip)
          (put16 i (i_type ip) d)))))"

definition get_dinode :: "nat \<Rightarrow> bdata \<Rightarrow> inode \<Rightarrow> inode" where
  "get_dinode i d ip = ip\<lparr>i_type := get16 d i, i_major := get16 d (i + 2), i_minor := get16 d (i + 4), i_nlink := get16 d (i + 6),
     i_size := get32 d (i + 8), i_addrs := (\<lambda>k. if k < NDIRECT + 1 then get32 d (i + 12 + 4 * k) else i_addrs ip k)\<rparr>"

definition iupdate :: "nat \<Rightarrow> 'a fsst_scheme \<Rightarrow> 'a fsst_scheme kres" where
  "iupdate ip s =
     and_then (bread (i_dev (icache s ip)) (IBLOCK (i_inum (icache s ip)) (sb s)) s) (\<lambda>(bp, s).
       let s = upd_buf bp (\<lambda>x. x\<lparr>b_data := put_dinode (dip (i_inum (icache s ip))) (icache s ip) (b_data x)\<rparr>) s
       in and_then (log_write bp s) (brelse bp))"

definition ilock :: "nat \<Rightarrow> 'a fsst_scheme \<Rightarrow> 'a fsst_scheme kres" where
  "ilock ip s =
     (if i_ref (icache s ip) < 1 then Inl ''ilock''
      else
        and_then (acquiresleep (cur_pid s) (i_lock (icache s ip))) (\<lambda>lk.
        let s = upd_inode ip (\<lambda>x. x\<lparr>i_lock := lk\<rparr>) s
        in if i_valid (icache s ip) then Inr s
           else
             and_then (bread (i_dev (icache s ip)) (IBLOCK (i_inum (icache s ip)) (sb s)) s) (\<lambda>(bp, s).
             let s = upd_inode ip (get_dinode (dip (i_inum (icache s ip))) (b_data (bufs s bp))) s
             in and_then (brelse bp s) (\<lambda>s.
                let s = upd_inode ip (\<lambda>x. x\<lparr>i_valid := True\<rparr>) s
                in if i_type (icache s ip) = 0 then Inl ''ilock: no type'' else Inr s))))"

definition iunlock :: "nat \<Rightarrow> 'a fsst_scheme \<Rightarrow> 'a fsst_scheme kres" where
  "iunlock ip s =
     (if \<not> holdingsleep (cur_pid s) (i_lock (icache s ip)) \<or> i_ref (icache s ip) < 1 then Inl ''iunlock''
      else Inr (upd_inode ip (\<lambda>x. x\<lparr>i_lock := releasesleep (i_lock x)\<rparr>) s))"

section \<open>The contents of an inode\<close>

definition bmap :: "nat \<Rightarrow> u32 \<Rightarrow> 'a fsst_scheme \<Rightarrow> (u32 \<times> 'a fsst_scheme) kres" where
  "bmap ip bn s =
     (if unat bn < NDIRECT
      then let addr = i_addrs (icache s ip) (unat bn)
           in if addr = 0
              then and_then (balloc (i_dev (icache s ip)) s) (\<lambda>(addr, s).
                     Inr (addr, upd_inode ip (\<lambda>x. x\<lparr>i_addrs := (i_addrs x)(unat bn := addr)\<rparr>) s))
              else Inr (addr, s)
      else
        let bn = unat bn - NDIRECT
        in if bn < NINDIRECT
           then
             and_then (if i_addrs (icache s ip) NDIRECT = 0
                       then and_then (balloc (i_dev (icache s ip)) s) (\<lambda>(addr, s).
                              Inr (addr, upd_inode ip (\<lambda>x. x\<lparr>i_addrs := (i_addrs x)(NDIRECT := addr)\<rparr>) s))
                       else Inr (i_addrs (icache s ip) NDIRECT, s)) (\<lambda>(addr, s).
             and_then (bread (i_dev (icache s ip)) addr s) (\<lambda>(bp, s).
             let addr = get32 (b_data (bufs s bp)) (4 * bn)
             in and_then (if addr = 0
                          then and_then (balloc (i_dev (icache s ip)) s) (\<lambda>(addr, s).
                               let s = upd_buf bp (\<lambda>x. x\<lparr>b_data := put32 (4 * bn) addr (b_data x)\<rparr>) s
                               in and_then (log_write bp s) (\<lambda>s. Inr (addr, s)))
                          else Inr (addr, s)) (\<lambda>(addr, s).
                and_then (brelse bp s) (\<lambda>s. Inr (addr, s)))))
           else Inl ''bmap: out of range'')"

definition free_direct :: "nat \<Rightarrow> nat \<Rightarrow> 'a fsst_scheme \<Rightarrow> 'a fsst_scheme kres" where
  "free_direct ip i s =
     (if i_addrs (icache s ip) i \<noteq> 0
      then and_then (bfree (i_dev (icache s ip)) (i_addrs (icache s ip) i) s) (\<lambda>s.
             Inr (upd_inode ip (\<lambda>x. x\<lparr>i_addrs := (i_addrs x)(i := 0)\<rparr>) s))
      else Inr s)"

definition itrunc :: "nat \<Rightarrow> 'a fsst_scheme \<Rightarrow> 'a fsst_scheme kres" where
  "itrunc ip s =
     and_then (foldk (free_direct ip) [0..<NDIRECT] s) (\<lambda>s.
     and_then (if i_addrs (icache s ip) NDIRECT \<noteq> 0
               then and_then (bread (i_dev (icache s ip)) (i_addrs (icache s ip) NDIRECT) s) (\<lambda>(bp, s).
                    and_then (foldk (\<lambda>j s. if get32 (b_data (bufs s bp)) (4 * j) \<noteq> 0
                                           then bfree (i_dev (icache s ip)) (get32 (b_data (bufs s bp)) (4 * j)) s
                                           else Inr s) [0..<NINDIRECT] s) (\<lambda>s.
                    and_then (brelse bp s) (\<lambda>s.
                    and_then (bfree (i_dev (icache s ip)) (i_addrs (icache s ip) NDIRECT) s) (\<lambda>s.
                    Inr (upd_inode ip (\<lambda>x. x\<lparr>i_addrs := (i_addrs x)(NDIRECT := 0)\<rparr>) s)))))
               else Inr s) (\<lambda>s.
     iupdate ip (upd_inode ip (\<lambda>x. x\<lparr>i_size := 0\<rparr>) s)))"

definition iput :: "nat \<Rightarrow> 'a fsst_scheme \<Rightarrow> 'a fsst_scheme kres" where
  "iput ip s =
     and_then (acquiresleep (cur_pid s) (i_lock (icache s ip))) (\<lambda>lk.
     let s = upd_inode ip (\<lambda>x. x\<lparr>i_lock := lk\<rparr>) s
     in and_then (if i_valid (icache s ip) \<and> i_nlink (icache s ip) = 0 \<and> i_ref (icache s ip) = 1
                  then and_then (itrunc ip s) (\<lambda>s.
                       and_then (iupdate ip (upd_inode ip (\<lambda>x. x\<lparr>i_type := 0\<rparr>) s)) (\<lambda>s.
                       Inr (upd_inode ip (\<lambda>x. x\<lparr>i_valid := False\<rparr>) s)))
                  else Inr s) (\<lambda>s.
        Inr (upd_inode ip (\<lambda>x. x\<lparr>i_lock := releasesleep (i_lock x), i_ref := i_ref x - 1\<rparr>) s)))"

definition iunlockput :: "nat \<Rightarrow> 'a fsst_scheme \<Rightarrow> 'a fsst_scheme kres" where
  "iunlockput ip s = and_then (iunlock ip s) (iput ip)"

record stat =
  st_type :: u16
  st_dev :: u32
  st_ino :: u32
  st_nlink :: u16
  st_size :: u32

definition stati :: "nat \<Rightarrow> 'a fsst_scheme \<Rightarrow> stat" where
  "stati ip s = \<lparr>st_type = i_type (icache s ip), st_dev = i_dev (icache s ip), st_ino = i_inum (icache s ip),
     st_nlink = i_nlink (icache s ip), st_size = i_size (icache s ip)\<rparr>"

text \<open>
  The loops of \<^verbatim>\<open>readi\<close> and \<^verbatim>\<open>writei\<close>; \<open>r\<close> is \<^verbatim>\<open>n - tot\<close>, the number of bytes still to go.
\<close>

function read_loop :: "nat \<Rightarrow> u32 \<Rightarrow> nat \<Rightarrow> 'a fsst_scheme \<Rightarrow> (u8 list \<times> 'a fsst_scheme) kres" where
  "read_loop ip off r s =
     (if r = 0 then Inr ([], s)
      else
        and_then (bmap ip (off div of_nat BSIZE) s) (\<lambda>(addr, s).
        and_then (bread (i_dev (icache s ip)) addr s) (\<lambda>(bp, s).
        let o' = unat off mod BSIZE;
            m = min r (BSIZE - o');
            bs = map (b_data (bufs s bp)) [o'..<o' + m]
        in and_then (brelse bp s) (\<lambda>s.
           and_then (read_loop ip (off + of_nat m) (r - m) s) (\<lambda>(rest, s).
           Inr (bs @ rest, s))))))"
  by pat_completeness auto
termination by (relation "measure (\<lambda>(_, _, r, _). r)") (auto simp: BSIZE_def)

declare read_loop.simps [simp del]

definition readi :: "'a fsst_scheme devops \<Rightarrow> nat \<Rightarrow> u32 \<Rightarrow> u32 \<Rightarrow> 'a fsst_scheme \<Rightarrow> ((int \<times> u8 list) \<times> 'a fsst_scheme) kres" where
  "readi D ip off n s =
     (let x = icache s ip
      in if i_type x = T_DEV
         then (if sint (i_major x) < 0 \<or> sint (i_major x) \<ge> NDEV then Inr ((- 1, []), s)
               else case dev_read D (sint (i_major x)) of None \<Rightarrow> Inr ((- 1, []), s) | Some rd \<Rightarrow> rd ip n s)
         else if off > i_size x \<or> off + n < off then Inr ((- 1, []), s)
         else
           let n = (if off + n > i_size x then i_size x - off else n)
           in and_then (read_loop ip off (unat n) s) (\<lambda>(bs, s). Inr ((sint n, bs), s)))"

function write_loop :: "nat \<Rightarrow> u8 list \<Rightarrow> u32 \<Rightarrow> nat \<Rightarrow> 'a fsst_scheme \<Rightarrow> (u32 \<times> 'a fsst_scheme) kres" where
  "write_loop ip src off r s =
     (if r = 0 then Inr (off, s)
      else
        and_then (bmap ip (off div of_nat BSIZE) s) (\<lambda>(addr, s).
        and_then (bread (i_dev (icache s ip)) addr s) (\<lambda>(bp, s).
        let o' = unat off mod BSIZE;
            m = min r (BSIZE - o');
            s = upd_buf bp (\<lambda>x. x\<lparr>b_data := blit o' (take m src) (b_data x)\<rparr>) s
        in and_then (log_write bp s) (\<lambda>s.
           and_then (brelse bp s) (write_loop ip (drop m src) (off + of_nat m) (r - m))))))"
  by pat_completeness auto
termination by (relation "measure (\<lambda>(_, _, _, r, _). r)") (auto simp: BSIZE_def)

declare write_loop.simps [simp del]

definition writei :: "'a fsst_scheme devops \<Rightarrow> nat \<Rightarrow> u8 list \<Rightarrow> u32 \<Rightarrow> u32 \<Rightarrow> 'a fsst_scheme \<Rightarrow> (int \<times> 'a fsst_scheme) kres" where
  "writei D ip src off n s =
     (let x = icache s ip
      in if i_type x = T_DEV
         then (if sint (i_major x) < 0 \<or> sint (i_major x) \<ge> NDEV then Inr (- 1, s)
               else case dev_write D (sint (i_major x)) of None \<Rightarrow> Inr (- 1, s) | Some wr \<Rightarrow> wr ip src n s)
         else if off > i_size x \<or> off + n < off then Inr (- 1, s)
         else if off + n > of_nat (MAXFILE * BSIZE) then Inr (- 1, s)
         else
           and_then (write_loop ip src off (unat n) s) (\<lambda>(off, s).
           if n > 0 \<and> off > i_size (icache s ip)
           then and_then (iupdate ip (upd_inode ip (\<lambda>x. x\<lparr>i_size := off\<rparr>) s)) (\<lambda>s. Inr (sint n, s))
           else Inr (sint n, s)))"

section \<open>Directories\<close>

definition namecmp :: "bytes \<Rightarrow> bytes \<Rightarrow> int" where
  "namecmp s t = strncmp DIRSIZ s t"

text \<open>A directory entry is its inode number and its name; on the disk it takes 16 bytes.\<close>

definition bytes_of :: "u8 list \<Rightarrow> bytes" where
  "bytes_of bs = (\<lambda>i. if i < length bs then bs ! i else 0)"

definition de_inum :: "u8 list \<Rightarrow> u16" where
  "de_inum de = get16 (bytes_of de) 0"

definition de_name :: "u8 list \<Rightarrow> bytes" where
  "de_name de = (\<lambda>i. bytes_of de (i + 2))"

definition dirent :: "u16 \<Rightarrow> bytes \<Rightarrow> u8 list" where
  "dirent inum name = [ucast inum, ucast (drop_bit 8 inum)] @ map name [0..<DIRSIZ]"

text \<open>
  The loop of \<^verbatim>\<open>dirlookup\<close> from offset \<open>off\<close>: the result is the offset of the entry and the inode. A turn
  that would make the offset wrap around shows as \<open>Inl ''diverges''\<close>.
\<close>

function lookup_from :: "'a fsst_scheme devops \<Rightarrow> nat \<Rightarrow> bytes \<Rightarrow> u32 \<Rightarrow> 'a fsst_scheme \<Rightarrow> ((u32 \<times> nat) option \<times> 'a fsst_scheme) kres" where
  "lookup_from D dp name off s =
     (if off < i_size (icache s dp)
      then and_then (readi D dp off 16 s) (\<lambda>((n, de), s).
             if n \<noteq> 16 then Inl ''dirlookup read''
             else if de_inum de \<noteq> 0 \<and> namecmp name (de_name de) = 0
             then and_then (iget (i_dev (icache s dp)) (ucast (de_inum de)) s) (\<lambda>(ip, s). Inr (Some (off, ip), s))
             else if off + 16 > off then lookup_from D dp name (off + 16) s else Inl ''diverges'')
      else Inr (None, s))"
  by pat_completeness auto
termination by (relation "measure (\<lambda>(_, _, _, off, _). room off)") (auto simp: room_less)

declare lookup_from.simps [simp del]

definition dirlookup :: "'a fsst_scheme devops \<Rightarrow> nat \<Rightarrow> bytes \<Rightarrow> 'a fsst_scheme \<Rightarrow> ((u32 \<times> nat) option \<times> 'a fsst_scheme) kres" where
  "dirlookup D dp name s =
     (if i_type (icache s dp) \<noteq> T_DIR then Inl ''dirlookup not DIR'' else lookup_from D dp name 0 s)"

function free_slot_from :: "'a fsst_scheme devops \<Rightarrow> nat \<Rightarrow> u32 \<Rightarrow> 'a fsst_scheme \<Rightarrow> (u32 \<times> 'a fsst_scheme) kres" where
  "free_slot_from D dp off s =
     (if off < i_size (icache s dp)
      then and_then (readi D dp off 16 s) (\<lambda>((n, de), s).
             if n \<noteq> 16 then Inl ''dirlink read''
             else if de_inum de = 0 then Inr (off, s)
             else if off + 16 > off then free_slot_from D dp (off + 16) s else Inl ''diverges'')
      else Inr (off, s))"
  by pat_completeness auto
termination by (relation "measure (\<lambda>(_, _, off, _). room off)") (auto simp: room_less)

declare free_slot_from.simps [simp del]

text \<open>
  The name field of the entry that \<^verbatim>\<open>dirlink\<close> writes is filled completely by \<^verbatim>\<open>strncpy\<close>, so what it held
  before does not matter.
\<close>

definition dirlink :: "'a fsst_scheme devops \<Rightarrow> nat \<Rightarrow> bytes \<Rightarrow> u32 \<Rightarrow> 'a fsst_scheme \<Rightarrow> (int \<times> 'a fsst_scheme) kres" where
  "dirlink D dp name inum s =
     and_then (dirlookup D dp name s) (\<lambda>(r, s).
     case r of
       Some (_, ip) \<Rightarrow> and_then (iput ip s) (\<lambda>s. Inr (- 1, s))
     | None \<Rightarrow>
         and_then (free_slot_from D dp 0 s) (\<lambda>(off, s).
         and_then (writei D dp (dirent (ucast inum) (strncpy (\<lambda>_. 0) name (int DIRSIZ))) off 16 s) (\<lambda>(n, s).
         if n \<noteq> 16 then Inl ''dirlink'' else Inr (0, s))))"

section \<open>Paths\<close>

text \<open>
  A path is the list of its characters, without the final zero. The second part of the result is
  the array \<^verbatim>\<open>name\<close>, which keeps its old bytes behind the zero that ends a short name.
\<close>

definition skipelem :: "u8 list \<Rightarrow> bytes \<Rightarrow> (u8 list \<times> bytes) option" where
  "skipelem path name =
     (let path = dropWhile (\<lambda>c. c = 47) path
      in if path = [] then None
         else
           let el = takeWhile (\<lambda>c. c \<noteq> 47) path;
               path = dropWhile (\<lambda>c. c \<noteq> 47) path;
               len = length el;
               name = (if len \<ge> DIRSIZ then blit 0 (take DIRSIZ el) name else (blit 0 el name)(len := 0))
           in Some (dropWhile (\<lambda>c. c = 47) path, name))"

lemma skipelem_shorter: "skipelem path name = Some (path', name') \<Longrightarrow> length path' < length path"
proof -
  assume a: "skipelem path name = Some (path', name')"
  let ?p = "dropWhile (\<lambda>c. c = 47) path"
  have ne: "?p \<noteq> []" using a by (auto simp: skipelem_def Let_def split: if_splits)
  then have "hd ?p \<noteq> 47" using hd_dropWhile [OF ne] by simp
  then have l: "length (dropWhile (\<lambda>c. c \<noteq> 47) ?p) < length ?p"
    using ne by (cases ?p) (auto simp: le_imp_less_Suc length_dropWhile_le)
  have p: "path' = dropWhile (\<lambda>c. c = 47) (dropWhile (\<lambda>c. c \<noteq> 47) ?p)"
    using a ne unfolding skipelem_def Let_def by (simp only: if_False option.inject prod.inject)
  show ?thesis
    unfolding p using l length_dropWhile_le [of "\<lambda>c. c = 47" "dropWhile (\<lambda>c. c \<noteq> 47) ?p"] length_dropWhile_le [of "\<lambda>c. c = 47" path] by linarith
qed

text \<open>The loop of \<^verbatim>\<open>namex\<close>; the result is the inode, if any, and the name.\<close>

function walk :: "'a fsst_scheme devops \<Rightarrow> bool \<Rightarrow> nat \<Rightarrow> u8 list \<Rightarrow> bytes \<Rightarrow> 'a fsst_scheme \<Rightarrow> ((nat option \<times> bytes) \<times> 'a fsst_scheme) kres" where
  "walk D parent ip path name s =
     (case skipelem path name of
        Some (path, name) \<Rightarrow>
          and_then (ilock ip s) (\<lambda>s.
          if i_type (icache s ip) \<noteq> T_DIR then and_then (iunlockput ip s) (\<lambda>s. Inr ((None, name), s))
          else if parent \<and> path = [] then and_then (iunlock ip s) (\<lambda>s. Inr ((Some ip, name), s))
          else
            and_then (dirlookup D ip name s) (\<lambda>(r, s).
            case r of
              None \<Rightarrow> and_then (iunlockput ip s) (\<lambda>s. Inr ((None, name), s))
            | Some (_, nxt) \<Rightarrow> and_then (iunlockput ip s) (walk D parent nxt path name)))
      | None \<Rightarrow> if parent then and_then (iput ip s) (\<lambda>s. Inr ((None, name), s)) else Inr ((Some ip, name), s))"
  by pat_completeness auto
termination by (relation "measure (\<lambda>(_, _, _, path, _). length path)") (auto simp: skipelem_shorter)

declare walk.simps [simp del]

definition namex :: "'a fsst_scheme devops \<Rightarrow> u8 list \<Rightarrow> bool \<Rightarrow> bytes \<Rightarrow> 'a fsst_scheme \<Rightarrow> ((nat option \<times> bytes) \<times> 'a fsst_scheme) kres" where
  "namex D path parent name s =
     and_then (if path \<noteq> [] \<and> hd path = 47 then iget ROOTDEV ROOTINO s else Inr (cwd s, idup (cwd s) s))
       (\<lambda>(ip, s). walk D parent ip path name s)"

definition namei :: "'a fsst_scheme devops \<Rightarrow> u8 list \<Rightarrow> 'a fsst_scheme \<Rightarrow> (nat option \<times> 'a fsst_scheme) kres" where
  "namei D path s = and_then (namex D path False (\<lambda>_. 0) s) (\<lambda>((ip, _), s). Inr (ip, s))"

definition nameiparent :: "'a fsst_scheme devops \<Rightarrow> u8 list \<Rightarrow> bytes \<Rightarrow> 'a fsst_scheme \<Rightarrow> ((nat option \<times> bytes) \<times> 'a fsst_scheme) kres" where
  "nameiparent D path name s = namex D path True name s"

end
