(* ===== verification/FsInv.thy ===== *)
theory FsInv
  imports LogSpec Fs
begin

text \<open>
  What the file system makes of the blocks: the contents of a file as a sequence of bytes, and
  the operations of \<^verbatim>\<open>fs.c\<close> in terms of it, on top of the contracts of the buffer cache
  (theory \<open>BioInv\<close>) and of the log (theory \<open>LogInv\<close>).
\<close>

section \<open>Frames\<close>

lemma fs_frame:
  assumes "same_disk s s'"
  shows "icache s' = icache s" "sb s' = sb s" "cwd s' = cwd s" "fsst.more s' = fsst.more s"
  using assms by (cases s, cases s', simp add: same_disk_def)+

lemma txn_fs_frame:
  assumes "txn_frame s s'"
  shows "icache s' = icache s" "sb s' = sb s" "cwd s' = cwd s" "fsst.more s' = fsst.more s"
  using assms by (cases s, cases s', simp add: txn_frame_def)+

text \<open>\<open>kept s s'\<close>: a state between transactions that differs only in what is cached where.\<close>

definition kept :: "'a fsst_scheme \<Rightarrow> 'a fsst_scheme \<Rightarrow> bool" where
  "kept s s' \<longleftrightarrow> txn_ready s' \<and> view s' = view s \<and> dirtyb s' = dirtyb s \<and> same_disk s s'"

lemma keptD:
  assumes "kept s s'"
  shows "txn_ready s'" "view s' = view s" "dirtyb s' = dirtyb s" "same_disk s s'" "icache s' = icache s" "sb s' = sb s" "cwd s' = cwd s"
    "disksize s' = disksize s" "lg_outstanding s' = lg_outstanding s" "lh_n s' = lh_n s" "lg_size s' = lg_size s" "log_area s' = log_area s"
    "cur_pid s' = cur_pid s"
  using assms fs_frame [of s s'] lg_frame [of s s'] by (simp_all add: kept_def log_area_def)

lemma kept_refl: "txn_ready s \<Longrightarrow> kept s s"
  by (simp add: kept_def)

lemma kept_trans: "kept s s' \<Longrightarrow> kept s' s'' \<Longrightarrow> kept s s''"
  using same_disk_trans by (auto simp: kept_def)

lemma ready_spare:
  assumes "txn_ready s"
  shows "card (dirtyb s) < NBUF"
proof -
  have h: "0 \<le> lh_n s" "lh_n s < 30"
    using assms unfolding txn_ready_def header_ok_def log_layout_def LOGSIZE_def MAXOPBLOCKS_def by linarith+
  have "dirtyb s = lh_block s ` {..<nat (lh_n s)}" using assms unfolding txn_ready_def by blast
  then have "card (dirtyb s) \<le> nat (lh_n s)" using card_image_le [of "{..<nat (lh_n s)}" "lh_block s"] by simp
  then show ?thesis using h by (simp add: NBUF_def)
qed

lemma read_block:
  assumes "txn_ready s" "n < disksize s"
  obtains b s1 s2 where "bread 1 n s = Inr (b, s1)" "b_data (bufs s1 b) = view s n" "brelse b s1 = Inr s2" "kept s s2"
proof -
  have r: "log_inv s" "heldb s = {}" "cache_ok s" using assms(1) unfolding txn_ready_iff log_inv_def by blast+
  obtain b s1 s2 where s: "bread 1 n s = Inr (b, s1)" "b_data (bufs s1 b) = view s n" "brelse b s1 = Inr s2" "cache_ok s2"
    "view s2 = view s" "heldb s2 = heldb s" "dirtyb s2 = dirtyb s" "same_disk s s2"
    by (rule read_release [OF r(3), of n]) (use r assms(2) ready_spare [OF assms(1)] in auto)
  have "kept s s2" using s r log_inv_cong [OF s(4,7,8) r(1)] by (simp add: kept_def txn_ready_iff)
  then show ?thesis using that s by blast
qed

section \<open>The contents of a file\<close>

text \<open>The block with number \<open>bn\<close> of a file and the blocks it is made of.\<close>

definition indirect :: "'a fsst_scheme \<Rightarrow> nat \<Rightarrow> u32" where
  "indirect s ip = i_addrs (icache s ip) NDIRECT"

definition daddr :: "'a fsst_scheme \<Rightarrow> nat \<Rightarrow> nat \<Rightarrow> u32" where
  "daddr s ip bn =
     (if bn < NDIRECT then i_addrs (icache s ip) bn else get32 (view s (indirect s ip)) (4 * (bn - NDIRECT)))"

definition file_byte :: "'a fsst_scheme \<Rightarrow> nat \<Rightarrow> nat \<Rightarrow> u8" where
  "file_byte s ip j = view s (daddr s ip (j div BSIZE)) (j mod BSIZE)"

definition file_size :: "'a fsst_scheme \<Rightarrow> nat \<Rightarrow> nat" where
  "file_size s ip = unat (i_size (icache s ip))"

definition file_bytes :: "'a fsst_scheme \<Rightarrow> nat \<Rightarrow> u8 list" where
  "file_bytes s ip = map (file_byte s ip) [0..<file_size s ip]"

text \<open>The number of blocks of a file.\<close>

definition file_blocks :: "'a fsst_scheme \<Rightarrow> nat \<Rightarrow> nat" where
  "file_blocks s ip = (file_size s ip + BSIZE - 1) div BSIZE"

text \<open>
  A file that is laid out on the disk: its blocks are allocated and distinct, none of them is
  the super block or in the log, and its indirect block is none of them.
\<close>

definition file_ok :: "'a fsst_scheme \<Rightarrow> nat \<Rightarrow> bool" where
  "file_ok s ip \<longleftrightarrow> i_dev (icache s ip) = 1 \<and> i_type (icache s ip) \<noteq> T_DEV \<and> file_size s ip \<le> MAXFILE * BSIZE
     \<and> (\<forall>bn < file_blocks s ip. daddr s ip bn \<noteq> 0 \<and> daddr s ip bn < disksize s \<and> daddr s ip bn \<noteq> 1 \<and> daddr s ip bn \<notin> log_area s)
     \<and> inj_on (daddr s ip) {..<file_blocks s ip}
     \<and> (NDIRECT < file_blocks s ip \<longrightarrow> indirect s ip \<noteq> 0 \<and> indirect s ip < disksize s
          \<and> indirect s ip \<notin> daddr s ip ` {..<file_blocks s ip})"

lemma in_blocks: "j < file_size s ip \<Longrightarrow> j div BSIZE < file_blocks s ip"
  using div_le_mono [of "j + 512" "file_size s ip + 511" 512] unfolding file_blocks_def BSIZE_def by simp

lemma file_okD:
  assumes "file_ok s ip"
  shows "i_dev (icache s ip) = 1" "i_type (icache s ip) \<noteq> T_DEV" "file_size s ip \<le> MAXFILE * BSIZE"
    "bn < file_blocks s ip \<Longrightarrow> daddr s ip bn \<noteq> 0" "bn < file_blocks s ip \<Longrightarrow> daddr s ip bn < disksize s"
    "inj_on (daddr s ip) {..<file_blocks s ip}"
    "bn < file_blocks s ip \<Longrightarrow> \<not> bn < NDIRECT \<Longrightarrow> indirect s ip \<noteq> 0 \<and> indirect s ip < disksize s"
    "bn < file_blocks s ip \<Longrightarrow> \<not> bn < NDIRECT \<Longrightarrow> c < file_blocks s ip \<Longrightarrow> daddr s ip c \<noteq> indirect s ip"
    "bn < file_blocks s ip \<Longrightarrow> daddr s ip bn \<noteq> 1" "bn < file_blocks s ip \<Longrightarrow> daddr s ip bn \<notin> log_area s"
  using assms unfolding file_ok_def by (auto simp: image_iff) (metis lessThan_iff)

lemma file_blocks_max: "file_ok s ip \<Longrightarrow> file_blocks s ip \<le> MAXFILE"
  using file_okD(3) [of s ip] unfolding file_blocks_def MAXFILE_def NINDIRECT_def NDIRECT_def BSIZE_def by simp

lemma kept_file:
  assumes "kept s s'"
  shows "daddr s' = daddr s" "file_byte s' = file_byte s" "file_size s' = file_size s" "file_bytes s' = file_bytes s"
    "file_blocks s' = file_blocks s" "file_ok s' = file_ok s" "indirect s' = indirect s"
proof -
  note k = keptD [OF assms]
  show i: "indirect s' = indirect s" by (simp add: indirect_def k fun_eq_iff)
  show d: "daddr s' = daddr s" by (simp add: daddr_def k i fun_eq_iff)
  show b: "file_byte s' = file_byte s" by (simp add: file_byte_def k d fun_eq_iff)
  show z: "file_size s' = file_size s" by (simp add: file_size_def k fun_eq_iff)
  show "file_bytes s' = file_bytes s" by (simp add: file_bytes_def b z fun_eq_iff)
  show n: "file_blocks s' = file_blocks s" by (simp add: file_blocks_def z fun_eq_iff)
  show "file_ok s' = file_ok s" by (simp add: file_ok_def k d z n i fun_eq_iff)
qed

section \<open>Reading\<close>

lemma bmap_ok:
  assumes "txn_ready s" "file_ok s ip" "unat bn < file_blocks s ip"
  obtains s' where "bmap ip bn s = Inr (daddr s ip (unat bn), s')" "kept s s'"
proof (cases "unat bn < NDIRECT")
  case True
  have "daddr s ip (unat bn) \<noteq> 0" by (rule file_okD(4) [OF assms(2,3)])
  then show ?thesis using that [OF _ kept_refl [OF assms(1)]] True by (simp add: bmap_def daddr_def Let_def)
next
  case False
  have i: "indirect s ip \<noteq> 0" "indirect s ip < disksize s" using file_okD(7) [OF assms(2,3) False] by auto
  have n: "unat bn - NDIRECT < NINDIRECT"
    using assms(3) file_blocks_max [OF assms(2)] False by (simp add: MAXFILE_def NINDIRECT_def NDIRECT_def BSIZE_def)
  obtain b s1 s2 where s: "bread 1 (indirect s ip) s = Inr (b, s1)" "b_data (bufs s1 b) = view s (indirect s ip)"
    "brelse b s1 = Inr s2" "kept s s2"
    using read_block [OF assms(1) i(2)] .
  have d: "get32 (view s (indirect s ip)) (4 * (unat bn - NDIRECT)) = daddr s ip (unat bn)" using False by (simp add: daddr_def)
  have z: "daddr s ip (unat bn) \<noteq> 0" by (rule file_okD(4) [OF assms(2,3)])
  show ?thesis
    by (rule that [OF _ s(4)])
      (use False n i z s file_okD(1) [OF assms(2)] in \<open>simp add: bmap_def Let_def d flip: indirect_def\<close>)
qed

text \<open>Offsets inside one block.\<close>

lemma same_block:
  assumes "k < BSIZE - a mod BSIZE"
  shows "(a + k) div BSIZE = a div BSIZE" "(a + k) mod BSIZE = a mod BSIZE + k"
proof -
  have "a = a div BSIZE * BSIZE + a mod BSIZE" by simp
  then have e: "a + k = (a mod BSIZE + k) + a div BSIZE * BSIZE" by linarith
  have l: "a mod BSIZE + k < BSIZE" using assms by linarith
  have "BSIZE \<noteq> 0" by (simp add: BSIZE_def)
  then show "(a + k) div BSIZE = a div BSIZE" unfolding e using div_mult_self1 [of BSIZE "a mod BSIZE + k" "a div BSIZE"] div_less [OF l] by simp
  show "(a + k) mod BSIZE = a mod BSIZE + k" unfolding e by (simp only: mod_mult_self1 mod_less [OF l])
qed

lemma chunk:
  assumes "m \<le> BSIZE - a mod BSIZE"
  shows "map (view s (daddr s ip (a div BSIZE))) [a mod BSIZE..<a mod BSIZE + m] = map (file_byte s ip) [a..<a + m]"
  by (rule nth_equalityI) (use assms in \<open>simp_all add: file_byte_def same_block\<close>)

lemma file_size_max: "file_ok s ip \<Longrightarrow> file_size s ip \<le> 71680"
  using file_okD(3) [of s ip] by (simp add: MAXFILE_def NINDIRECT_def NDIRECT_def BSIZE_def)

lemma off_add:
  assumes "unat off + m \<le> 71680"
  shows "unat (off + of_nat m :: u32) = unat off + m"
  using assms by (simp add: unat_word_ariths unsigned_of_nat take_bit_nat_eq_self)

lemma read_loop_ok:
  assumes "txn_ready s" "file_ok s ip" "unat off + r \<le> file_size s ip"
  shows "\<exists>s'. read_loop ip off r s = Inr (map (file_byte s ip) [unat off..<unat off + r], s') \<and> kept s s'"
  using assms
proof (induction r arbitrary: off s rule: less_induct)
  case (less r)
  show ?case
  proof (cases "r = 0")
    case True
    then show ?thesis using kept_refl [OF less(2)] by (simp add: read_loop.simps)
  next
    case False
    define o' where "o' = unat off mod BSIZE"
    define m where "m = min r (BSIZE - o')"
    have m: "0 < m" "m \<le> r" "m \<le> BSIZE - unat off mod BSIZE" using False by (auto simp: m_def o'_def BSIZE_def)
    have bn: "unat (off div of_nat BSIZE) = unat off div BSIZE" by (simp add: BSIZE_def unat_div)
    have bl: "unat off div BSIZE < file_blocks s ip" using in_blocks [of "unat off" s ip] less(4) False by simp
    obtain s1 where s1: "bmap ip (off div of_nat BSIZE) s = Inr (daddr s ip (unat off div BSIZE), s1)" "kept s s1"
      using bmap_ok [OF less(2,3), of "off div of_nat BSIZE"] bl unfolding bn by metis
    note k1 = keptD [OF s1(2)]
    have dz: "daddr s ip (unat off div BSIZE) < disksize s1" using file_okD(5) [OF less(3) bl] k1 by simp
    obtain b s2 s3 where s2: "bread 1 (daddr s ip (unat off div BSIZE)) s1 = Inr (b, s2)"
      "b_data (bufs s2 b) = view s1 (daddr s ip (unat off div BSIZE))" "brelse b s2 = Inr s3" "kept s1 s3"
      using read_block [OF k1(1) dz] .
    have k3: "kept s s3" using s1(2) s2(4) by (rule kept_trans)
    note f3 = kept_file [OF k3]
    have o: "unat (off + of_nat m) = unat off + m"
      using off_add m(2) less(4) file_size_max [OF less(3)] by simp
    have "\<exists>s'. read_loop ip (off + of_nat m) (r - m) s3
        = Inr (map (file_byte s3 ip) [unat (off + of_nat m)..<unat (off + of_nat m) + (r - m)], s') \<and> kept s3 s'"
      by (rule less(1)) (use m o less(3,4) False keptD(1) [OF k3] in \<open>simp_all add: f3\<close>)
    then obtain s4 where s4: "read_loop ip (off + of_nat m) (r - m) s3 = Inr (map (file_byte s ip) [unat off + m..<unat off + r], s4)"
      "kept s3 s4" using m(2) by (auto simp: f3 o)
    have dev: "i_dev (icache s1 ip) = 1" using file_okD(1) [OF less(3)] k1 by simp
    have up: "[unat off..<unat off + r] = [unat off..<unat off + m] @ [unat off + m..<unat off + r]"
      using m(2) upt_add_eq_append [of "unat off" "unat off + m" "r - m"] by simp
    have "read_loop ip off r s = Inr (map (file_byte s ip) [unat off..<unat off + r], s4)"
      unfolding up map_append
      using False s1(1) s2 s4(1) dev chunk [OF m(3), of s ip] k1(2)
      by (subst read_loop.simps) (simp add: Let_def flip: o'_def m_def)
    then show ?thesis using kept_trans [OF k3 s4(2)] by blast
  qed
qed

text \<open>A number that the size of a file bounds has the same value as a signed one.\<close>

lemma sint_small:
  assumes "unat (n :: u32) \<le> 71680"
  shows "sint n = int (unat n)"
proof -
  have u: "uint n = int (unat n)" by simp
  then have "uint n < 2147483648" using assms by linarith
  then show ?thesis unfolding sint_u32 u by simp
qed

text \<open>What \<^verbatim>\<open>readi\<close> reads: \<open>n\<close> bytes from \<open>off\<close> on, fewer at the end of the file.\<close>

lemma readi_ok:
  assumes "txn_ready s" "file_ok s ip" "off \<le> i_size (icache s ip)" "off \<le> off + n"
  defines "bs \<equiv> take (unat n) (drop (unat off) (file_bytes s ip))"
  obtains s' where "readi D ip off n s = Inr ((int (length bs), bs), s')" "kept s s'"
proof -
  define k where "k = (if off + n > i_size (icache s ip) then i_size (icache s ip) - off else n)"
  have nw: "unat (off + n) = unat off + unat n" using assms(4) by (rule unat_plus_simple [THEN iffD1])
  have lo: "unat off \<le> file_size s ip" using assms(3) by (simp add: file_size_def word_le_nat_alt)
  have k: "unat k = min (unat n) (file_size s ip - unat off)"
    using assms(3) nw unat_sub [OF assms(3)] by (auto simp: k_def file_size_def word_less_nat_alt)
  have bs: "bs = map (file_byte s ip) [unat off..<unat off + unat k]"
    by (rule nth_equalityI) (use lo in \<open>auto simp: bs_def file_bytes_def k min_def split: if_splits\<close>)
  have "unat off + unat k \<le> file_size s ip" using k lo by simp
  then obtain s' where s': "read_loop ip off (unat k) s = Inr (bs, s')" "kept s s'"
    using read_loop_ok [OF assms(1,2), of off "unat k"] unfolding bs by blast
  have "sint k = int (length bs)" unfolding bs using sint_small [of k] k lo file_size_max [OF assms(2)] by simp
  then have "readi D ip off n s = Inr ((int (length bs), bs), s')"
    using assms(3,4) s'(1) file_okD(2) [OF assms(2)] by (simp add: readi_def Let_def linorder_not_less flip: k_def)
  then show ?thesis using that s'(2) by blast
qed

section \<open>Writing\<close>

text \<open>
  \<open>file_written s ip a bs s'\<close>: in \<open>s'\<close> the bytes of the file from offset \<open>a\<close> on are \<open>bs\<close>; its
  other bytes and the blocks of other files are as in \<open>s\<close>.
\<close>

definition file_written :: "'a fsst_scheme \<Rightarrow> nat \<Rightarrow> nat \<Rightarrow> u8 list \<Rightarrow> 'a fsst_scheme \<Rightarrow> bool" where
  "file_written s ip a bs s' \<longleftrightarrow> txn_ready s' \<and> txn_frame s s'
     \<and> (\<forall>bn < file_blocks s ip. daddr s' ip bn = daddr s ip bn)
     \<and> (\<forall>j < file_size s ip. file_byte s' ip j = (if a \<le> j \<and> j < a + length bs then bs ! (j - a) else file_byte s ip j))
     \<and> (\<forall>n. n \<notin> daddr s ip ` {..<file_blocks s ip} \<longrightarrow> view s' n = view s n)"

lemma file_writtenD:
  assumes "file_written s ip a bs s'"
  shows "txn_ready s'" "txn_frame s s'" "bn < file_blocks s ip \<Longrightarrow> daddr s' ip bn = daddr s ip bn"
    "j < file_size s ip \<Longrightarrow> file_byte s' ip j = (if a \<le> j \<and> j < a + length bs then bs ! (j - a) else file_byte s ip j)"
    "n \<notin> daddr s ip ` {..<file_blocks s ip} \<Longrightarrow> view s' n = view s n"
    "icache s' = icache s" "indirect s' = indirect s" "file_size s' = file_size s" "file_blocks s' = file_blocks s"
    "disksize s' = disksize s" "log_area s' = log_area s" "lg_outstanding s' = lg_outstanding s" "lg_size s' = lg_size s"
proof -
  show "txn_ready s'" "txn_frame s s'" "bn < file_blocks s ip \<Longrightarrow> daddr s' ip bn = daddr s ip bn"
    "j < file_size s ip \<Longrightarrow> file_byte s' ip j = (if a \<le> j \<and> j < a + length bs then bs ! (j - a) else file_byte s ip j)"
    "n \<notin> daddr s ip ` {..<file_blocks s ip} \<Longrightarrow> view s' n = view s n"
    using assms unfolding file_written_def by blast+
  then show i: "icache s' = icache s" using txn_fs_frame(1) by blast
  show "indirect s' = indirect s" "file_size s' = file_size s" "file_blocks s' = file_blocks s"
    by (simp_all add: fun_eq_iff indirect_def file_size_def file_blocks_def i)
  show "disksize s' = disksize s" "log_area s' = log_area s" "lg_outstanding s' = lg_outstanding s" "lg_size s' = lg_size s"
    using \<open>txn_frame s s'\<close> by (simp_all add: txn_frame_def log_area_def)
qed

lemma file_written_ok:
  assumes "file_written s ip a bs s'" "file_ok s ip"
  shows "file_ok s' ip"
proof -
  note w = file_writtenD [OF assms(1)]
  have d: "daddr s' ip ` {..<file_blocks s ip} = daddr s ip ` {..<file_blocks s ip}" by (rule image_cong) (simp_all add: w)
  have i: "inj_on (daddr s' ip) {..<file_blocks s ip} \<longleftrightarrow> inj_on (daddr s ip) {..<file_blocks s ip}"
    by (rule inj_on_cong) (simp add: w)
  show ?thesis using assms(2) unfolding file_ok_def w(6-11) d i by (simp add: w(3))
qed

lemma file_written_trans:
  assumes "file_written s ip a cs s1" "file_written s1 ip (a + length cs) ds s2"
  shows "file_written s ip a (cs @ ds) s2"
proof -
  note w = file_writtenD [OF assms(1)] and v = file_writtenD [OF assms(2)]
  have d: "daddr s1 ip ` {..<file_blocks s ip} = daddr s ip ` {..<file_blocks s ip}" by (rule image_cong) (simp_all add: w)
  have b: "file_byte s2 ip j = (if a \<le> j \<and> j < a + length (cs @ ds) then (cs @ ds) ! (j - a) else file_byte s ip j)"
    if "j < file_size s ip" for j
    using v(4) [of j] w(4) [of j] that by (auto simp: w(8) nth_append)
  show ?thesis unfolding file_written_def
    using v(1) txn_frame_trans [OF w(2) v(2)] v(3) w(3) b v(5) w(5) by (auto simp: w(9) d)
qed

lemma file_written_none: "txn_ready s \<Longrightarrow> file_written s ip a [] s"
  by (auto simp: file_written_def txn_frame_def)

lemma kept_written:
  assumes "kept s s1" "file_written s1 ip a bs s2"
  shows "file_written s ip a bs s2"
  using assms(2) txn_frame_trans [OF same_disk_txn [OF keptD(4) [OF assms(1)]]] keptD(2) [OF assms(1)]
  unfolding file_written_def kept_file [OF assms(1)] by auto

text \<open>Changing bytes of one block of the file.\<close>

lemma blit_block:
  assumes "j div BSIZE = a div BSIZE" "length cs \<le> BSIZE - a mod BSIZE"
  shows "blit (a mod BSIZE) cs d (j mod BSIZE) = (if a \<le> j \<and> j < a + length cs then cs ! (j - a) else d (j mod BSIZE))"
proof -
  have "a = a div BSIZE * BSIZE + a mod BSIZE" "j = a div BSIZE * BSIZE + j mod BSIZE"
    using assms(1) by (metis div_mult_mod_eq)+
  then have "(a mod BSIZE \<le> j mod BSIZE \<and> j mod BSIZE < a mod BSIZE + length cs) = (a \<le> j \<and> j < a + length cs)"
    "j mod BSIZE - a mod BSIZE = j - a" by linarith+
  then show ?thesis by (simp only: blit_def)
qed

lemma block_written:
  assumes ok: "file_ok s ip" and bl: "a div BSIZE < file_blocks s ip" and len: "length cs \<le> BSIZE - a mod BSIZE"
    and r: "txn_ready s'" "txn_frame s s'"
    and v: "view s' = (view s)(daddr s ip (a div BSIZE) := blit (a mod BSIZE) cs (view s (daddr s ip (a div BSIZE))))"
  shows "file_written s ip a cs s'"
proof -
  have i: "icache s' = icache s" by (rule txn_fs_frame(1) [OF r(2)])
  have d: "daddr s' ip c = daddr s ip c" if "c < file_blocks s ip" for c
  proof (cases "c < NDIRECT")
    case False
    then have "daddr s ip (a div BSIZE) \<noteq> indirect s ip" using file_okD(8) [OF ok that _ bl] by simp
    then show ?thesis using False by (simp add: daddr_def indirect_def i v)
  qed (simp add: daddr_def i)
  have b: "file_byte s' ip j = (if a \<le> j \<and> j < a + length cs then cs ! (j - a) else file_byte s ip j)"
    if "j < file_size s ip" for j
  proof (cases "j div BSIZE = a div BSIZE")
    case True
    then show ?thesis
      using blit_block [OF True len, of "view s (daddr s ip (a div BSIZE))"] d [OF bl]
      by (simp only: file_byte_def True v fun_upd_same)
  next
    case False
    have "daddr s ip (j div BSIZE) \<noteq> daddr s ip (a div BSIZE)"
      using inj_onD [OF file_okD(6) [OF ok], of "j div BSIZE" "a div BSIZE"] False bl in_blocks [OF that] by auto
    moreover have "\<not> (a \<le> j \<and> j < a + length cs)"
      using False same_block(1) [of "j - a" a] len by (metis le_add_diff_inverse less_diff_conv2 add.commute order_less_le_trans)
    ultimately show ?thesis using d [OF in_blocks [OF that]] by (auto simp: file_byte_def v)
  qed
  show ?thesis unfolding file_written_def using r d b v bl by auto
qed

lemma block_write:
  assumes r: "txn_ready s" "file_ok s ip" "1 \<le> lg_outstanding s" and bl: "a div BSIZE < file_blocks s ip"
    and len: "length cs \<le> BSIZE - a mod BSIZE" and room: "lh_n s < lg_size s - 1"
  obtains b s1 s2 s3 where "bread 1 (daddr s ip (a div BSIZE)) s = Inr (b, s1)"
    "log_write b (upd_buf b (\<lambda>x. x\<lparr>b_data := blit (a mod BSIZE) cs (b_data x)\<rparr>) s1) = Inr s2" "brelse b s2 = Inr s3"
    "file_written s ip a cs s3" "lh_n s3 \<le> lh_n s + 1"
proof -
  let ?n = "daddr s ip (a div BSIZE)"
  have i: "log_inv s" "heldb s = {}" using r(1) by (simp_all add: txn_ready_iff)
  obtain b s1 s2 s3 where s: "bread 1 ?n s = Inr (b, s1)" "b_data (bufs s1 b) = view s ?n"
    "log_write b (upd_buf b (\<lambda>x. x\<lparr>b_data := blit (a mod BSIZE) cs (b_data x)\<rparr>) s1) = Inr s2" "brelse b s2 = Inr s3" "log_inv s3"
    "view s3 = (view s)(?n := blit (a mod BSIZE) cs (view s ?n))" "heldb s3 = heldb s" "dirtyb s3 = insert ?n (dirtyb s)" "txn_frame s s3"
    "lh_n s3 = (if ?n \<in> dirtyb s then lh_n s else lh_n s + 1)"
    by (rule log_update [OF i(1), of ?n "blit (a mod BSIZE) cs"])
      (use i(2) file_okD(5,9,10) [OF r(2) bl] room r(3) ready_spare [OF r(1)] in simp_all)
  have "txn_ready s3" using s(5,7) i(2) by (simp add: txn_ready_iff)
  then show ?thesis using that [OF s(1,3,4) block_written [OF r(2) bl len _ s(9,6)]] s(10) by simp
qed

text \<open>The number of blocks that \<open>r\<close> bytes from offset \<open>a\<close> on touch.\<close>

definition blocks_in :: "nat \<Rightarrow> nat \<Rightarrow> nat" where
  "blocks_in a r = (if r = 0 then 0 else (a + r - 1) div BSIZE - a div BSIZE + 1)"

lemma blocks_in_step:
  assumes "0 < r" "m = min r (BSIZE - a mod BSIZE)"
  shows "blocks_in a r = blocks_in (a + m) (r - m) + 1"
proof (cases "r \<le> BSIZE - a mod BSIZE")
  case True
  then have "(a + r - 1) div BSIZE = a div BSIZE" using same_block(1) [of "r - 1" a] assms(1) by simp
  then show ?thesis using True assms by (simp add: blocks_in_def)
next
  case False
  have m: "m = BSIZE - a mod BSIZE" using False assms(2) by simp
  have "a = a div BSIZE * BSIZE + a mod BSIZE" "a mod BSIZE < BSIZE" by (simp_all add: BSIZE_def)
  then have "a + m = a div BSIZE * BSIZE + BSIZE" using m by linarith
  then have am: "(a + m) div BSIZE = a div BSIZE + 1" by (simp add: BSIZE_def)
  have "(a + m) div BSIZE \<le> (a + r - 1) div BSIZE" using False m by (intro div_le_mono) simp
  moreover have "a + m + (r - m) - 1 = a + r - 1" using False m by simp
  ultimately show ?thesis using am False m assms(1) by (simp add: blocks_in_def)
qed

lemma write_loop_ok:
  assumes "txn_ready s" "file_ok s ip" "1 \<le> lg_outstanding s" "unat off + length src \<le> file_size s ip"
    "lh_n s + int (blocks_in (unat off) (length src)) < lg_size s"
  shows "\<exists>s'. write_loop ip src off (length src) s = Inr (off + of_nat (length src), s') \<and> file_written s ip (unat off) src s'"
  using assms
proof (induction "length src" arbitrary: src off s rule: less_induct)
  case less
  note r = less(2-6)
  show ?case
  proof (cases "src = []")
    case True
    then show ?thesis using file_written_none [OF r(1)] by (simp add: write_loop.simps)
  next
    case False
    define a where "a = unat off"
    define m where "m = min (length src) (BSIZE - a mod BSIZE)"
    have m: "0 < m" "m \<le> length src" "length (take m src) \<le> BSIZE - a mod BSIZE" using False by (auto simp: m_def BSIZE_def)
    have bs: "blocks_in a (length src) = blocks_in (a + m) (length src - m) + 1"
      by (rule blocks_in_step [OF _ m_def]) (use False in simp)
    have bn: "unat (off div of_nat BSIZE) = a div BSIZE" by (simp add: a_def BSIZE_def unat_div)
    have bl: "a div BSIZE < file_blocks s ip" using in_blocks [of a s ip] r(4) m(1,2) unfolding a_def by linarith
    obtain s1 where s1: "bmap ip (off div of_nat BSIZE) s = Inr (daddr s ip (a div BSIZE), s1)" "kept s s1"
      using bmap_ok [OF r(1,2), of "off div of_nat BSIZE"] bl unfolding bn by metis
    note k = keptD [OF s1(2)] and kf = kept_file [OF s1(2)]
    obtain b s2 s3 s4 where s: "bread 1 (daddr s1 ip (a div BSIZE)) s1 = Inr (b, s2)"
      "log_write b (upd_buf b (\<lambda>x. x\<lparr>b_data := blit (a mod BSIZE) (take m src) (b_data x)\<rparr>) s2) = Inr s3" "brelse b s3 = Inr s4"
      "file_written s1 ip a (take m src) s4" "lh_n s4 \<le> lh_n s1 + 1"
      by (rule block_write [OF k(1), of ip a "take m src"]) (use r k kf bl m(3) bs in \<open>simp_all add: a_def\<close>)
    have w: "file_written s ip a (take m src) s4" by (rule kept_written [OF s1(2) s(4)])
    note w4 = file_writtenD [OF w]
    have o: "unat (off + of_nat m) = a + m"
      unfolding a_def using off_add [of off m] m(2) r(4) file_size_max [OF r(2)] by simp
    have "\<exists>s'. write_loop ip (drop m src) (off + of_nat m) (length (drop m src)) s4
        = Inr (off + of_nat m + of_nat (length (drop m src)), s') \<and> file_written s4 ip (unat (off + of_nat m)) (drop m src) s'"
    proof (rule less(1))
      show "length (drop m src) < length src" using m by simp
      show "txn_ready s4" "file_ok s4 ip" "1 \<le> lg_outstanding s4" using w4 file_written_ok [OF w r(2)] r(3) by simp_all
      show "unat (off + of_nat m) + length (drop m src) \<le> file_size s4 ip" using o m(2) r(4) by (simp add: w4 a_def)
      show "lh_n s4 + int (blocks_in (unat (off + of_nat m)) (length (drop m src))) < lg_size s4"
        using bs r(5) s(5) by (simp add: o w4(13) k a_def)
    qed
    then obtain s5 where s5: "write_loop ip (drop m src) (off + of_nat m) (length src - m) s4 = Inr (off + of_nat (length src), s5)"
      "file_written s4 ip (a + m) (drop m src) s5" using m(2) by (auto simp: o of_nat_diff)
    have "file_written s ip a src s5" using file_written_trans [OF w, of "drop m src" s5] s5(2) m(2) by simp
    moreover have "write_loop ip src off (length src) s = Inr (off + of_nat (length src), s5)"
      using False s1(1) s(1-3) s5(1) file_okD(1) [OF r(2)] k(5) kf(1)
      by (subst write_loop.simps) (simp add: Let_def flip: a_def m_def)
    ultimately show ?thesis unfolding a_def by blast
  qed
qed

lemma file_written_bytes:
  assumes "file_written s ip a bs s'" "a + length bs \<le> file_size s ip"
  shows "file_bytes s' ip = take a (file_bytes s ip) @ bs @ drop (a + length bs) (file_bytes s ip)"
proof (rule nth_equalityI)
  note w = file_writtenD [OF assms(1)]
  show "length (file_bytes s' ip) = length (take a (file_bytes s ip) @ bs @ drop (a + length bs) (file_bytes s ip))"
    using assms(2) by (simp add: file_bytes_def w)
  fix j assume "j < length (file_bytes s' ip)"
  then have "j < file_size s ip" by (simp add: file_bytes_def w)
  then show "file_bytes s' ip ! j = (take a (file_bytes s ip) @ bs @ drop (a + length bs) (file_bytes s ip)) ! j"
    using assms(2) w(4) [of j] by (auto simp: file_bytes_def w nth_append)
qed

lemma writei_ok:
  assumes "txn_ready s" "file_ok s ip" "1 \<le> lg_outstanding s" "unat n = length src" "unat off + length src \<le> file_size s ip"
    "lh_n s + int (blocks_in (unat off) (length src)) < lg_size s"
  obtains s' where "writei D ip src off n s = Inr (int (length src), s')" "file_written s ip (unat off) src s'"
proof -
  obtain s' where s': "write_loop ip src off (length src) s = Inr (off + of_nat (length src), s')" "file_written s ip (unat off) src s'"
    using write_loop_ok [OF assms(1-3,5,6)] by blast
  have n: "n = of_nat (length src)" using assms(4) by (metis of_nat_unat ucast_id)
  have z: "file_size s ip \<le> 71680" by (rule file_size_max [OF assms(2)])
  have o: "unat (off + n) = unat off + length src" unfolding n using off_add [of off "length src"] assms(5) z by simp
  have g: "\<not> off > i_size (icache s ip)" "\<not> off + n < off" "\<not> off + n > of_nat (MAXFILE * BSIZE)" "\<not> off + n > i_size (icache s' ip)"
    using assms(5) o z file_writtenD(6) [OF s'(2)]
    by (simp_all add: word_less_nat_alt file_size_def MAXFILE_def NINDIRECT_def NDIRECT_def BSIZE_def)
  have "sint n = int (length src)" using sint_small [of n] assms(4,5) z by simp
  then have "writei D ip src off n s = Inr (int (length src), s')"
    using s'(1) g assms(4) file_okD(2) [OF assms(2)] by (simp add: writei_def Let_def flip: n)
  then show ?thesis using that s'(2) by blast
qed

section \<open>Directories\<close>

text \<open>The entries of a directory, 16 bytes each.\<close>

definition dir_ent :: "'a fsst_scheme \<Rightarrow> nat \<Rightarrow> nat \<Rightarrow> u8 list" where
  "dir_ent s dp k = take 16 (drop (16 * k) (file_bytes s dp))"

definition ent_off :: "nat \<Rightarrow> u32" where
  "ent_off k = of_nat (16 * k)"

definition dir_len :: "'a fsst_scheme \<Rightarrow> nat \<Rightarrow> nat" where
  "dir_len s dp = file_size s dp div 16"

definition dir_ok :: "'a fsst_scheme \<Rightarrow> nat \<Rightarrow> bool" where
  "dir_ok s dp \<longleftrightarrow> file_ok s dp \<and> i_type (icache s dp) = T_DIR \<and> file_size s dp mod 16 = 0"

definition de_is :: "bytes \<Rightarrow> u8 list \<Rightarrow> bool" where
  "de_is name de \<longleftrightarrow> de_inum de \<noteq> 0 \<and> namecmp name (de_name de) = 0"

lemma kept_dir: "kept s s' \<Longrightarrow> dir_ent s' = dir_ent s" "kept s s' \<Longrightarrow> dir_len s' = dir_len s" "kept s s' \<Longrightarrow> dir_ok s' = dir_ok s"
  by (simp_all add: dir_ent_def dir_len_def dir_ok_def kept_file keptD fun_eq_iff)

lemma dir_offset:
  assumes "dir_ok s dp" "k \<le> dir_len s dp"
  shows "unat (ent_off k) = 16 * k" "ent_off k < i_size (icache s dp) \<longleftrightarrow> k < dir_len s dp"
    "ent_off k < ent_off k + 16" "ent_off k + 16 = ent_off (Suc k)"
proof -
  have z: "file_size s dp = 16 * dir_len s dp" "file_size s dp \<le> 71680"
    using assms(1) file_size_max by (auto simp: dir_ok_def dir_len_def)
  show u: "unat (ent_off k) = 16 * k"
    unfolding ent_off_def using z assms(2) by (simp add: unsigned_of_nat take_bit_nat_eq_self del: of_nat_mult)
  show "ent_off k < i_size (icache s dp) \<longleftrightarrow> k < dir_len s dp"
    using z(1) unfolding word_less_nat_alt u by (simp add: file_size_def)
  have "unat (ent_off k + 16) = 16 * k + 16" using z assms(2) u by (simp add: unat_word_ariths)
  then show "ent_off k < ent_off k + 16" unfolding word_less_nat_alt u by simp
  show "ent_off k + 16 = ent_off (Suc k)" by (simp add: ent_off_def)
qed

lemma read_ent:
  assumes "txn_ready s" "dir_ok s dp" "k < dir_len s dp"
  obtains s' where "readi D dp (ent_off k) 16 s = Inr ((16, dir_ent s dp k), s')" "kept s s'"
proof -
  note o = dir_offset [OF assms(2) less_imp_le [OF assms(3)]]
  have ok: "file_ok s dp" using assms(2) by (simp add: dir_ok_def)
  have le: "ent_off k \<le> i_size (icache s dp)" using o(2) assms(3) by simp
  obtain s' where s': "readi D dp (ent_off k) 16 s = Inr ((int (length (dir_ent s dp k)), dir_ent s dp k), s')" "kept s s'"
    using readi_ok [OF assms(1) ok le less_imp_le [OF o(3)], of D] unfolding o(1) dir_ent_def by auto
  have "16 * k + 16 \<le> file_size s dp" using assms(3) by (simp add: dir_len_def)
  then have "length (dir_ent s dp k) = 16" by (simp add: dir_ent_def file_bytes_def)
  then show ?thesis using that s' by simp
qed

text \<open>The scan of a directory from entry \<open>k\<close> on, for \<^verbatim>\<open>dirlookup\<close> and for the free entry of \<^verbatim>\<open>dirlink\<close>.\<close>

lemma lookup_from_ok:
  assumes "txn_ready s" "dir_ok s dp" "k \<le> dir_len s dp"
  shows "\<exists>s'. kept s s' \<and> lookup_from D dp name (ent_off k) s =
     (case find (\<lambda>k. de_is name (dir_ent s dp k)) [k..<dir_len s dp] of
        None \<Rightarrow> Inr (None, s')
      | Some i \<Rightarrow> and_then (iget 1 (ucast (de_inum (dir_ent s dp i))) s') (\<lambda>(ip, t). Inr (Some (ent_off i, ip), t)))"
  using assms
proof (induction "dir_len s dp - k" arbitrary: k s)
  case 0
  then show ?case using dir_offset(2) [OF 0(3,4)] kept_refl [OF 0(2)] by (subst lookup_from.simps) auto
next
  case (Suc d)
  note o = dir_offset [OF Suc(4,5)]
  have k: "k < dir_len s dp" using Suc(2) by simp
  obtain s1 where s1: "readi D dp (ent_off k) 16 s = Inr ((16, dir_ent s dp k), s1)" "kept s s1"
    using read_ent [OF Suc(3,4) k] .
  note f = kept_dir [OF s1(2)] and kd = keptD [OF s1(2)]
  have dev: "i_dev (icache s1 dp) = 1" using Suc(4) file_okD(1) kd by (auto simp: dir_ok_def)
  have up: "[k..<dir_len s dp] = k # [Suc k..<dir_len s dp]" using k by (rule upt_conv_Cons)
  show ?case
  proof (cases "de_is name (dir_ent s dp k)")
    case True
    then have "lookup_from D dp name (ent_off k) s
        = and_then (iget 1 (ucast (de_inum (dir_ent s dp k))) s1) (\<lambda>(ip, t). Inr (Some (ent_off k, ip), t))"
      using s1(1) o(2) k dev by (subst lookup_from.simps) (simp add: de_is_def)
    then show ?thesis using True s1(2) unfolding up by auto
  next
    case False
    then have l: "lookup_from D dp name (ent_off k) s = lookup_from D dp name (ent_off (Suc k)) s1"
      using s1(1) o(2,3) k by (subst lookup_from.simps) (auto simp: de_is_def o(4))
    have "\<exists>s'. kept s1 s' \<and> lookup_from D dp name (ent_off (Suc k)) s1 =
       (case find (\<lambda>k. de_is name (dir_ent s1 dp k)) [Suc k..<dir_len s1 dp] of
          None \<Rightarrow> Inr (None, s')
        | Some i \<Rightarrow> and_then (iget 1 (ucast (de_inum (dir_ent s1 dp i))) s') (\<lambda>(ip, t). Inr (Some (ent_off i, ip), t)))"
      by (rule Suc(1)) (use Suc(2,4) k kd f in simp_all)
    then show ?thesis using False kept_trans [OF s1(2)] unfolding up l f by auto
  qed
qed

lemma free_slot_from_ok:
  assumes "txn_ready s" "dir_ok s dp" "k \<le> dir_len s dp"
  shows "\<exists>s'. kept s s' \<and> free_slot_from D dp (ent_off k) s =
     Inr (ent_off (case find (\<lambda>i. de_inum (dir_ent s dp i) = 0) [k..<dir_len s dp] of None \<Rightarrow> dir_len s dp | Some i \<Rightarrow> i), s')"
  using assms
proof (induction "dir_len s dp - k" arbitrary: k s)
  case 0
  then show ?case using dir_offset(2) [OF 0(3,4)] kept_refl [OF 0(2)] by (subst free_slot_from.simps) auto
next
  case (Suc d)
  note o = dir_offset [OF Suc(4,5)]
  have k: "k < dir_len s dp" using Suc(2) by simp
  obtain s1 where s1: "readi D dp (ent_off k) 16 s = Inr ((16, dir_ent s dp k), s1)" "kept s s1"
    using read_ent [OF Suc(3,4) k] .
  note f = kept_dir [OF s1(2)] and kd = keptD [OF s1(2)]
  have up: "[k..<dir_len s dp] = k # [Suc k..<dir_len s dp]" using k by (rule upt_conv_Cons)
  show ?case
  proof (cases "de_inum (dir_ent s dp k) = 0")
    case True
    then have "free_slot_from D dp (ent_off k) s = Inr (ent_off k, s1)"
      using s1(1) o(2) k by (subst free_slot_from.simps) simp
    then show ?thesis using True s1(2) unfolding up by auto
  next
    case False
    then have l: "free_slot_from D dp (ent_off k) s = free_slot_from D dp (ent_off (Suc k)) s1"
      using s1(1) o(2,3) k by (subst free_slot_from.simps) (auto simp: o(4))
    have "\<exists>s'. kept s1 s' \<and> free_slot_from D dp (ent_off (Suc k)) s1 =
       Inr (ent_off (case find (\<lambda>i. de_inum (dir_ent s1 dp i) = 0) [Suc k..<dir_len s1 dp] of None \<Rightarrow> dir_len s1 dp | Some i \<Rightarrow> i), s')"
      by (rule Suc(1)) (use Suc(2,4) k kd f in simp_all)
    then show ?thesis using False kept_trans [OF s1(2)] unfolding up l f by auto
  qed
qed

lemma dirlookup_ok:
  assumes "txn_ready s" "dir_ok s dp"
  obtains s' where "kept s s'" "dirlookup D dp name s =
     (case find (\<lambda>k. de_is name (dir_ent s dp k)) [0..<dir_len s dp] of
        None \<Rightarrow> Inr (None, s')
      | Some i \<Rightarrow> and_then (iget 1 (ucast (de_inum (dir_ent s dp i))) s') (\<lambda>(ip, t). Inr (Some (ent_off i, ip), t)))"
proof -
  have "i_type (icache s dp) = T_DIR" using assms(2) by (simp add: dir_ok_def)
  then have l: "dirlookup D dp name s = lookup_from D dp name (ent_off 0) s" by (simp add: dirlookup_def ent_off_def)
  show ?thesis using that lookup_from_ok [OF assms le0, of D name] unfolding l by blast
qed

text \<open>The entry that \<^verbatim>\<open>dirlink\<close> writes.\<close>

abbreviation new_ent :: "bytes \<Rightarrow> u32 \<Rightarrow> u8 list" where
  "new_ent name inum \<equiv> dirent (ucast inum) (strncpy (\<lambda>_. 0) name (int DIRSIZ))"

lemma length_new_ent [simp]: "length (dirent i n) = 16"
  by (simp add: dirent_def DIRSIZ_def)

lemma dirent_inum [simp]: "de_inum (dirent i n) = i"
  by (rule bit_eqI) (auto simp: de_inum_def dirent_def bytes_of_def get16_def bit_simps)

lemma dirent_name: "j < DIRSIZ \<Longrightarrow> de_name (dirent i n) j = n j"
  by (simp add: de_name_def dirent_def bytes_of_def DIRSIZ_def nth_append)

lemma new_ent_is: "(ucast inum :: u16) \<noteq> 0 \<Longrightarrow> de_is name (new_ent name inum)"
  by (auto simp: de_is_def namecmp_def strncmp_zero dirent_name strncpy_at)

lemma blocks_in_ent: "blocks_in (16 * k) 16 = 1"
proof -
  have "16 * k mod BSIZE = 16 * (k mod 32)" using mod_mult_mult1 [of 16 k 32] by (simp add: BSIZE_def)
  moreover have "k mod 32 < 32" by simp
  ultimately have "15 < BSIZE - 16 * k mod BSIZE" unfolding BSIZE_def by linarith
  then have "(16 * k + 15) div BSIZE = 16 * k div BSIZE" by (rule same_block)
  then show ?thesis by (simp add: blocks_in_def BSIZE_def)
qed

lemma dir_written:
  assumes "file_written s dp (16 * i) e s'" "length e = 16" "dir_ok s dp" "i < dir_len s dp"
  shows "dir_ok s' dp" "dir_len s' dp = dir_len s dp" "k < dir_len s dp \<Longrightarrow> dir_ent s' dp k = (if k = i then e else dir_ent s dp k)"
proof -
  note w = file_writtenD [OF assms(1)]
  have ok: "file_ok s dp" using assms(3) by (simp add: dir_ok_def)
  show "dir_ok s' dp" using file_written_ok [OF assms(1) ok] assms(3) by (simp add: dir_ok_def w)
  show "dir_len s' dp = dir_len s dp" by (simp add: dir_len_def w)
  assume k: "k < dir_len s dp"
  have l: "16 * k + 16 \<le> file_size s dp" "16 * i + 16 \<le> file_size s dp" using k assms(4) by (simp_all add: dir_len_def)
  show "dir_ent s' dp k = (if k = i then e else dir_ent s dp k)"
  proof (rule nth_equalityI)
    show "length (dir_ent s' dp k) = length (if k = i then e else dir_ent s dp k)"
      using l assms(2) by (simp add: dir_ent_def file_bytes_def w)
    fix j assume "j < length (dir_ent s' dp k)"
    then have j: "j < 16" by (simp add: dir_ent_def)
    then have "(16 * i \<le> 16 * k + j \<and> 16 * k + j < 16 * i + 16) = (k = i)" by presburger
    then show "dir_ent s' dp k ! j = (if k = i then e else dir_ent s dp k) ! j"
      using w(4) [of "16 * k + j"] l j assms(2) by (auto simp: dir_ent_def file_bytes_def w)
  qed
qed

lemma dirlink_ok:
  assumes r: "txn_ready s" "dir_ok s dp" "1 \<le> lg_outstanding s" "lh_n s + 1 < lg_size s"
    and new: "\<not> (\<exists>k < dir_len s dp. de_is name (dir_ent s dp k))"
    and free: "find (\<lambda>i. de_inum (dir_ent s dp i) = 0) [0..<dir_len s dp] = Some i"
  obtains s' where "dirlink D dp name inum s = Inr (0, s')" "file_written s dp (16 * i) (new_ent name inum) s'"
proof -
  have none: "find (\<lambda>k. de_is name (dir_ent s dp k)) [0..<dir_len s dp] = None" using new by (auto simp: find_None_iff)
  have i: "i < dir_len s dp" using free by (auto simp: find_Some_iff)
  obtain s1 where s1: "dirlookup D dp name s = Inr (None, s1)" "kept s s1"
    using dirlookup_ok [OF r(1,2), of D name] unfolding none by auto
  note k1 = keptD [OF s1(2)] and d1 = kept_dir [OF s1(2)]
  obtain s2 where s2: "free_slot_from D dp (ent_off 0) s1 = Inr (ent_off i, s2)" "kept s1 s2"
    using free_slot_from_ok [OF k1(1) _ le0, of dp D] r(2) free unfolding d1 by auto
  have k: "kept s s2" using s1(2) s2(2) by (rule kept_trans)
  note k2 = keptD [OF k] and f2 = kept_file [OF k] and d2 = kept_dir [OF k]
  have o: "unat (ent_off i) = 16 * i" by (rule dir_offset(1) [OF r(2) less_imp_le [OF i]])
  have z: "16 * i + 16 \<le> file_size s dp" using i by (simp add: dir_len_def)
  have ok: "file_ok s2 dp" using r(2) f2(6) by (simp add: dir_ok_def)
  obtain s3 where s3: "writei D dp (new_ent name inum) (ent_off i) 16 s2 = Inr (int (length (new_ent name inum)), s3)"
    "file_written s2 dp (unat (ent_off i)) (new_ent name inum) s3"
    by (rule writei_ok [OF k2(1) ok, of 16 "new_ent name inum" "ent_off i" D]) (use r k2 f2 o z in \<open>simp_all add: blocks_in_ent\<close>)
  have "dirlink D dp name inum s = Inr (0, s3)" using s1(1) s2(1) s3(1) by (simp add: dirlink_def ent_off_def)
  then show ?thesis using that kept_written [OF k s3(2)] unfolding o by blast
qed

section \<open>Inodes on the disk\<close>

lemma get16_put32: "i + 4 \<le> j \<or> j + 2 \<le> i \<Longrightarrow> get16 (put32 i w d) j = get16 d j"
  "i + 2 \<le> j \<or> j + 4 \<le> i \<Longrightarrow> get32 (put16 i v d) j = get32 d j"
  by (auto simp: get16_def get32_def put32_def put16_def)

lemma put_words:
  "get32 (fold (\<lambda>k. put32 (b + 4 * k) (f k)) [0..<n] d) (b + 4 * k) = (if k < n then f k else get32 d (b + 4 * k))"
  by (induction n) (auto simp: get32_put32_other less_Suc_eq)

lemma put_words_other:
  "j + 4 \<le> b \<or> b + 4 * n \<le> j \<Longrightarrow> get32 (fold (\<lambda>k. put32 (b + 4 * k) (f k)) [0..<n] d) j = get32 d j"
  "j + 2 \<le> b \<or> b + 4 * n \<le> j \<Longrightarrow> get16 (fold (\<lambda>k. put32 (b + 4 * k) (f k)) [0..<n] d) j = get16 d j"
  by (induction n) (auto simp: get32_put32_other get16_put32)

text \<open>The fields of an inode that are on the disk.\<close>

definition same_dinode :: "inode \<Rightarrow> inode \<Rightarrow> bool" where
  "same_dinode x y \<longleftrightarrow> i_type x = i_type y \<and> i_major x = i_major y \<and> i_minor x = i_minor y \<and> i_nlink x = i_nlink y
     \<and> i_size x = i_size y \<and> (\<forall>k \<le> NDIRECT. i_addrs x k = i_addrs y k)"

lemma get_put_dinode: "same_dinode (get_dinode i (put_dinode i x d) y) x"
  using put_words [of "i + 12" "i_addrs x" "NDIRECT + 1"]
  by (simp add: same_dinode_def get_dinode_def put_dinode_def put_words_other get16_put32 get16_put16_other get32_put32_other less_Suc_eq_le)

lemma get_put_dinode_other:
  assumes "i + 64 \<le> j \<or> j + 64 \<le> i"
  shows "get_dinode j (put_dinode i x d) y = get_dinode j d y"
proof -
  have a: "get16 (put_dinode i x d) (j + c) = get16 d (j + c)" "get32 (put_dinode i x d) (j + c) = get32 d (j + c)" if "c \<le> 60" for c
    using assms that
    by (auto simp: put_dinode_def NDIRECT_def put_words_other get16_put32 get16_put16_other get32_put32_other simp del: upt_Suc)
  have "get16 (put_dinode i x d) j = get16 d j" "get16 (put_dinode i x d) (Suc (Suc j)) = get16 d (Suc (Suc j))"
    using a(1) [of 0] a(1) [of 2] by simp_all
  moreover have "get32 (put_dinode i x d) (j + 12 + 4 * k) = get32 d (j + 12 + 4 * k)" if "k < 13" for k
    using a(2) [of "12 + 4 * k"] that by (simp add: add.assoc)
  ultimately show ?thesis using a [of 4] a [of 6] a [of 8] by (simp add: get_dinode_def NDIRECT_def cong: if_cong)
qed

text \<open>A change of the inode cache leaves the buffers and the log alone.\<close>

lemma upd_inode_frame [simp]:
  "bufs (upd_inode ip f s) = bufs s" "disk (upd_inode ip f s) = disk s" "disksize (upd_inode ip f s) = disksize s"
  "cur_pid (upd_inode ip f s) = cur_pid s" "sb (upd_inode ip f s) = sb s" "log_area (upd_inode ip f s) = log_area s"
  "icache (upd_inode ip f s) = (icache s)(ip := f (icache s ip))" "cache_ok (upd_inode ip f s) = cache_ok s"
  "holds (upd_inode ip f s) = holds s" "heldb (upd_inode ip f s) = heldb s" "dirtyb (upd_inode ip f s) = dirtyb s"
  "view (upd_inode ip f s) = view s"
  by (simp_all add: upd_inode_def log_area_def cache_ok_def mru_def slot_ok_def caches_def holds_def heldb_def dirtyb_def view_def fun_eq_iff
      split: option.split)

lemma upd_inode_ready [simp]: "txn_ready (upd_inode ip f s) = txn_ready s"
  by (simp add: txn_ready_def log_layout_def header_ok_def) (simp add: upd_inode_def)

lemma bread_same:
  assumes "txn_ready s" "n < disksize s" "bread 1 n s = Inr (b, s1)"
  shows "got s n b s1"
proof -
  have "cache_ok s" "heldb s = {}" using assms(1) unfolding txn_ready_def by blast+
  then show ?thesis
    using bread_ok [of s n] assms(2,3) ready_spare [OF assms(1)] by (metis Inr_inject Un_empty_right empty_iff prod.inject)
qed

lemma iupdate_ok:
  assumes r: "txn_ready s" "1 \<le> lg_outstanding s" "lh_n s + 1 < lg_size s" and dev: "i_dev (icache s ip) = 1"
    and n: "n = IBLOCK (i_inum (icache s ip)) (sb s)" "n < disksize s" "n \<notin> log_area s" "n \<noteq> 1"
  obtains s' where "iupdate ip s = Inr s'" "txn_ready s'" "txn_frame s s'"
    "view s' = (view s)(n := put_dinode (dip (i_inum (icache s ip))) (icache s ip) (view s n))"
proof -
  let ?g = "put_dinode (dip (i_inum (icache s ip))) (icache s ip)"
  have i: "log_inv s" "heldb s = {}" using r(1) by (simp_all add: txn_ready_iff)
  obtain b s1 s2 s3 where s: "bread 1 n s = Inr (b, s1)" "b_data (bufs s1 b) = view s n"
    "log_write b (upd_buf b (\<lambda>x. x\<lparr>b_data := ?g (b_data x)\<rparr>) s1) = Inr s2" "brelse b s2 = Inr s3" "log_inv s3"
    "view s3 = (view s)(n := ?g (view s n))" "heldb s3 = heldb s" "dirtyb s3 = insert n (dirtyb s)" "txn_frame s s3"
    "lh_n s3 = (if n \<in> dirtyb s then lh_n s else lh_n s + 1)"
    by (rule log_update [OF i(1), of n ?g]) (use i(2) n r ready_spare [OF r(1)] in simp_all)
  have "icache s1 = icache s" using bread_same [OF r(1) n(2) s(1)] fs_frame(1) by (auto simp: got_def)
  then have "iupdate ip s = Inr s3" using s(1,3,4) dev unfolding iupdate_def n(1) [symmetric] by (simp add: Let_def)
  moreover have "txn_ready s3" using s(5,7) i(2) by (simp add: txn_ready_iff)
  ultimately show ?thesis using that s(6,9) by blast
qed

text \<open>Locking an inode that is not in memory yet reads it from the disk.\<close>

lemma ilock_reads:
  assumes r: "txn_ready s" and x: "i_ref (icache s k) \<ge> 1" "\<not> sl_locked (i_lock (icache s k))" "\<not> i_valid (icache s k)" "i_dev (icache s k) = 1"
    and n: "n = IBLOCK (i_inum (icache s k)) (sb s)" "n < disksize s"
    and ty: "get16 (view s n) (dip (i_inum (icache s k))) \<noteq> 0"
  obtains s' where "ilock k s = Inr s'" "txn_ready s'" "view s' = view s" "i_valid (icache s' k)"
    "icache s' k = (get_dinode (dip (i_inum (icache s k))) (view s n) (icache s k))
       \<lparr>i_lock := \<lparr>sl_locked = True, sl_pid = cur_pid s\<rparr>, i_valid := True\<rparr>"
    "\<And>j. j \<noteq> k \<Longrightarrow> icache s' j = icache s j"
proof -
  let ?lk = "\<lparr>sl_locked = True, sl_pid = cur_pid s\<rparr>"
  define u where "u = upd_inode k (\<lambda>x. x\<lparr>i_lock := ?lk\<rparr>) s"
  have u: "txn_ready u" "n < disksize u" "view u = view s" "icache u = (icache s)(k := (icache s k)\<lparr>i_lock := ?lk\<rparr>)" "sb u = sb s"
    using r n(2) by (simp_all add: u_def)
  obtain b u1 where u1: "bread 1 n u = Inr (b, u1)" "got u n b u1"
    using read_block [OF u(1,2)] bread_same [OF u(1,2)] by metis
  then have g: "cache_ok u1" "holds u1 b n" "b_data (bufs u1 b) = view u n" "view u1 = view u" "heldb u1 = insert n (heldb u)"
    "dirtyb u1 = dirtyb u" "same_disk u u1" "b_dirty (bufs u1 b) \<or> view u1 n = disk u1 n"
    by (simp_all add: got_def same_disk_def)
  define v where "v = upd_inode k (get_dinode (dip (i_inum (icache s k))) (view s n)) u1"
  have v: "cache_ok v" "holds v b n" "b_dirty (bufs v b) \<or> view v n = disk v n" using g by (simp_all add: v_def)
  obtain w where w: "brelse b v = Inr w" "cache_ok w" "view w = view v" "heldb w = heldb v - {n}" "dirtyb w = dirtyb v" "same_disk v w"
    using brelse_ok [OF v] by metis
  note fw = fs_frame [OF w(6)] and fu = fs_frame [OF g(7)]
  define t where "t = upd_inode k (\<lambda>x. x\<lparr>i_valid := True\<rparr>) w"
  have "heldb u = {}" using u(1) by (simp add: txn_ready_iff)
  moreover have "log_inv (upd_inode k (get_dinode (dip (i_inum (icache s k))) (view s n)) u)"
    using u(1) by (metis txn_ready_iff upd_inode_ready)
  moreover have "same_disk (upd_inode k (get_dinode (dip (i_inum (icache s k))) (view s n)) u) w"
    using w(6) g(7) by (simp add: same_disk_def v_def upd_inode_def) (cases u; cases u1; simp)
  ultimately have "txn_ready w"
    using w g log_inv_cong [of w "upd_inode k (get_dinode (dip (i_inum (icache s k))) (view s n)) u"]
    by (simp add: txn_ready_iff v_def)
  then have rt: "txn_ready t" "view t = view s" using w g u by (simp_all add: t_def v_def)
  have it: "icache t = (icache s)(k := (get_dinode (dip (i_inum (icache s k))) (view s n) (icache s k))\<lparr>i_lock := ?lk, i_valid := True\<rparr>)"
    by (simp add: t_def fw v_def fu u get_dinode_def fun_eq_iff)
  then have ty': "i_type (icache t k) \<noteq> 0" using ty by (simp add: get_dinode_def)
  have "ilock k s = Inr t"
    using x u1(1) [unfolded n(1)] w(1) [unfolded v_def n(1)] ty' [unfolded t_def] g(3) [unfolded n(1)] u(3-5) fu unfolding ilock_def
    by (simp add: acquiresleep_def Let_def t_def flip: u_def)
  then show ?thesis using that rt it by simp
qed

lemma dip_apart: "dip i \<noteq> dip j \<Longrightarrow> dip i + 64 \<le> dip j \<or> dip j + 64 \<le> dip i"
  unfolding dip_def by (cases "unat (i mod IPB) < unat (j mod IPB)") simp_all

end
