(* ===== verification/FsSpec.thy ===== *)
theory FsSpec
  imports FsInv
begin

text \<open>
  The properties of the file system, with a small file system on which they are exercised: the
  disk of theory \<open>LogSpec\<close> with a file of 1000 bytes in the blocks 100 and 101 and a directory of
  four free entries in block 110, whose inodes are in memory.
\<close>

section \<open>A file system\<close>

definition demo_inode :: inode where
  "demo_inode = \<lparr>i_dev = 1, i_inum = 5, i_ref = 1, i_lock = \<lparr>sl_locked = False, sl_pid = 0\<rparr>, i_valid = True, i_type = T_FILE,
     i_major = 0, i_minor = 0, i_nlink = 1, i_size = 1000, i_addrs = (\<lambda>k. 100 + of_nat k)\<rparr>"

definition demo_dir :: inode where
  "demo_dir = \<lparr>i_dev = 1, i_inum = 6, i_ref = 1, i_lock = \<lparr>sl_locked = False, sl_pid = 0\<rparr>, i_valid = True, i_type = T_DIR,
     i_major = 0, i_minor = 0, i_nlink = 1, i_size = 64, i_addrs = (\<lambda>k. 110 + of_nat k)\<rparr>"

definition demo_fs :: fsst where
  "demo_fs = logst.extend (power_on ()) (fsst.fields (sb_of demo_super) (\<lambda>i. if i = 1 then demo_dir else demo_inode) 0)"

definition no_devices :: "fsst devops" where
  "no_devices = \<lparr>dev_read = (\<lambda>_. None), dev_write = (\<lambda>_. None)\<rparr>"

text \<open>The file system after it has started, inside an operation.\<close>

definition demo_ready :: "fsst \<Rightarrow> bool" where
  "demo_ready r \<longleftrightarrow> initlog 1 (binit demo_fs) = Inr (r\<lparr>lg_outstanding := 0\<rparr>) \<and> txn_ready r \<and> lg_outstanding r = 1
     \<and> file_ok r 0 \<and> dir_ok r 1 \<and> file_size r 0 = 1000 \<and> lh_n r = 0 \<and> lg_size r = 30 \<and> disksize r = 200 \<and> sb r = sb_of demo_super
     \<and> log_area r = {n. 2 \<le> unat n \<and> unat n < 32} \<and> icache r = (\<lambda>i. if i = 1 then demo_dir else demo_inode)
     \<and> (\<forall>n. n \<notin> log_area r \<longrightarrow> view r n = demo_disk n)"

lemma started_fs: "\<exists>r. demo_ready r"
proof -
  let ?x = "fsst.fields (sb_of demo_super) (\<lambda>i. if i = 1 then demo_dir else demo_inode) 0"
  have d: "demo_fs = power_on ?x" by (simp add: demo_fs_def power_on_def logst.extend_def)
  obtain q where q: "initlog 1 (binit (power_on ?x)) = Inr q" "log_inv q" "heldb q = {}" "dirtyb q = {}" "lh_n q = 0"
    "lg_outstanding q = 0" "\<not> lg_committing q" "logst.more q = ?x" "disksize q = 200" "lg_start q = 2" "lg_size q = 30"
    "log_area q = {n. 2 \<le> unat n \<and> unat n < 32}" "\<forall>n. n \<notin> log_area q \<longrightarrow> disk q n = demo_disk n"
    using started [of ?x] .
  let ?r = "q\<lparr>lg_outstanding := 1\<rparr>"
  have i: "icache q = (\<lambda>i. if i = 1 then demo_dir else demo_inode)" "sb q = sb_of demo_super"
    using q(8) by (cases q, simp add: fsst.fields_def)+
  have z: "file_size ?r 0 = 1000" "file_blocks ?r 0 = 2" "file_size ?r 1 = 64" "file_blocks ?r 1 = 1"
    by (simp_all add: file_blocks_def file_size_def i demo_inode_def demo_dir_def BSIZE_def)
  have a: "daddr ?r 0 bn = 100 + of_nat bn" "daddr ?r 1 bn = 110 + of_nat bn" if "bn < 2" for bn
    using that by (simp_all add: daddr_def i demo_inode_def demo_dir_def NDIRECT_def)
  have two: "{..<2 :: nat} = {0, 1}" by auto
  have f: "file_ok ?r 0"
    using a unfolding file_ok_def z
    by (simp add: i demo_inode_def T_DEV_def T_FILE_def MAXFILE_def NDIRECT_def NINDIRECT_def BSIZE_def q two less_2_cases_iff)
  have g: "dir_ok ?r 1"
    using a(2) unfolding dir_ok_def file_ok_def z
    by (simp add: i demo_dir_def T_DEV_def T_DIR_def MAXFILE_def NDIRECT_def NINDIRECT_def BSIZE_def q lessThan_Suc)
  have ready: "txn_ready ?r" using q by (simp add: txn_ready_iff)
  have "view ?r n = demo_disk n" if "n \<notin> log_area q" for n
    using that q view_clean [of ?r n] ready by (simp add: txn_ready_def)
  moreover have "q = ?r\<lparr>lg_outstanding := 0\<rparr>" using q(6) by (cases q) simp
  ultimately have "demo_ready ?r" unfolding demo_ready_def d using q f g i z ready by simp
  then show ?thesis ..
qed

lemma demo_readyD:
  assumes "demo_ready r"
  shows "initlog 1 (binit demo_fs) = Inr (r\<lparr>lg_outstanding := 0\<rparr>)" "txn_ready r" "lg_outstanding r = 1" "file_ok r 0" "dir_ok r 1"
    "file_size r 0 = 1000" "lh_n r = 0" "lg_size r = 30" "disksize r = 200" "sb r = sb_of demo_super"
    "log_area r = {n. 2 \<le> unat n \<and> unat n < 32}" "icache r = (\<lambda>i. if i = 1 then demo_dir else demo_inode)"
    "n \<notin> log_area r \<Longrightarrow> view r n = demo_disk n"
  using assms unfolding demo_ready_def by blast+

lemma demo_ent:
  assumes "demo_ready r"
  shows "dir_len r 1 = 4" "k < 4 \<Longrightarrow> dir_ent r 1 k = replicate 16 0"
proof -
  note d = demo_readyD [OF assms]
  have v: "view r 110 = (\<lambda>_. 0)" using d(13) [of 110] by (simp add: d(11) demo_disk_def)
  have z: "file_size r 1 = 64" by (simp add: file_size_def d demo_dir_def)
  then show "dir_len r 1 = 4" by (simp add: dir_len_def)
  have "file_byte r 1 j = 0" if "j < 64" for j
    using that v by (simp add: file_byte_def daddr_def d demo_dir_def BSIZE_def NDIRECT_def)
  then have "file_bytes r 1 = replicate 64 0" unfolding file_bytes_def z by (intro nth_equalityI) simp_all
  then show "k < 4 \<Longrightarrow> dir_ent r 1 k = replicate 16 0" by (simp add: dir_ent_def)
qed

section \<open>Properties\<close>

text \<open>C36: \<^const>\<open>readi\<close> delivers the bytes of the file: for every offset and length it returns -1 exactly when the
  offset lies behind the end of the file or the end of the range wraps around, and otherwise the bytes from the
  offset on, cut at the end of the file, whatever direct and indirect blocks they lie in and whatever of them is
  cached; it changes no block and no inode.\<close>
theorem readi_reads:
  assumes "txn_ready s" "file_ok s ip"
  shows "if off > i_size (icache s ip) \<or> off + n < off then readi D ip off n s = Inr ((- 1, []), s)
         else \<exists>s'. readi D ip off n s =
                Inr ((int (length (take (unat n) (drop (unat off) (file_bytes s ip)))), take (unat n) (drop (unat off) (file_bytes s ip))), s')
              \<and> txn_ready s' \<and> view s' = view s \<and> icache s' = icache s"
proof (cases "off > i_size (icache s ip) \<or> off + n < off")
  case True
  then show ?thesis using file_okD(2) [OF assms(2)] by (simp add: readi_def)
next
  case False
  then have g: "off \<le> i_size (icache s ip)" "off \<le> off + n" by (simp_all add: linorder_not_less)
  obtain s' where s': "readi D ip off n s = Inr ((int (length (take (unat n) (drop (unat off) (file_bytes s ip)))),
      take (unat n) (drop (unat off) (file_bytes s ip))), s')" "kept s s'"
    using readi_ok [OF assms g, of D] .
  then show ?thesis using keptD(1,2,5) [OF s'(2)] False by auto
qed

theorem readi_reads_witness:
  "\<exists>(r :: fsst) s'. initlog 1 (binit demo_fs) = Inr (r\<lparr>lg_outstanding := 0\<rparr>) \<and> readi no_devices 0 1001 1 r = Inr ((- 1, []), r)
     \<and> readi no_devices 0 500 16 r = Inr ((16, take 16 (drop 500 (file_bytes r 0))), s')"
proof -
  obtain r where "demo_ready r" using started_fs ..
  note r = demo_readyD [OF this]
  have "readi no_devices 0 1001 1 r = Inr ((- 1, []), r)"
    using readi_reads [OF r(2,4), of 1001 1 no_devices] by (simp add: r(12) demo_inode_def)
  moreover have "length (file_bytes r 0) = 1000" by (simp add: file_bytes_def r)
  ultimately show ?thesis using readi_reads [OF r(2,4), of 500 16 no_devices] r(1) by (auto simp: r(12) demo_inode_def)
qed

text \<open>C35: Reading after writing: writing \<open>src\<close> into the blocks of a file, anywhere inside it and across block
  boundaries, succeeds while the log has room for the blocks touched; reading the same range then gives \<open>src\<close>.
  The rest of the file is as before, and so is every block that does not belong to the file.\<close>
theorem write_then_read:
  assumes "txn_ready s" "file_ok s ip" "1 \<le> lg_outstanding s" "unat n = length src" "unat off + length src \<le> file_size s ip"
    "lh_n s + int (blocks_in (unat off) (length src)) < lg_size s"
  shows "\<exists>s' s''. writei D ip src off n s = Inr (int (length src), s') \<and> readi D ip off n s' = Inr ((int (length src), src), s'')
     \<and> file_bytes s' ip = take (unat off) (file_bytes s ip) @ src @ drop (unat off + length src) (file_bytes s ip)
     \<and> (\<forall>m. m \<notin> daddr s ip ` {..<file_blocks s ip} \<longrightarrow> view s' m = view s m)"
proof -
  obtain s' where s': "writei D ip src off n s = Inr (int (length src), s')" "file_written s ip (unat off) src s'"
    using writei_ok [OF assms, of D] .
  note w = file_writtenD [OF s'(2)]
  have b: "file_bytes s' ip = take (unat off) (file_bytes s ip) @ src @ drop (unat off + length src) (file_bytes s ip)"
    by (rule file_written_bytes [OF s'(2) assms(5)])
  have l: "length (file_bytes s ip) = file_size s ip" by (simp add: file_bytes_def)
  have le: "off \<le> i_size (icache s' ip)" using assms(5) by (simp add: w file_size_def word_le_nat_alt)
  have n: "n = of_nat (length src)" using assms(4) by (metis of_nat_unat ucast_id)
  have nw: "off \<le> off + n" unfolding n using off_add [of off "length src"] assms(5) file_size_max [OF assms(2)] by (simp add: word_le_nat_alt)
  have src: "take (unat n) (drop (unat off) (file_bytes s' ip)) = src" using assms(4,5) l unfolding b by simp
  obtain s'' where "readi D ip off n s' = Inr ((int (length src), src), s'')"
    using readi_ok [OF w(1) file_written_ok [OF s'(2) assms(2)] le nw, of D] unfolding src by blast
  then show ?thesis using s'(1) b w(5) by blast
qed

theorem write_then_read_witness:
  "\<exists>(r :: fsst) s' s''. initlog 1 (binit demo_fs) = Inr (r\<lparr>lg_outstanding := 0\<rparr>)
     \<and> writei no_devices 0 [1, 2, 3] 511 3 r = Inr (3, s') \<and> readi no_devices 0 511 3 s' = Inr ((3, [1, 2, 3]), s'')"
proof -
  obtain r where "demo_ready r" using started_fs ..
  note r = demo_readyD [OF this]
  have "\<exists>s' s''. writei no_devices 0 [1, 2, 3] 511 3 r = Inr (3, s') \<and> readi no_devices 0 511 3 s' = Inr ((3, [1, 2, 3]), s'')"
    using write_then_read [OF r(2,4), of 3 "[1, 2, 3]" 511 no_devices] by (auto simp: r(3,6-8) blocks_in_def BSIZE_def)
  then show ?thesis using r(1) by blast
qed

text \<open>C37: After \<^const>\<open>dirlink\<close> of a name that was not in the directory \<^const>\<open>dirlookup\<close> finds the new entry with
  its inode number. \<^const>\<open>dirlink\<close> takes the first free entry and leaves all others as they are.\<close>
theorem link_then_lookup:
  assumes "txn_ready s" "dir_ok s dp" "1 \<le> lg_outstanding s" "lh_n s + 1 < lg_size s"
    "\<not> (\<exists>k < dir_len s dp. de_is name (dir_ent s dp k))" "find (\<lambda>i. de_inum (dir_ent s dp i) = 0) [0..<dir_len s dp] = Some i"
    "inum \<noteq> 0" "inum < 0x10000"
  shows "\<exists>s' s''. dirlink D dp name inum s = Inr (0, s') \<and> view s'' = view s' \<and> icache s'' = icache s
     \<and> (\<forall>k < dir_len s dp. dir_ent s' dp k = (if k = i then dirent (ucast inum) (strncpy (\<lambda>_. 0) name (int DIRSIZ)) else dir_ent s dp k))
     \<and> dirlookup D dp name s' = and_then (iget 1 inum s'') (\<lambda>(ip, t). Inr (Some (of_nat (16 * i), ip), t))"
proof -
  obtain s' where s': "dirlink D dp name inum s = Inr (0, s')" "file_written s dp (16 * i) (new_ent name inum) s'"
    using dirlink_ok [OF assms(1-6), of D inum] .
  have i: "i < dir_len s dp" using assms(6) by (auto simp: find_Some_iff)
  note d = dir_written [OF s'(2) length_new_ent assms(2) i] and w = file_writtenD [OF s'(2)]
  have u: "unat inum < 2 ^ 16" using assms(8) by (simp add: word_less_nat_alt)
  have c: "ucast (ucast inum :: u16) = inum"
    by (rule word_unat_eq_iff [THEN iffD2]) (use u in \<open>simp add: unsigned_ucast_eq unsigned_take_bit_eq take_bit_nat_eq_self\<close>)
  have "(ucast inum :: u16) \<noteq> 0" using c assms(7) by (metis ucast_0)
  then have ne: "de_is name (new_ent name inum)" by (rule new_ent_is)
  have "find (\<lambda>k. de_is name (dir_ent s' dp k)) [0..<dir_len s dp] = Some i"
    unfolding find_Some_iff using i ne assms(5) d(3) by (intro exI [of _ i]) auto
  then obtain s'' where s'': "kept s' s''"
    "dirlookup D dp name s' = and_then (iget 1 inum s'') (\<lambda>(ip, t). Inr (Some (ent_off i, ip), t))"
    using dirlookup_ok [OF w(1) d(1), of D name] d(3) [OF i] c unfolding d(2) by auto
  have "view s'' = view s'" "icache s'' = icache s" using keptD(2,5) [OF s''(1)] w(6) by simp_all
  then show ?thesis using s'(1) d(3) s''(2) unfolding ent_off_def by blast
qed

theorem link_then_lookup_witness:
  "\<exists>(r :: fsst) s' s''. initlog 1 (binit demo_fs) = Inr (r\<lparr>lg_outstanding := 0\<rparr>)
     \<and> dirlink no_devices 1 (bytes_of [97]) 7 r = Inr (0, s') \<and> icache s'' = icache r
     \<and> dirlookup no_devices 1 (bytes_of [97]) s' = and_then (iget 1 7 s'') (\<lambda>(ip, t). Inr (Some (0, ip), t))"
proof -
  obtain r where d: "demo_ready r" using started_fs ..
  note r = demo_readyD [OF d] and e = demo_ent [OF d]
  have z: "de_inum (replicate 16 0) = 0" by (simp add: de_inum_def bytes_of_def get16_def)
  have n: "\<not> (\<exists>k < dir_len r 1. de_is (bytes_of [97]) (dir_ent r 1 k))" using e z by (auto simp: de_is_def)
  have f: "find (\<lambda>i. de_inum (dir_ent r 1 i) = 0) [0..<dir_len r 1] = Some 0"
    using e z by (simp add: find_Some_iff) (intro exI [of _ 0], simp)
  show ?thesis using link_then_lookup [OF r(2,5) _ _ n f, of 7 no_devices] r(1) by (simp add: r(3,7,8)) blast
qed

text \<open>C38: What \<^const>\<open>iupdate\<close> stores is what \<^const>\<open>ilock\<close> loads: an inode that was written, dropped from the cache
  and fetched again into any free slot has the type, the device numbers, the link count, the size and the addresses
  it had. No other block changes, nor any other inode in the same block.\<close>
theorem inode_survives:
  assumes "txn_ready s" "1 \<le> lg_outstanding s" "lh_n s + 1 < lg_size s" "i_dev (icache s ip) = 1" "i_type (icache s ip) \<noteq> 0"
    "IBLOCK (i_inum (icache s ip)) (sb s) < disksize s" "IBLOCK (i_inum (icache s ip)) (sb s) \<notin> log_area s"
    "IBLOCK (i_inum (icache s ip)) (sb s) \<noteq> 1"
    "i_dev y = 1" "i_inum y = i_inum (icache s ip)" "i_ref y \<ge> 1" "\<not> i_valid y" "\<not> sl_locked (i_lock y)"
  shows "\<exists>s' s''. iupdate ip s = Inr s' \<and> ilock k (upd_inode k (\<lambda>_. y) s') = Inr s'' \<and> same_dinode (icache s'' k) (icache s ip)
     \<and> (\<forall>m. m \<noteq> IBLOCK (i_inum (icache s ip)) (sb s) \<longrightarrow> view s' m = view s m)
     \<and> (\<forall>j x. dip j \<noteq> dip (i_inum (icache s ip)) \<longrightarrow>
          get_dinode (dip j) (view s' (IBLOCK (i_inum (icache s ip)) (sb s))) x = get_dinode (dip j) (view s (IBLOCK (i_inum (icache s ip)) (sb s))) x)"
proof -
  let ?n = "IBLOCK (i_inum (icache s ip)) (sb s)" and ?i = "dip (i_inum (icache s ip))"
  obtain s' where s': "iupdate ip s = Inr s'" "txn_ready s'" "txn_frame s s'"
    "view s' = (view s)(?n := put_dinode ?i (icache s ip) (view s ?n))"
    using iupdate_ok [OF assms(1-4) refl assms(6-8)] .
  note f = txn_fs_frame [OF s'(3)]
  let ?t = "upd_inode k (\<lambda>_. y) s'"
  have v: "view ?t ?n = put_dinode ?i (icache s ip) (view s ?n)" using s'(4) by simp
  have g: "same_dinode (get_dinode ?i (view ?t ?n) x) (icache s ip)" for x unfolding v by (rule get_put_dinode)
  then have ty: "get16 (view ?t ?n) ?i \<noteq> 0" using assms(5) by (simp add: same_dinode_def get_dinode_def)
  have dz: "disksize s' = disksize s" using s'(3) by (simp add: txn_frame_def)
  obtain s'' where "ilock k ?t = Inr s''" "icache s'' k = (get_dinode ?i (view ?t ?n) y)\<lparr>i_lock := \<lparr>sl_locked = True, sl_pid = cur_pid ?t\<rparr>, i_valid := True\<rparr>"
    by (rule ilock_reads [of ?t k ?n]) (use s'(2) assms(6,9-13) ty f dz in simp_all)
  moreover from this g [of y] have "same_dinode (icache s'' k) (icache s ip)" by (simp add: same_dinode_def)
  moreover have "get_dinode (dip j) (view s' ?n) x = get_dinode (dip j) (view s ?n) x" if "dip j \<noteq> ?i" for j x
    using get_put_dinode_other [OF dip_apart [OF not_sym [OF that]]] by (simp add: s'(4))
  ultimately show ?thesis using s'(1,4) by auto
qed

theorem inode_survives_witness:
  "\<exists>(r :: fsst) s' s''. initlog 1 (binit demo_fs) = Inr (r\<lparr>lg_outstanding := 0\<rparr>) \<and> iupdate 0 r = Inr s'
     \<and> ilock 9 (upd_inode 9 (\<lambda>_. demo_inode\<lparr>i_valid := False, i_size := 0, i_addrs := (\<lambda>_. 0)\<rparr>) s') = Inr s'' \<and> i_size (icache s'' 9) = 1000"
proof -
  obtain r where "demo_ready r" using started_fs ..
  note r = demo_readyD [OF this]
  have n: "IBLOCK (i_inum (icache r 0)) (sb r) = 32" by (simp add: r demo_super_fields demo_inode_def IBLOCK_def IPB_def)
  have "\<exists>s' s''. iupdate 0 r = Inr s' \<and> ilock 9 (upd_inode 9 (\<lambda>_. demo_inode\<lparr>i_valid := False, i_size := 0, i_addrs := (\<lambda>_. 0)\<rparr>) s') = Inr s''
      \<and> same_dinode (icache s'' 9) (icache r 0)"
    using inode_survives [OF r(2), of 0 "demo_inode\<lparr>i_valid := False, i_size := 0, i_addrs := (\<lambda>_. 0)\<rparr>" 9] n
    by (auto simp: r demo_inode_def T_FILE_def)
  then show ?thesis using r(1) by (auto simp: same_dinode_def r(12) demo_inode_def)
qed

end
