(* ===== verification/Ring.thy ===== *)
theory Ring
  imports Prelude
begin

text \<open>
  Ring buffers indexed by counters that only grow and wrap around at \<open>2 ^ 32\<close>, as the pipe and
  the console input have them, and the contract both provide: a bounded first-in first-out
  stream of bytes.
\<close>

section \<open>Rings\<close>

text \<open>The bytes between the counters \<open>r\<close> and \<open>w\<close>, oldest first.\<close>

definition ring_list :: "nat \<Rightarrow> (nat \<Rightarrow> u8) \<Rightarrow> u32 \<Rightarrow> u32 \<Rightarrow> u8 list" where
  "ring_list sz d r w = map (\<lambda>k. d ((unat r + k) mod sz)) [0..<unat (w - r)]"

lemma length_ring_list [simp]: "length (ring_list sz d r w) = unat (w - r)"
  by (simp add: ring_list_def)

lemma ring_list_empty [simp]: "ring_list sz d r r = []"
  by (simp add: ring_list_def)

lemma unat_mod_dvd:
  assumes "sz dvd 2 ^ 32"
  shows "unat (r + x :: u32) mod sz = (unat r + unat x) mod sz"
proof -
  have "unat (r + x) = (unat r + unat x) mod 2 ^ 32" by (simp add: unat_word_ariths)
  then show ?thesis using assms by (simp add: mod_mod_cancel)
qed

lemma ring_index: "sz dvd 2 ^ 32 \<Longrightarrow> unat w mod sz = (unat r + unat (w - r)) mod sz" for r w :: u32
  using unat_mod_dvd [of sz r "w - r"] by simp

lemma unat_suc: "unat x < 2 ^ 32 - 1 \<Longrightarrow> unat (x + 1) = unat x + 1" for x :: u32
  by (simp add: unat_word_ariths)

lemma unat_suc_diff: "unat (w - r) < 2 ^ 32 - 1 \<Longrightarrow> unat (w + 1 - r) = unat (w - r) + 1" for r w :: u32
  using unat_suc [of "w - r"] by (simp only: diff_add_eq)

lemma unat_pred: "x \<noteq> 0 \<Longrightarrow> unat x = unat (x - 1) + 1" for x :: u32
  by (metis Suc_pred' add.commute plus_1_eq_Suc unat_gt_0 unat_minus_one)

lemma unat_diff_suc: "r \<noteq> w \<Longrightarrow> unat (w - r) = unat (w - (r + 1)) + 1" for r w :: u32
  using unat_pred [of "w - r"] by (simp only: diff_diff_eq right_minus_eq)

lemma ring_full:
  fixes r w :: u32
  assumes "n < 2 ^ 32"
  shows "w = r + of_nat n \<longleftrightarrow> unat (w - r) = n"
proof -
  have "w = r + of_nat n \<longleftrightarrow> w - r = of_nat n" by (metis add_diff_cancel_left' diff_add_cancel add.commute)
  also have "\<dots> \<longleftrightarrow> unat (w - r) = n" using assms by (simp add: word_unat_eq_iff unsigned_of_nat take_bit_nat_eq_self)
  finally show ?thesis .
qed

lemma mod_shift_inj:
  assumes "(a + k) mod n = (a + l) mod n" "k < n" "l < n"
  shows "k = (l :: nat)"
proof -
  have "k = l" if "(a + k) mod n = (a + l) mod n" "k < n" "l < n" "k \<le> l" for k l
  proof -
    have "n dvd (a + l) - (a + k)" using that(1,4) mod_eq_dvd_iff_nat [of "a + k" "a + l" n] by simp
    then show ?thesis using that(2,3,4) by (auto dest: dvd_imp_le)
  qed
  from this [of k l] this [of l k] assms show ?thesis by (cases "k \<le> l") simp_all
qed

lemma ring_put:
  assumes "sz dvd 2 ^ 32" "sz < 2 ^ 32" "unat (w - r) < sz"
  shows "ring_list sz (d(unat w mod sz := c)) r (w + 1) = ring_list sz d r w @ [c]"
proof -
  have n: "unat (w + 1 - r) = unat (w - r) + 1" by (rule unat_suc_diff) (use assms in simp)
  have i: "unat w mod sz = (unat r + unat (w - r)) mod sz" by (rule ring_index [OF assms(1)])
  have "(unat r + k) mod sz \<noteq> unat w mod sz" if "k < unat (w - r)" for k
    using mod_shift_inj [of "unat r" k sz "unat (w - r)"] that assms(3) by (auto simp: i)
  then have "map (\<lambda>k. (d(unat w mod sz := c)) ((unat r + k) mod sz)) [0..<unat (w - r)] = ring_list sz d r w"
    unfolding ring_list_def by (intro map_cong) auto
  then show ?thesis unfolding ring_list_def n by (simp add: i)
qed

lemma ring_get:
  assumes "sz dvd 2 ^ 32" "r \<noteq> w"
  shows "ring_list sz d r w = d (unat r mod sz) # ring_list sz d (r + 1) w"
proof -
  have n: "unat (w - r) = Suc (unat (w - (r + 1)))" using unat_diff_suc [OF assms(2)] by simp
  have s: "(unat (r + 1) + k) mod sz = (unat r + Suc k) mod sz" for k
    using unat_mod_dvd [OF assms(1), of r 1] by (metis add.assoc mod_add_left_eq plus_1_eq_Suc unat_1)
  have "[0..<Suc (unat (w - (r + 1)))] = 0 # map Suc [0..<unat (w - (r + 1))]" by (simp add: upt_conv_Cons map_Suc_upt del: upt_Suc)
  then show ?thesis unfolding ring_list_def n by (simp add: s o_def del: upt_Suc)
qed

lemma ring_drop_last:
  assumes "r \<noteq> e"
  shows "ring_list sz d r (e - 1) = butlast (ring_list sz d r e)" "ring_list sz d r e = ring_list sz d r (e - 1) @ [d ((unat r + unat (e - 1 - r)) mod sz)]"
proof -
  have "unat (e - r) = unat (e - (r + 1)) + 1" by (rule unat_diff_suc [OF assms])
  moreover have "e - (r + 1) = e - 1 - r" by simp
  ultimately have n: "unat (e - r) = Suc (unat (e - 1 - r))" by simp
  show a: "ring_list sz d r e = ring_list sz d r (e - 1) @ [d ((unat r + unat (e - 1 - r)) mod sz)]"
    unfolding ring_list_def n by simp
  show "ring_list sz d r (e - 1) = butlast (ring_list sz d r e)" unfolding a by simp
qed

lemma ring_split:
  assumes "sz dvd 2 ^ 32" "unat (w - r) \<le> unat (e - r)"
  shows "ring_list sz d r e = ring_list sz d r w @ ring_list sz d w e" "unat (e - r) = unat (w - r) + unat (e - w)"
proof -
  have "unat (e - r) = unat (w - r) + unat ((e - r) - (w - r))"
    using unat_sub [of "w - r" "e - r"] assms(2) by (simp add: word_le_nat_alt)
  then show n: "unat (e - r) = unat (w - r) + unat (e - w)" by simp
  have "(unat w + k) mod sz = (unat r + (unat (w - r) + k)) mod sz" for k
    using ring_index [OF assms(1), of w r] by (metis add.assoc mod_add_left_eq)
  then have "ring_list sz d w e = map (\<lambda>k. d ((unat r + k) mod sz)) [unat (w - r)..<unat (w - r) + unat (e - w)]"
    unfolding ring_list_def by (intro nth_equalityI) simp_all
  moreover have "[0..<unat (e - r)] = [0..<unat (w - r)] @ [unat (w - r)..<unat (w - r) + unat (e - w)]"
    unfolding n by (metis add_0 le0 upt_add_eq_append)
  ultimately show "ring_list sz d r e = ring_list sz d r w @ ring_list sz d w e" unfolding ring_list_def by simp
qed

section \<open>Byte streams\<close>

text \<open>
  The contract of a bounded stream: \<open>put\<close> appends while there is room, \<open>get\<close> takes the oldest byte.
\<close>

locale byte_stream =
  fixes inv :: "'s \<Rightarrow> bool" and contents :: "'s \<Rightarrow> u8 list" and cap :: nat
    and put :: "u8 \<Rightarrow> 's \<Rightarrow> 's" and get :: "'s \<Rightarrow> u8 \<times> 's"
  assumes bounded: "inv s \<Longrightarrow> length (contents s) \<le> cap"
    and put_inv: "inv s \<Longrightarrow> length (contents s) < cap \<Longrightarrow> inv (put c s)"
    and put_contents: "inv s \<Longrightarrow> length (contents s) < cap \<Longrightarrow> contents (put c s) = contents s @ [c]"
    and get_inv: "inv s \<Longrightarrow> contents s \<noteq> [] \<Longrightarrow> inv (snd (get s))"
    and get_contents: "inv s \<Longrightarrow> contents s \<noteq> [] \<Longrightarrow> contents s = fst (get s) # contents (snd (get s))"
begin

lemma put_list:
  assumes "inv s" "length (contents s) + length cs \<le> cap"
  shows "inv (fold put cs s)" "contents (fold put cs s) = contents s @ cs"
proof -
  have "inv (fold put cs s) \<and> contents (fold put cs s) = contents s @ cs"
    using assms
  proof (induction cs arbitrary: s)
    case (Cons c cs)
    then have "inv (put c s)" "contents (put c s) = contents s @ [c]" by (simp_all add: put_inv put_contents)
    then show ?case using Cons.IH [of "put c s"] Cons.prems(2) by simp
  qed simp
  then show "inv (fold put cs s)" "contents (fold put cs s) = contents s @ cs" by blast+
qed

lemma put_then_get:
  assumes "inv s" "contents s = []" "0 < cap"
  shows "fst (get (put c s)) = c" "contents (snd (get (put c s))) = []"
  using put_contents [of s c] put_inv [of s c] get_contents [of "put c s"] assms by simp_all

end

end
