(* ===== verification/Pipe.thy ===== *)
theory Pipe
  imports Ring
begin

text \<open>
  Pipes (\<^verbatim>\<open>pipe.c\<close>): the ring buffer shared by the two ends, the operations on it, and the
  system of a writer and a reader that sleep on it and wake each other.

  An operation runs from where it holds the lock to where it returns or goes to sleep. It
  reports which channels it has woken: \<open>NREAD\<close> for \<^verbatim>\<open>&p->nread\<close> and \<open>NWRITE\<close> for
  \<^verbatim>\<open>&p->nwrite\<close>.
\<close>

section \<open>Operations\<close>

definition PIPESIZE :: nat where "PIPESIZE = 512"

record pipe =
  p_data :: "nat \<Rightarrow> u8"
  p_nread :: u32
  p_nwrite :: u32
  p_readopen :: bool
  p_writeopen :: bool

datatype pipe_chan = NREAD | NWRITE

text \<open>A writer goes to sleep with the bytes it has still to write.\<close>

datatype written = Wrote int | Write_sleeps "u8 list"

datatype was_read = Read_bytes int "u8 list" | Read_sleeps

definition pipe_full :: "pipe \<Rightarrow> bool" where
  "pipe_full p \<longleftrightarrow> p_nwrite p = p_nread p + of_nat PIPESIZE"

definition pipe_put :: "u8 \<Rightarrow> pipe \<Rightarrow> pipe" where
  "pipe_put c p = p\<lparr>p_data := (p_data p)(unat (p_nwrite p) mod PIPESIZE := c), p_nwrite := p_nwrite p + 1\<rparr>"

definition pipe_get :: "pipe \<Rightarrow> u8 \<times> pipe" where
  "pipe_get p = (p_data p (unat (p_nread p) mod PIPESIZE), p\<lparr>p_nread := p_nread p + 1\<rparr>)"

text \<open>
  \<^verbatim>\<open>pipewrite\<close> of the bytes \<open>addr[i..n)\<close>; \<open>n\<close> is the number it returns. It continues after a sleep
  with the bytes that were left.
\<close>

fun pipewrite :: "bool \<Rightarrow> int \<Rightarrow> u8 list \<Rightarrow> pipe \<Rightarrow> written \<times> pipe_chan list \<times> pipe" where
  "pipewrite killed n [] p = (Wrote n, [NREAD], p)"
| "pipewrite killed n (c # cs) p =
     (if pipe_full p
      then (if \<not> p_readopen p \<or> killed then (Wrote (- 1), [], p) else (Write_sleeps (c # cs), [NREAD], p))
      else pipewrite killed n cs (pipe_put c p))"

fun read_copy :: "nat \<Rightarrow> pipe \<Rightarrow> u8 list \<times> pipe" where
  "read_copy 0 p = ([], p)"
| "read_copy (Suc n) p =
     (if p_nread p = p_nwrite p then ([], p)
      else let (c, p) = pipe_get p; (cs, p) = read_copy n p in (c # cs, p))"

definition piperead :: "bool \<Rightarrow> int \<Rightarrow> pipe \<Rightarrow> was_read \<times> pipe_chan list \<times> pipe" where
  "piperead killed n p =
     (if p_nread p = p_nwrite p \<and> p_writeopen p
      then (if killed then (Read_bytes (- 1) [], [], p) else (Read_sleeps, [], p))
      else let (cs, p) = read_copy (nat n) p in (Read_bytes (int (length cs)) cs, [NWRITE], p))"

text \<open>The last result of \<open>pipeclose\<close>: both ends are closed and the page of the pipe is freed.\<close>

definition pipeclose :: "bool \<Rightarrow> pipe \<Rightarrow> pipe_chan list \<times> pipe \<times> bool" where
  "pipeclose writable p =
     (let (wk, p) = (if writable then ([NREAD], p\<lparr>p_writeopen := False\<rparr>) else ([NWRITE], p\<lparr>p_readopen := False\<rparr>))
      in (wk, p, \<not> p_readopen p \<and> \<not> p_writeopen p))"

section \<open>The ring of a pipe\<close>

definition pipe_bytes :: "pipe \<Rightarrow> u8 list" where
  "pipe_bytes p = ring_list PIPESIZE (p_data p) (p_nread p) (p_nwrite p)"

definition pipe_inv :: "pipe \<Rightarrow> bool" where
  "pipe_inv p \<longleftrightarrow> unat (p_nwrite p - p_nread p) \<le> PIPESIZE"

lemma length_pipe_bytes: "length (pipe_bytes p) = unat (p_nwrite p - p_nread p)"
  by (simp add: pipe_bytes_def)

lemma PIPESIZE_ring: "PIPESIZE dvd 2 ^ 32" "PIPESIZE < 2 ^ 32"
  by (simp_all add: PIPESIZE_def)

lemma pipe_full_iff: "pipe_full p \<longleftrightarrow> length (pipe_bytes p) = PIPESIZE"
  unfolding pipe_full_def length_pipe_bytes by (rule ring_full [OF PIPESIZE_ring(2)])

lemma pipe_empty_iff: "p_nread p = p_nwrite p \<longleftrightarrow> pipe_bytes p = []"
  by (metis length_pipe_bytes length_0_conv unat_eq_zero right_minus_eq)

interpretation pipe_stream: byte_stream pipe_inv pipe_bytes PIPESIZE pipe_put pipe_get
proof
  show "length (pipe_bytes p) \<le> PIPESIZE" if "pipe_inv p" for p
    using that by (simp add: length_pipe_bytes pipe_inv_def)
next
  fix p c assume a: "pipe_inv p" "length (pipe_bytes p) < PIPESIZE"
  then show b: "pipe_bytes (pipe_put c p) = pipe_bytes p @ [c]"
    using ring_put [OF PIPESIZE_ring, of "p_nwrite p" "p_nread p"] by (simp add: pipe_bytes_def pipe_put_def)
  show "pipe_inv (pipe_put c p)"
    using a(2) length_pipe_bytes [of "pipe_put c p"] unfolding b by (simp add: pipe_inv_def)
next
  fix p assume a: "pipe_inv p" "pipe_bytes p \<noteq> []"
  then have "p_nread p \<noteq> p_nwrite p" by (simp add: pipe_empty_iff)
  then show b: "pipe_bytes p = fst (pipe_get p) # pipe_bytes (snd (pipe_get p))"
    using ring_get [OF PIPESIZE_ring(1), of "p_nread p" "p_nwrite p"] by (simp add: pipe_bytes_def pipe_get_def)
  have "length (pipe_bytes (snd (pipe_get p))) \<le> PIPESIZE"
    using a(1) b length_pipe_bytes [of p] by (simp add: pipe_inv_def)
  then show "pipe_inv (snd (pipe_get p))" by (simp add: length_pipe_bytes pipe_inv_def)
qed

lemma pipe_put_frame [simp]: "p_nread (pipe_put c p) = p_nread p" "p_readopen (pipe_put c p) = p_readopen p"
  "p_writeopen (pipe_put c p) = p_writeopen p" "p_nwrite (pipe_put c p) = p_nwrite p + 1"
  by (simp_all add: pipe_put_def)

lemma pipe_get_frame [simp]: "p_nwrite (snd (pipe_get p)) = p_nwrite p" "p_readopen (snd (pipe_get p)) = p_readopen p"
  "p_writeopen (snd (pipe_get p)) = p_writeopen p"
  by (simp_all add: pipe_get_def)

text \<open>What a write does, with \<open>k\<close> the number of bytes that fit.\<close>

lemma pipewrite_spec:
  assumes "pipe_inv p" "pipewrite killed n cs p = (res, wk, p')" "k = min (length cs) (PIPESIZE - length (pipe_bytes p))"
  shows "pipe_inv p' \<and> pipe_bytes p' = pipe_bytes p @ take k cs \<and> unat (p_nwrite p' - p_nwrite p) = k
    \<and> p_readopen p' = p_readopen p \<and> p_writeopen p' = p_writeopen p
    \<and> (if k = length cs then res = Wrote n \<and> wk = [NREAD]
       else if \<not> p_readopen p \<or> killed then res = Wrote (- 1) \<and> wk = []
       else res = Write_sleeps (drop k cs) \<and> wk = [NREAD])"
  using assms
proof (induction killed n cs p arbitrary: k rule: pipewrite.induct)
  case (2 killed n c cs p)
  show ?case
  proof (cases "pipe_full p")
    case True
    then have "k = 0" using 2(4) by (simp add: pipe_full_iff)
    then show ?thesis using True 2(2,3) by (simp split: if_splits)
  next
    case False
    let ?q = "pipe_put c p"
    have l: "length (pipe_bytes p) < PIPESIZE"
      using False pipe_stream.bounded [OF 2(2)] by (simp add: pipe_full_iff)
    have q: "pipe_inv ?q" "pipe_bytes ?q = pipe_bytes p @ [c]"
      using pipe_stream.put_inv [OF 2(2) l] pipe_stream.put_contents [OF 2(2) l] by simp_all
    define j where "j = min (length cs) (PIPESIZE - length (pipe_bytes ?q))"
    have k: "k = Suc j" using l unfolding 2(4) j_def q(2) by simp
    have r: "pipewrite killed n cs ?q = (res, wk, p')" using 2(3) False by simp
    note IH = 2(1) [OF False q(1) r j_def]
    have j: "j < 512" using l unfolding j_def q(2) PIPESIZE_def by simp
    have w: "p_nwrite p' - p_nwrite p = (p_nwrite p' - p_nwrite ?q) + 1" by simp
    have u: "unat (p_nwrite p' - p_nwrite ?q) = j" using IH by blast
    have "unat (p_nwrite p' - p_nwrite ?q) < 2 ^ 32 - 1" unfolding u using j by simp
    then have "unat (p_nwrite p' - p_nwrite p) = k" unfolding w k by (subst unat_suc) (simp_all only: u Suc_eq_plus1)
    then show ?thesis using IH q(2) by (simp add: k)
  qed
qed simp

lemma read_copy_spec:
  assumes "pipe_inv p" "read_copy n p = (cs, p')"
  shows "pipe_inv p' \<and> cs = take n (pipe_bytes p) \<and> pipe_bytes p' = drop n (pipe_bytes p)
    \<and> p_readopen p' = p_readopen p \<and> p_writeopen p' = p_writeopen p"
  using assms
proof (induction n p arbitrary: cs rule: read_copy.induct)
  case (2 n p)
  show ?case
  proof (cases "p_nread p = p_nwrite p")
    case True
    then show ?thesis using 2(2,3) by (simp add: pipe_empty_iff)
  next
    case False
    then have ne: "pipe_bytes p \<noteq> []" by (simp add: pipe_empty_iff)
    obtain ds where ds: "read_copy n (snd (pipe_get p)) = (ds, p')" "cs = fst (pipe_get p) # ds"
      using 2(3) False by (auto split: prod.splits)
    show ?thesis
      using 2(1) [OF False refl prod.collapse pipe_stream.get_inv [OF 2(2) ne] ds(1)]
        pipe_stream.get_contents [OF 2(2) ne] ds(2) by (metis drop_Suc_Cons pipe_get_frame(2,3) take_Suc_Cons)
  qed
qed simp

lemma piperead_spec:
  assumes "pipe_inv p" "piperead killed n p = (res, wk, p')"
  shows "pipe_inv p' \<and> p_readopen p' = p_readopen p \<and> p_writeopen p' = p_writeopen p
    \<and> (if pipe_bytes p = [] \<and> p_writeopen p
       then p' = p \<and> wk = [] \<and> res = (if killed then Read_bytes (- 1) [] else Read_sleeps)
       else wk = [NWRITE] \<and> pipe_bytes p' = drop (nat n) (pipe_bytes p)
         \<and> res = Read_bytes (int (length (take (nat n) (pipe_bytes p)))) (take (nat n) (pipe_bytes p)))"
  using assms read_copy_spec [of p "nat n"]
  by (auto simp: piperead_def pipe_empty_iff simp flip: length_take split: if_splits prod.splits)

section \<open>A writer and a reader\<close>

text \<open>
  The two processes at the ends of a pipe: idle (outside \<^verbatim>\<open>pipe.c\<close>), asleep, or woken and about
  to take up their call again. A writer that was killed exits at the end of its call
  (\<^verbatim>\<open>trap\<close>), which closes its end. \<open>sent\<close> and \<open>recvd\<close> are the bytes that went in and came out so far.
\<close>

datatype wstate = W_idle | W_asleep int "u8 list" | W_ready int "u8 list" | W_exits

datatype rstate = R_idle | R_asleep int | R_ready int

record psys =
  ps_pipe :: pipe
  w_st :: wstate
  r_st :: rstate
  sent :: "u8 list"
  recvd :: "u8 list"

text \<open>The pipe as \<^verbatim>\<open>pipealloc\<close> sets it up in a page with the bytes \<open>d\<close>.\<close>

definition new_pipe :: "(nat \<Rightarrow> u8) \<Rightarrow> pipe" where
  "new_pipe d = \<lparr>p_data = d, p_nread = 0, p_nwrite = 0, p_readopen = True, p_writeopen = True\<rparr>"

definition ps_wakeup :: "pipe_chan list \<Rightarrow> psys \<Rightarrow> psys" where
  "ps_wakeup wk s =
     s\<lparr>w_st := (case w_st s of W_asleep n cs \<Rightarrow> if NWRITE \<in> set wk then W_ready n cs else W_asleep n cs | x \<Rightarrow> x),
       r_st := (case r_st s of R_asleep n \<Rightarrow> if NREAD \<in> set wk then R_ready n else R_asleep n | x \<Rightarrow> x)\<rparr>"

definition ps_write :: "bool \<Rightarrow> int \<Rightarrow> u8 list \<Rightarrow> psys \<Rightarrow> psys" where
  "ps_write killed n cs s =
     (let (res, wk, p) = pipewrite killed n cs (ps_pipe s)
      in ps_wakeup wk (s\<lparr>ps_pipe := p, sent := sent s @ take (unat (p_nwrite p - p_nwrite (ps_pipe s))) cs,
           w_st := (case res of Wrote _ \<Rightarrow> if killed then W_exits else W_idle | Write_sleeps ds \<Rightarrow> W_asleep n ds)\<rparr>))"

definition ps_read :: "bool \<Rightarrow> int \<Rightarrow> psys \<Rightarrow> psys" where
  "ps_read killed n s =
     (let (res, wk, p) = piperead killed n (ps_pipe s)
      in ps_wakeup wk (case res of
             Read_bytes _ cs \<Rightarrow> s\<lparr>ps_pipe := p, recvd := recvd s @ cs, r_st := R_idle\<rparr>
           | Read_sleeps \<Rightarrow> s\<lparr>ps_pipe := p, r_st := R_asleep n\<rparr>))"

definition ps_close :: "bool \<Rightarrow> psys \<Rightarrow> psys" where
  "ps_close writable s = (let (wk, p, _) = pipeclose writable (ps_pipe s) in ps_wakeup wk (s\<lparr>ps_pipe := p\<rparr>))"

text \<open>
  A process can be killed at any moment; \<^verbatim>\<open>kill\<close> makes a sleeping one runnable. An end is closed
  by a process that is not in a call on it.
\<close>

inductive pstep :: "psys \<Rightarrow> psys \<Rightarrow> bool" where
  ps_write_start: "w_st s = W_idle \<Longrightarrow> p_writeopen (ps_pipe s) \<Longrightarrow> pstep s (ps_write killed (int (length cs)) cs s)"
| ps_write_again: "w_st s = W_ready n cs \<Longrightarrow> pstep s (ps_write killed n cs s)"
| ps_read_start: "r_st s = R_idle \<Longrightarrow> p_readopen (ps_pipe s) \<Longrightarrow> pstep s (ps_read killed n s)"
| ps_read_again: "r_st s = R_ready n \<Longrightarrow> pstep s (ps_read killed n s)"
| ps_close_write: "w_st s = W_idle \<or> w_st s = W_exits \<Longrightarrow> p_writeopen (ps_pipe s) \<Longrightarrow> pstep s (ps_close True s)"
| ps_close_read: "r_st s = R_idle \<Longrightarrow> p_readopen (ps_pipe s) \<Longrightarrow> pstep s (ps_close False s)"
| ps_kill_writer: "w_st s = W_asleep n cs \<Longrightarrow> pstep s (s\<lparr>w_st := W_ready n cs\<rparr>)"
| ps_kill_reader: "r_st s = R_asleep n \<Longrightarrow> pstep s (s\<lparr>r_st := R_ready n\<rparr>)"

inductive preachable :: "psys \<Rightarrow> bool" where
  ps_start: "preachable \<lparr>ps_pipe = new_pipe d, w_st = W_idle, r_st = R_idle, sent = [], recvd = []\<rparr>"
| ps_next: "preachable s \<Longrightarrow> pstep s t \<Longrightarrow> preachable t"

text \<open>
  A sleeping writer has found the pipe full and the reading end open, a sleeping reader has found
  it empty and the writing end open, and it still is so, but for one case: a writer that was
  killed fills the pipe and returns without waking the reader.
\<close>

definition ps_inv :: "psys \<Rightarrow> bool" where
  "ps_inv s \<longleftrightarrow> pipe_inv (ps_pipe s) \<and> sent s = recvd s @ pipe_bytes (ps_pipe s)
     \<and> (case w_st s of W_asleep n cs \<Rightarrow> length (pipe_bytes (ps_pipe s)) = PIPESIZE \<and> p_readopen (ps_pipe s) | _ \<Rightarrow> True)
     \<and> (case r_st s of R_asleep n \<Rightarrow> (pipe_bytes (ps_pipe s) = [] \<or> w_st s = W_exits) \<and> p_writeopen (ps_pipe s) | _ \<Rightarrow> True)
     \<and> (r_st s = R_idle \<or> p_readopen (ps_pipe s))"

lemma ps_wakeup_frame [simp]:
  "ps_pipe (ps_wakeup wk s) = ps_pipe s" "sent (ps_wakeup wk s) = sent s" "recvd (ps_wakeup wk s) = recvd s"
  "w_st (ps_wakeup wk s) = W_asleep n cs \<longleftrightarrow> w_st s = W_asleep n cs \<and> NWRITE \<notin> set wk"
  "r_st (ps_wakeup wk s) = R_asleep n \<longleftrightarrow> r_st s = R_asleep n \<and> NREAD \<notin> set wk"
  "w_st (ps_wakeup wk s) = W_exits \<longleftrightarrow> w_st s = W_exits" "r_st (ps_wakeup wk s) = R_idle \<longleftrightarrow> r_st s = R_idle"
  by (auto simp: ps_wakeup_def split: wstate.splits rstate.splits)

lemma ps_invI:
  assumes "pipe_inv (ps_pipe s)" "sent s = recvd s @ pipe_bytes (ps_pipe s)"
    "\<And>n cs. w_st s = W_asleep n cs \<Longrightarrow> length (pipe_bytes (ps_pipe s)) = PIPESIZE \<and> p_readopen (ps_pipe s)"
    "\<And>n. r_st s = R_asleep n \<Longrightarrow> (pipe_bytes (ps_pipe s) = [] \<or> w_st s = W_exits) \<and> p_writeopen (ps_pipe s)"
    "r_st s = R_idle \<or> p_readopen (ps_pipe s)"
  shows "ps_inv s"
  using assms by (auto simp: ps_inv_def split: wstate.split rstate.split)

lemma ps_invD:
  assumes "ps_inv s"
  shows "pipe_inv (ps_pipe s)" "sent s = recvd s @ pipe_bytes (ps_pipe s)"
    "w_st s = W_asleep n cs \<Longrightarrow> length (pipe_bytes (ps_pipe s)) = PIPESIZE \<and> p_readopen (ps_pipe s)"
    "r_st s = R_asleep m \<Longrightarrow> (pipe_bytes (ps_pipe s) = [] \<or> w_st s = W_exits) \<and> p_writeopen (ps_pipe s)"
    "r_st s = R_idle \<or> p_readopen (ps_pipe s)"
  using assms by (auto simp: ps_inv_def)

lemma ps_write_inv:
  assumes "ps_inv s" "\<And>m ds. w_st s \<noteq> W_asleep m ds" "w_st s \<noteq> W_exits"
  shows "ps_inv (ps_write killed n cs s)"
proof -
  obtain res wk p where w: "pipewrite killed n cs (ps_pipe s) = (res, wk, p)" by (metis prod_cases3)
  define k where "k = min (length cs) (PIPESIZE - length (pipe_bytes (ps_pipe s)))"
  note sp = pipewrite_spec [OF ps_invD(1) [OF assms(1)] w k_def]
  show ?thesis
  proof (rule ps_invI)
    show "pipe_inv (ps_pipe (ps_write killed n cs s))" using sp by (simp add: ps_write_def w)
    show "sent (ps_write killed n cs s) = recvd (ps_write killed n cs s) @ pipe_bytes (ps_pipe (ps_write killed n cs s))"
      using sp ps_invD(2) [OF assms(1)] by (simp add: ps_write_def w)
    show "length (pipe_bytes (ps_pipe (ps_write killed n cs s))) = PIPESIZE \<and> p_readopen (ps_pipe (ps_write killed n cs s))"
      if "w_st (ps_write killed n cs s) = W_asleep m ds" for m ds
      using sp that pipe_stream.bounded [OF ps_invD(1) [OF assms(1)]]
      by (auto simp: ps_write_def w k_def split: written.splits if_splits)
    show "(pipe_bytes (ps_pipe (ps_write killed n cs s)) = [] \<or> w_st (ps_write killed n cs s) = W_exits)
        \<and> p_writeopen (ps_pipe (ps_write killed n cs s))"
      if "r_st (ps_write killed n cs s) = R_asleep m" for m
      using sp that ps_invD(4,5) [OF assms(1)] by (auto simp: ps_write_def w split: if_splits)
    show "r_st (ps_write killed n cs s) = R_idle \<or> p_readopen (ps_pipe (ps_write killed n cs s))"
      using sp ps_invD(5) [OF assms(1)] by (auto simp: ps_write_def w)
  qed
qed

lemma ps_read_inv:
  assumes "ps_inv s" "\<And>m. r_st s \<noteq> R_asleep m" "p_readopen (ps_pipe s)"
  shows "ps_inv (ps_read killed n s)"
proof -
  obtain res wk p where r: "piperead killed n (ps_pipe s) = (res, wk, p)" by (metis prod_cases3)
  note sp = piperead_spec [OF ps_invD(1) [OF assms(1)] r]
  show ?thesis
  proof (cases "pipe_bytes (ps_pipe s) = [] \<and> p_writeopen (ps_pipe s)")
    case True
    then show ?thesis
      using sp ps_invD(1,2) [OF assms(1)] ps_invD(3) [OF assms(1)] assms(3)
      by (intro ps_invI) (auto simp: ps_read_def r PIPESIZE_def split: if_splits)
  next
    case False
    then show ?thesis
      using sp ps_invD(2) [OF assms(1)] assms(3) by (intro ps_invI) (auto simp: ps_read_def r)
  qed
qed

lemma ps_close_inv:
  assumes "ps_inv s"
    and "w \<or> r_st s = R_idle"
  shows "ps_inv (ps_close w s)"
  using ps_invD(1,2,5) [OF assms(1)] ps_invD(3,4) [OF assms(1)] assms(2)
  by (intro ps_invI) (auto simp: ps_close_def pipeclose_def pipe_inv_def pipe_bytes_def split: if_splits)

lemma preachable_inv: "preachable s \<Longrightarrow> ps_inv s"
proof (induction rule: preachable.induct)
  case (ps_start d)
  then show ?case by (intro ps_invI) (simp_all add: new_pipe_def pipe_inv_def pipe_bytes_def)
next
  case (ps_next s t)
  from ps_next(2,3) show ?case
  proof cases
    case (ps_kill_writer n cs)
    then show ?thesis using ps_invD(1,2,4,5) [OF ps_next(3)] by (intro ps_invI) auto
  next
    case (ps_kill_reader n)
    then show ?thesis using ps_invD(1-3,5) [OF ps_next(3)] by (intro ps_invI) auto
  qed (use ps_invD(5) [OF ps_next(3)] in \<open>auto intro!: ps_write_inv ps_read_inv ps_close_inv ps_next(3)\<close>)
qed

lemma never_both: "ps_inv s \<Longrightarrow> w_st s = W_asleep n cs \<Longrightarrow> r_st s \<noteq> R_asleep m"
  using ps_invD(3,4) [of s] by (fastforce simp: PIPESIZE_def)

lemma sleeping_writer:
  assumes "ps_inv s" "w_st s = W_asleep n cs"
  shows "pipe_full (ps_pipe s)" "p_readopen (ps_pipe s)" "r_st s = R_idle \<Longrightarrow> pstep s (ps_read False k s)"
    "w_st (ps_read False k s) = W_ready n cs"
proof -
  have ne: "pipe_bytes (ps_pipe s) \<noteq> []" using ps_invD(3) [OF assms] by (auto simp: PIPESIZE_def)
  obtain res wk p where r: "piperead False k (ps_pipe s) = (res, wk, p)" by (metis prod_cases3)
  show "w_st (ps_read False k s) = W_ready n cs"
    using piperead_spec [OF ps_invD(1) [OF assms(1)] r] ne assms(2) by (auto simp: ps_read_def r ps_wakeup_def)
  show o: "p_readopen (ps_pipe s)" and "pipe_full (ps_pipe s)"
    using ps_invD(3) [OF assms] by (simp_all add: pipe_full_iff)
  show "pstep s (ps_read False k s)" if "r_st s = R_idle" using that o by (rule ps_read_start)
qed

lemma reader_faces:
  assumes "ps_inv s" "r_st s = R_asleep m"
  shows "p_writeopen (ps_pipe s) \<and> (p_nread (ps_pipe s) = p_nwrite (ps_pipe s) \<or> w_st s = W_exits)"
  using ps_invD(4) [OF assms] by (simp add: pipe_empty_iff)

lemma sleeping_reader:
  assumes "ps_inv s" "r_st s = R_asleep m" "p_nread (ps_pipe s) \<noteq> p_nwrite (ps_pipe s)"
  shows "pstep s (ps_close True s)" "r_st (ps_close True s) = R_ready m"
proof -
  have "w_st s = W_exits" "p_writeopen (ps_pipe s)" using ps_invD(4) [OF assms(1,2)] assms(3) by (auto simp: pipe_empty_iff)
  then show "pstep s (ps_close True s)" by (intro ps_close_write) auto
  show "r_st (ps_close True s) = R_ready m" using assms(2) by (simp add: ps_close_def pipeclose_def ps_wakeup_def)
qed

text \<open>Writing more than the ring holds into an empty pipe.\<close>

lemma new_pipe_inv: "pipe_inv (new_pipe d)" "pipe_bytes (new_pipe d) = []" "p_readopen (new_pipe d)" "p_writeopen (new_pipe d)"
  by (simp_all add: new_pipe_def pipe_inv_def pipe_bytes_def)

lemma fill_new_pipe:
  assumes "length cs > PIPESIZE"
  obtains p where "pipewrite killed n cs (new_pipe d) =
      (if killed then (Wrote (- 1), [], p) else (Write_sleeps (drop PIPESIZE cs), [NREAD], p))"
    "length (pipe_bytes p) = PIPESIZE" "p_writeopen p"
proof -
  obtain res wk p where w: "pipewrite killed n cs (new_pipe d) = (res, wk, p)" by (metis prod_cases3)
  show thesis
    using pipewrite_spec [OF new_pipe_inv(1) w refl] assms w that [of p]
    by (simp add: new_pipe_inv split: if_splits)
qed

section \<open>Properties\<close>

text \<open>C33: Whatever the two processes at the ends of a pipe do, in whatever order, sleeping, being
  woken and being killed: what the reader has received is what the writer has sent, in order and
  without loss, but for at most 512 bytes that are still in the ring. The counters may wrap.\<close>

theorem pipe_fifo:
  assumes "preachable s"
  shows "sent s = recvd s @ ring_list PIPESIZE (p_data (ps_pipe s)) (p_nread (ps_pipe s)) (p_nwrite (ps_pipe s))
    \<and> unat (p_nwrite (ps_pipe s) - p_nread (ps_pipe s)) \<le> 512"
  using ps_invD(1,2) [OF preachable_inv [OF assms]] by (simp_all add: pipe_bytes_def pipe_inv_def PIPESIZE_def)

theorem pipe_fifo_witness:
  "let s = ps_read False 2 (ps_write False 3 [10, 20, 30]
             \<lparr>ps_pipe = new_pipe (\<lambda>_. 7), w_st = W_idle, r_st = R_idle, sent = [], recvd = []\<rparr>)
   in recvd s = [10, 20] \<and> sent s = [10, 20] @ ring_list PIPESIZE (p_data (ps_pipe s)) (p_nread (ps_pipe s)) (p_nwrite (ps_pipe s))"
proof -
  let ?i = "\<lparr>ps_pipe = new_pipe (\<lambda>_. 7), w_st = W_idle, r_st = R_idle, sent = [], recvd = []\<rparr>"
  have w: "pstep ?i (ps_write False 3 [10, 20, 30] ?i)"
    using ps_write_start [of ?i False "[10, 20, 30]"] by (simp add: new_pipe_def)
  let ?j = "ps_write False 3 [10, 20, 30] ?i"
  have "r_st ?j = R_idle" "p_readopen (ps_pipe ?j)" by code_simp+
  then have "pstep ?j (ps_read False 2 ?j)" by (rule ps_read_start)
  then have "preachable (ps_read False 2 ?j)" using ps_start w by (metis ps_next)
  moreover have "recvd (ps_read False 2 ?j) = [10, 20]" by code_simp
  ultimately show ?thesis using pipe_fifo [of "ps_read False 2 ?j"] unfolding Let_def by metis
qed

text \<open>C34: Sleeping ends in progress: the two processes never sleep at the same time; a sleeping
  writer faces a full pipe whose reader is there; a sleeping reader faces an empty pipe whose
  writing end is open, or a writer that is exiting, whose close of its end wakes the reader.\<close>

theorem pipe_never_stuck:
  assumes "preachable s"
  shows "(\<nexists>n cs m. w_st s = W_asleep n cs \<and> r_st s = R_asleep m)
    \<and> (\<forall>n cs. w_st s = W_asleep n cs \<longrightarrow> pipe_full (ps_pipe s) \<and> p_readopen (ps_pipe s)
          \<and> (r_st s = R_idle \<longrightarrow> (\<forall>k. pstep s (ps_read False k s) \<and> w_st (ps_read False k s) = W_ready n cs)))
    \<and> (\<forall>m. r_st s = R_asleep m \<longrightarrow> p_writeopen (ps_pipe s)
          \<and> (p_nread (ps_pipe s) = p_nwrite (ps_pipe s) \<or> w_st s = W_exits))
    \<and> (\<forall>m. r_st s = R_asleep m \<and> p_nread (ps_pipe s) \<noteq> p_nwrite (ps_pipe s) \<longrightarrow>
          pstep s (ps_close True s) \<and> r_st (ps_close True s) = R_ready m)"
  using never_both [OF preachable_inv [OF assms]] sleeping_writer [OF preachable_inv [OF assms]]
    sleeping_reader [OF preachable_inv [OF assms]] reader_faces [OF preachable_inv [OF assms]] by blast

theorem pipe_never_stuck_witness:
  "let s = ps_write False 513 (replicate 513 65)
             \<lparr>ps_pipe = new_pipe (\<lambda>_. 7), w_st = W_idle, r_st = R_idle, sent = [], recvd = []\<rparr>
   in w_st s = W_asleep 513 [65] \<and> pipe_full (ps_pipe s) \<and> w_st (ps_read False 1 s) = W_ready 513 [65]"
proof -
  let ?i = "\<lparr>ps_pipe = new_pipe (\<lambda>_. 7), w_st = W_idle, r_st = R_idle, sent = [], recvd = []\<rparr>"
  let ?s = "ps_write False 513 (replicate 513 65) ?i"
  have "pstep ?i ?s"
    using ps_write_start [of ?i False "replicate 513 65"] by (simp add: new_pipe_def)
  then have r: "preachable ?s" using ps_start by (metis ps_next)
  obtain p where "pipewrite False 513 (replicate 513 65) (new_pipe (\<lambda>_. 7)) = (Write_sleeps [65], [NREAD], p)"
    using fill_new_pipe [of "replicate 513 65" False 513 "\<lambda>_. 7"] by (auto simp: PIPESIZE_def)
  then have w: "w_st ?s = W_asleep 513 [65]" "r_st ?s = R_idle" by (simp_all add: ps_write_def ps_wakeup_def)
  show ?thesis using pipe_never_stuck [OF r] w unfolding Let_def by blast
qed

text \<open>
  The case in which a wakeup is missing: a reader sleeps on the empty pipe, a writer that was
  killed writes 513 bytes and returns -1 from the full pipe. The reader sleeps on, with 512 bytes
  to read, until the writing end is closed; as long as another process keeps it open, it sleeps.
\<close>

lemma pipewrite_lost_wakeup:
  "let s = ps_write True 513 (replicate 513 65) (ps_read False 1
             \<lparr>ps_pipe = new_pipe (\<lambda>_. 7), w_st = W_idle, r_st = R_idle, sent = [], recvd = []\<rparr>)
   in r_st s = R_asleep 1 \<and> unat (p_nwrite (ps_pipe s) - p_nread (ps_pipe s)) = 512 \<and> p_writeopen (ps_pipe s)"
proof -
  obtain p where "pipewrite True 513 (replicate 513 65) (new_pipe (\<lambda>_. 7)) = (Wrote (- 1), [], p)"
      "length (pipe_bytes p) = 512" "p_writeopen p"
    using fill_new_pipe [of "replicate 513 65" True 513 "\<lambda>_. 7"] by (auto simp: PIPESIZE_def)
  moreover have "piperead False 1 (new_pipe (\<lambda>_. 7)) = (Read_sleeps, [], new_pipe (\<lambda>_. 7))"
    by (simp add: piperead_def new_pipe_def)
  ultimately show ?thesis by (simp add: ps_write_def ps_read_def ps_wakeup_def length_pipe_bytes)
qed

end
