(* ===== verification/File.thy ===== *)
theory File
  imports Fs Pipe Vm
begin

text \<open>
  Open files (\<^verbatim>\<open>file.c\<close>), the allocation of pipes (\<^verbatim>\<open>pipealloc\<close> of \<^verbatim>\<open>pipe.c\<close>) and the file descriptors
  of the current process. The state is that of the file system with the file table, the
  pipes by the address of their page, the page allocator, and what the operations use of
  the current process: its open files and whether it was killed. \<open>wakeups\<close> collects the calls of
  \<^verbatim>\<open>wakeup\<close>. A pointer to a file is its index in \<^verbatim>\<open>ftable.file\<close>.
\<close>

section \<open>Data\<close>

definition NFILE :: nat where "NFILE = 100"

datatype ftype = FD_NONE | FD_PIPE | FD_INODE

record file_struct =
  f_type :: ftype
  f_ref :: int
  f_readable :: bool
  f_writable :: bool
  f_pipe :: u32
  f_ip :: nat
  f_off :: u32

record filest = fsst +
  ftable :: "nat \<Rightarrow> file_struct"
  pipes :: "u32 \<Rightarrow> pipe"
  kmem :: vst
  ofile :: "nat \<Rightarrow> nat option"
  was_killed :: bool
  wakeups :: "(u32 \<times> pipe_chan) list"

definition upd_file :: "nat \<Rightarrow> (file_struct \<Rightarrow> file_struct) \<Rightarrow> 'a filest_scheme \<Rightarrow> 'a filest_scheme" where
  "upd_file f g s = s\<lparr>ftable := (ftable s)(f := g (ftable s f))\<rparr>"

definition set_pipe :: "u32 \<Rightarrow> pipe_chan list \<Rightarrow> pipe \<Rightarrow> 'a filest_scheme \<Rightarrow> 'a filest_scheme" where
  "set_pipe a wk p s = s\<lparr>pipes := (pipes s)(a := p), wakeups := wakeups s @ map (Pair a) wk\<rparr>"

section \<open>The file table\<close>

definition filealloc :: "'a filest_scheme \<Rightarrow> nat option \<times> 'a filest_scheme" where
  "filealloc s =
     (case find (\<lambda>f. f_ref (ftable s f) = 0) [0..<NFILE] of
        Some f \<Rightarrow> (Some f, upd_file f (\<lambda>x. x\<lparr>f_ref := 1\<rparr>) s)
      | None \<Rightarrow> (None, s))"

definition filedup :: "nat \<Rightarrow> 'a filest_scheme \<Rightarrow> 'a filest_scheme kres" where
  "filedup f s =
     (if f_ref (ftable s f) < 1 then Inl ''filedup''
      else Inr (upd_file f (\<lambda>x. x\<lparr>f_ref := f_ref x + 1\<rparr>) s))"

text \<open>\<^verbatim>\<open>pipeclose\<close> on the pipe in the page at \<open>a\<close>, which it frees after the second end is closed.\<close>

definition pipeclose_at :: "u32 \<Rightarrow> bool \<Rightarrow> 'a filest_scheme \<Rightarrow> 'a filest_scheme kres" where
  "pipeclose_at a writable s =
     (let (wk, p, last) = pipeclose writable (pipes s a);
          s = set_pipe a wk p s
      in if last then and_then (kfree a (kmem s)) (\<lambda>k. Inr (s\<lparr>kmem := k\<rparr>)) else Inr s)"

definition fileclose :: "nat \<Rightarrow> 'a filest_scheme \<Rightarrow> 'a filest_scheme kres" where
  "fileclose f s =
     (if f_ref (ftable s f) < 1 then Inl ''fileclose''
      else
        let s = upd_file f (\<lambda>x. x\<lparr>f_ref := f_ref x - 1\<rparr>) s
        in if f_ref (ftable s f) > 0 then Inr s
           else
             let ff = ftable s f;
                 s = upd_file f (\<lambda>x. x\<lparr>f_ref := 0, f_type := FD_NONE\<rparr>) s
             in case f_type ff of
                  FD_PIPE \<Rightarrow> pipeclose_at (f_pipe ff) (f_writable ff) s
                | FD_INODE \<Rightarrow> and_then (begin_op s) (\<lambda>s. and_then (iput (f_ip ff) s) end_op)
                | FD_NONE \<Rightarrow> Inr s)"

definition filestat :: "nat \<Rightarrow> 'a filest_scheme \<Rightarrow> (stat option \<times> 'a filest_scheme) kres" where
  "filestat f s =
     (let ip = f_ip (ftable s f)
      in if f_type (ftable s f) = FD_INODE
         then and_then (ilock ip s) (\<lambda>s.
              let st = stati ip s in and_then (iunlock ip s) (\<lambda>s. Inr (Some st, s)))
         else Inr (None, s))"

definition fileread :: "'a filest_scheme devops \<Rightarrow> nat \<Rightarrow> int \<Rightarrow> 'a filest_scheme \<Rightarrow> (was_read \<times> 'a filest_scheme) kres" where
  "fileread D f n s =
     (let x = ftable s f
      in if \<not> f_readable x then Inr (Read_bytes (- 1) [], s)
         else case f_type x of
           FD_PIPE \<Rightarrow>
             let (r, wk, p) = piperead (was_killed s) n (pipes s (f_pipe x)) in Inr (r, set_pipe (f_pipe x) wk p s)
         | FD_INODE \<Rightarrow>
             and_then (ilock (f_ip x) s) (\<lambda>s.
             and_then (readi D (f_ip x) (f_off (ftable s f)) (of_int n) s) (\<lambda>((r, bs), s).
             let s = (if r > 0 then upd_file f (\<lambda>x. x\<lparr>f_off := f_off x + of_int r\<rparr>) s else s)
             in and_then (iunlock (f_ip x) s) (\<lambda>s. Inr (Read_bytes r bs, s))))
         | FD_NONE \<Rightarrow> Inl ''fileread'')"

text \<open>
  \<open>MAXWRITE\<close> is the local \<^verbatim>\<open>max\<close> of \<^verbatim>\<open>filewrite\<close>: what one transaction of the log can take.
\<close>

definition MAXWRITE :: int where
  "MAXWRITE = (MAXOPBLOCKS - 1 - 1 - 2) div 2 * 512"

function fwrite_loop :: "'a filest_scheme devops \<Rightarrow> nat \<Rightarrow> u8 list \<Rightarrow> int \<Rightarrow> int \<Rightarrow> 'a filest_scheme \<Rightarrow> (int \<times> 'a filest_scheme) kres" where
  "fwrite_loop D f src i n s =
     (if i < n
      then
        let n1 = (if n - i > MAXWRITE then MAXWRITE else n - i);
            ip = f_ip (ftable s f)
        in and_then (begin_op s) (\<lambda>s.
           and_then (ilock ip s) (\<lambda>s.
           and_then (writei D ip (drop (nat i) src) (f_off (ftable s f)) (of_int n1) s) (\<lambda>(r, s).
           let s = (if r > 0 then upd_file f (\<lambda>x. x\<lparr>f_off := f_off x + of_int r\<rparr>) s else s)
           in and_then (iunlock ip s) (\<lambda>s.
              and_then (end_op s) (\<lambda>s.
              if r < 0 then Inr (i, s)
              else if r \<noteq> n1 then Inl ''short filewrite''
              else fwrite_loop D f src (i + r) n s)))))
      else Inr (i, s))"
  by pat_completeness auto
termination by (relation "measure (\<lambda>(_, _, _, i, n, _). nat (n - i))") (auto simp: MAXWRITE_def MAXOPBLOCKS_def)

declare fwrite_loop.simps [simp del]

definition filewrite :: "'a filest_scheme devops \<Rightarrow> nat \<Rightarrow> u8 list \<Rightarrow> int \<Rightarrow> 'a filest_scheme \<Rightarrow> (written \<times> 'a filest_scheme) kres" where
  "filewrite D f src n s =
     (let x = ftable s f
      in if \<not> f_writable x then Inr (Wrote (- 1), s)
         else case f_type x of
           FD_PIPE \<Rightarrow>
             let (r, wk, p) = pipewrite (was_killed s) n (take (nat n) src) (pipes s (f_pipe x))
             in Inr (r, set_pipe (f_pipe x) wk p s)
         | FD_INODE \<Rightarrow>
             and_then (fwrite_loop D f src 0 n s) (\<lambda>(i, s). Inr (Wrote (if i = n then n else - 1), s))
         | FD_NONE \<Rightarrow> Inl ''filewrite'')"

section \<open>Allocating a pipe\<close>

text \<open>The label \<^verbatim>\<open>bad\<close>, reached before a page was allocated.\<close>

definition pipealloc_bad :: "nat option \<Rightarrow> nat option \<Rightarrow> 'a filest_scheme \<Rightarrow> ((nat \<times> nat) option \<times> 'a filest_scheme) kres" where
  "pipealloc_bad f0 f1 s =
     and_then (case f0 of None \<Rightarrow> Inr s | Some f \<Rightarrow> fileclose f s) (\<lambda>s.
     and_then (case f1 of None \<Rightarrow> Inr s | Some f \<Rightarrow> fileclose f s) (\<lambda>s. Inr (None, s)))"

text \<open>The data of the new pipe are the bytes of the page behind the lock, which takes 52.\<close>

definition pipealloc :: "'a filest_scheme \<Rightarrow> ((nat \<times> nat) option \<times> 'a filest_scheme) kres" where
  "pipealloc s =
     (case filealloc s of
        (None, s) \<Rightarrow> pipealloc_bad None None s
      | (Some f0, s) \<Rightarrow>
          (case filealloc s of
             (None, s) \<Rightarrow> pipealloc_bad (Some f0) None s
           | (Some f1, s) \<Rightarrow>
               let (a, k) = kalloc (kmem s);
                   s = s\<lparr>kmem := k\<rparr>
               in if a = 0 then pipealloc_bad (Some f0) (Some f1) s
                  else
                    let s = set_pipe a [] (new_pipe (\<lambda>j. fbyte (frame k a) (52 + j))) s;
                        s = upd_file f0 (\<lambda>x. x\<lparr>f_type := FD_PIPE, f_readable := True, f_writable := False, f_pipe := a\<rparr>) s;
                        s = upd_file f1 (\<lambda>x. x\<lparr>f_type := FD_PIPE, f_readable := False, f_writable := True, f_pipe := a\<rparr>) s
                    in Inr (Some (f0, f1), s)))"

end
