(* ===== verification/Sysfile.thy ===== *)
theory Sysfile
  imports File Syscall
begin

text \<open>
  The file system calls of \<^verbatim>\<open>sysfile.c\<close>. The arguments of a call are what \<^verbatim>\<open>argint\<close>,
  \<^verbatim>\<open>argptr\<close> and \<^verbatim>\<open>argstr\<close> (theory \<open>Syscall\<close>) fetch: \<open>None\<close> is a fetch that failed, a string is the list
  of its characters, and for \<^verbatim>\<open>sys_write\<close> the pointer is the list of the \<open>n\<close> bytes it points to.
  What a call stores through a pointer is part of its result.

  A local array \<^verbatim>\<open>name\<close> is taken to start with zeros; \<^verbatim>\<open>skipelem\<close> fills it up or ends the name with
  a zero before it is read.
\<close>

section \<open>Descriptors\<close>

text \<open>The descriptor and the file.\<close>

definition argfd :: "u32 option \<Rightarrow> 'a filest_scheme \<Rightarrow> (nat \<times> nat) option" where
  "argfd a s =
     (case a of
        None \<Rightarrow> None
      | Some fd \<Rightarrow>
          if sint fd < 0 \<or> sint fd \<ge> int NOFILE then None
          else map_option (Pair (unat fd)) (ofile s (unat fd)))"

definition fdalloc :: "nat \<Rightarrow> 'a filest_scheme \<Rightarrow> int \<times> 'a filest_scheme" where
  "fdalloc f s =
     (case find (\<lambda>fd. ofile s fd = None) [0..<NOFILE] of
        Some fd \<Rightarrow> (int fd, s\<lparr>ofile := (ofile s)(fd := Some f)\<rparr>)
      | None \<Rightarrow> (- 1, s))"

definition sys_dup :: "u32 option \<Rightarrow> 'a filest_scheme \<Rightarrow> (int \<times> 'a filest_scheme) kres" where
  "sys_dup a0 s =
     (case argfd a0 s of
        None \<Rightarrow> Inr (- 1, s)
      | Some (_, f) \<Rightarrow>
          let (fd, s) = fdalloc f s
          in if fd < 0 then Inr (- 1, s) else and_then (filedup f s) (\<lambda>s. Inr (fd, s)))"

definition sys_read :: "'a filest_scheme devops \<Rightarrow> u32 option \<Rightarrow> u32 option \<Rightarrow> u32 option \<Rightarrow> 'a filest_scheme \<Rightarrow> (was_read \<times> 'a filest_scheme) kres" where
  "sys_read D a0 p n s =
     (case (argfd a0 s, n, p) of
        (Some (_, f), Some n, Some _) \<Rightarrow> fileread D f (sint n) s
      | _ \<Rightarrow> Inr (Read_bytes (- 1) [], s))"

definition sys_write :: "'a filest_scheme devops \<Rightarrow> u32 option \<Rightarrow> u8 list option \<Rightarrow> u32 option \<Rightarrow> 'a filest_scheme \<Rightarrow> (written \<times> 'a filest_scheme) kres" where
  "sys_write D a0 p n s =
     (case (argfd a0 s, n, p) of
        (Some (_, f), Some n, Some bs) \<Rightarrow> filewrite D f bs (sint n) s
      | _ \<Rightarrow> Inr (Wrote (- 1), s))"

definition sys_close :: "u32 option \<Rightarrow> 'a filest_scheme \<Rightarrow> (int \<times> 'a filest_scheme) kres" where
  "sys_close a0 s =
     (case argfd a0 s of
        None \<Rightarrow> Inr (- 1, s)
      | Some (fd, f) \<Rightarrow>
          let s = s\<lparr>ofile := (ofile s)(fd := None)\<rparr> in and_then (fileclose f s) (\<lambda>s. Inr (0, s)))"

definition sys_fstat :: "u32 option \<Rightarrow> u32 option \<Rightarrow> 'a filest_scheme \<Rightarrow> (stat option \<times> 'a filest_scheme) kres" where
  "sys_fstat a0 st s =
     (case (argfd a0 s, st) of (Some (_, f), Some _) \<Rightarrow> filestat f s | _ \<Rightarrow> Inr (None, s))"

section \<open>Links\<close>

definition link_bad :: "nat \<Rightarrow> 'a filest_scheme \<Rightarrow> (int \<times> 'a filest_scheme) kres" where
  "link_bad ip s =
     and_then (ilock ip s) (\<lambda>s.
     and_then (iupdate ip (upd_inode ip (\<lambda>x. x\<lparr>i_nlink := i_nlink x - 1\<rparr>) s)) (\<lambda>s.
     and_then (iunlockput ip s) (\<lambda>s.
     and_then (end_op s) (\<lambda>s. Inr (- 1, s)))))"

definition sys_link :: "'a filest_scheme devops \<Rightarrow> u8 list option \<Rightarrow> u8 list option \<Rightarrow> 'a filest_scheme \<Rightarrow> (int \<times> 'a filest_scheme) kres" where
  "sys_link D old new s =
     (case (old, new) of
        (Some old, Some new) \<Rightarrow>
          and_then (begin_op s) (\<lambda>s.
          and_then (namei D old s) (\<lambda>(r, s).
          case r of
            None \<Rightarrow> and_then (end_op s) (\<lambda>s. Inr (- 1, s))
          | Some ip \<Rightarrow>
              and_then (ilock ip s) (\<lambda>s.
              if i_type (icache s ip) = T_DIR
              then and_then (iunlockput ip s) (\<lambda>s. and_then (end_op s) (\<lambda>s. Inr (- 1, s)))
              else
                and_then (iupdate ip (upd_inode ip (\<lambda>x. x\<lparr>i_nlink := i_nlink x + 1\<rparr>) s)) (\<lambda>s.
                and_then (iunlock ip s) (\<lambda>s.
                and_then (nameiparent D new (\<lambda>_. 0) s) (\<lambda>((r, name), s).
                case r of
                  None \<Rightarrow> link_bad ip s
                | Some dp \<Rightarrow>
                    and_then (ilock dp s) (\<lambda>s.
                    and_then (if i_dev (icache s dp) \<noteq> i_dev (icache s ip) then Inr (- 1, s)
                              else dirlink D dp name (i_inum (icache s ip)) s) (\<lambda>(r, s).
                    if r < 0 then and_then (iunlockput dp s) (link_bad ip)
                    else
                      and_then (iunlockput dp s) (\<lambda>s.
                      and_then (iput ip s) (\<lambda>s.
                      and_then (end_op s) (\<lambda>s. Inr (0, s))))))))))))
      | _ \<Rightarrow> Inr (- 1, s))"

text \<open>
  The loop of \<^verbatim>\<open>isdirempty\<close>: \<^verbatim>\<open>off\<close> is an \<^verbatim>\<open>int\<close>, compared as unsigned.
\<close>

function empty_from :: "'a filest_scheme devops \<Rightarrow> nat \<Rightarrow> u32 \<Rightarrow> 'a filest_scheme \<Rightarrow> (bool \<times> 'a filest_scheme) kres" where
  "empty_from D dp off s =
     (if off < i_size (icache s dp)
      then and_then (readi D dp off 16 s) (\<lambda>((n, de), s).
             if n \<noteq> 16 then Inl ''isdirempty: readi''
             else if de_inum de \<noteq> 0 then Inr (False, s)
             else if off + 16 > off then empty_from D dp (off + 16) s else Inl ''diverges'')
      else Inr (True, s))"
  by pat_completeness auto
termination by (relation "measure (\<lambda>(_, _, off, _). room off)") (auto simp: room_less)

declare empty_from.simps [simp del]

definition isdirempty :: "'a filest_scheme devops \<Rightarrow> nat \<Rightarrow> 'a filest_scheme \<Rightarrow> (bool \<times> 'a filest_scheme) kres" where
  "isdirempty D dp s = empty_from D dp (2 * 16) s"

definition DOT :: bytes where "DOT = bytes_of [46]"
definition DOTDOT :: bytes where "DOTDOT = bytes_of [46, 46]"

definition unlink_bad :: "nat \<Rightarrow> 'a filest_scheme \<Rightarrow> (int \<times> 'a filest_scheme) kres" where
  "unlink_bad dp s = and_then (iunlockput dp s) (\<lambda>s. and_then (end_op s) (\<lambda>s. Inr (- 1, s)))"

definition sys_unlink :: "'a filest_scheme devops \<Rightarrow> u8 list option \<Rightarrow> 'a filest_scheme \<Rightarrow> (int \<times> 'a filest_scheme) kres" where
  "sys_unlink D path s =
     (case path of
        None \<Rightarrow> Inr (- 1, s)
      | Some path \<Rightarrow>
          and_then (begin_op s) (\<lambda>s.
          and_then (nameiparent D path (\<lambda>_. 0) s) (\<lambda>((r, name), s).
          case r of
            None \<Rightarrow> and_then (end_op s) (\<lambda>s. Inr (- 1, s))
          | Some dp \<Rightarrow>
              and_then (ilock dp s) (\<lambda>s.
              if namecmp name DOT = 0 \<or> namecmp name DOTDOT = 0 then unlink_bad dp s
              else
                and_then (dirlookup D dp name s) (\<lambda>(r, s).
                case r of
                  None \<Rightarrow> unlink_bad dp s
                | Some (off, ip) \<Rightarrow>
                    and_then (ilock ip s) (\<lambda>s.
                    if sint (i_nlink (icache s ip)) < 1 then Inl ''unlink: nlink < 1''
                    else
                      and_then (if i_type (icache s ip) = T_DIR then isdirempty D ip s else Inr (True, s)) (\<lambda>(e, s).
                      if \<not> e then and_then (iunlockput ip s) (unlink_bad dp)
                      else
                        and_then (writei D dp (replicate 16 0) off 16 s) (\<lambda>(n, s).
                        if n \<noteq> 16 then Inl ''unlink: writei''
                        else
                          and_then (if i_type (icache s ip) = T_DIR
                                    then iupdate dp (upd_inode dp (\<lambda>x. x\<lparr>i_nlink := i_nlink x - 1\<rparr>) s)
                                    else Inr s) (\<lambda>s.
                          and_then (iunlockput dp s) (\<lambda>s.
                          and_then (iupdate ip (upd_inode ip (\<lambda>x. x\<lparr>i_nlink := i_nlink x - 1\<rparr>) s)) (\<lambda>s.
                          and_then (iunlockput ip s) (\<lambda>s.
                          and_then (end_op s) (\<lambda>s. Inr (0, s))))))))))))))"

section \<open>Creating and opening\<close>

definition create :: "'a filest_scheme devops \<Rightarrow> u8 list \<Rightarrow> u16 \<Rightarrow> u16 \<Rightarrow> u16 \<Rightarrow> 'a filest_scheme \<Rightarrow> (nat option \<times> 'a filest_scheme) kres" where
  "create D path type major minor s =
     and_then (nameiparent D path (\<lambda>_. 0) s) (\<lambda>((r, name), s).
     case r of
       None \<Rightarrow> Inr (None, s)
     | Some dp \<Rightarrow>
         and_then (ilock dp s) (\<lambda>s.
         and_then (dirlookup D dp name s) (\<lambda>(r, s).
         case r of
           Some (_, ip) \<Rightarrow>
             and_then (iunlockput dp s) (\<lambda>s.
             and_then (ilock ip s) (\<lambda>s.
             if type = T_FILE \<and> i_type (icache s ip) = T_FILE then Inr (Some ip, s)
             else and_then (iunlockput ip s) (\<lambda>s. Inr (None, s))))
         | None \<Rightarrow>
             and_then (ialloc (i_dev (icache s dp)) type s) (\<lambda>(ip, s).
             and_then (ilock ip s) (\<lambda>s.
             and_then (iupdate ip (upd_inode ip (\<lambda>x. x\<lparr>i_major := major, i_minor := minor, i_nlink := 1\<rparr>) s)) (\<lambda>s.
             and_then (if type = T_DIR
                       then
                         and_then (iupdate dp (upd_inode dp (\<lambda>x. x\<lparr>i_nlink := i_nlink x + 1\<rparr>) s)) (\<lambda>s.
                         and_then (dirlink D ip DOT (i_inum (icache s ip)) s) (\<lambda>(r, s).
                         if r < 0 then Inl ''create dots''
                         else
                           and_then (dirlink D ip DOTDOT (i_inum (icache s dp)) s) (\<lambda>(r, s).
                           if r < 0 then Inl ''create dots'' else Inr s)))
                       else Inr s) (\<lambda>s.
             and_then (dirlink D dp name (i_inum (icache s ip)) s) (\<lambda>(r, s).
             if r < 0 then Inl ''create: dirlink''
             else and_then (iunlockput dp s) (\<lambda>s. Inr (Some ip, s))))))))))"

definition O_RDONLY :: u32 where "O_RDONLY = 0"
definition O_WRONLY :: u32 where "O_WRONLY = 1"
definition O_RDWR :: u32 where "O_RDWR = 2"
definition O_CREATE :: u32 where "O_CREATE = 0x200"

text \<open>The end of \<^verbatim>\<open>sys_open\<close>, with the inode \<open>ip\<close> locked.\<close>

definition open_file :: "nat \<Rightarrow> u32 \<Rightarrow> 'a filest_scheme \<Rightarrow> (int \<times> 'a filest_scheme) kres" where
  "open_file ip omode s =
     (let (r, s) = filealloc s;
          (fd, s) = (case r of None \<Rightarrow> (- 1, s) | Some f \<Rightarrow> fdalloc f s)
      in if r = None \<or> fd < 0
         then
           and_then (case r of None \<Rightarrow> Inr s | Some f \<Rightarrow> fileclose f s) (\<lambda>s.
           and_then (iunlockput ip s) (\<lambda>s.
           and_then (end_op s) (\<lambda>s. Inr (- 1, s))))
         else
           and_then (iunlock ip s) (\<lambda>s.
           and_then (end_op s) (\<lambda>s.
           Inr (fd, upd_file (the r) (\<lambda>x. x\<lparr>f_type := FD_INODE, f_ip := ip, f_off := 0,
                      f_readable := (omode AND O_WRONLY = 0),
                      f_writable := (omode AND O_WRONLY \<noteq> 0 \<or> omode AND O_RDWR \<noteq> 0)\<rparr>) s))))"

definition sys_open :: "'a filest_scheme devops \<Rightarrow> u8 list option \<Rightarrow> u32 option \<Rightarrow> 'a filest_scheme \<Rightarrow> (int \<times> 'a filest_scheme) kres" where
  "sys_open D path omode s =
     (case (path, omode) of
        (Some path, Some omode) \<Rightarrow>
          and_then (begin_op s) (\<lambda>s.
          if omode AND O_CREATE \<noteq> 0
          then
            and_then (create D path T_FILE 0 0 s) (\<lambda>(r, s).
            case r of
              None \<Rightarrow> and_then (end_op s) (\<lambda>s. Inr (- 1, s))
            | Some ip \<Rightarrow> open_file ip omode s)
          else
            and_then (namei D path s) (\<lambda>(r, s).
            case r of
              None \<Rightarrow> and_then (end_op s) (\<lambda>s. Inr (- 1, s))
            | Some ip \<Rightarrow>
                and_then (ilock ip s) (\<lambda>s.
                if i_type (icache s ip) = T_DIR \<and> omode \<noteq> O_RDONLY
                then and_then (iunlockput ip s) (\<lambda>s. and_then (end_op s) (\<lambda>s. Inr (- 1, s)))
                else open_file ip omode s)))
      | _ \<Rightarrow> Inr (- 1, s))"

text \<open>The common end of \<^verbatim>\<open>sys_mkdir\<close> and \<^verbatim>\<open>sys_mknod\<close>.\<close>

definition made :: "nat option \<times> 'a filest_scheme \<Rightarrow> (int \<times> 'a filest_scheme) kres" where
  "made = (\<lambda>(r, s). case r of
       None \<Rightarrow> and_then (end_op s) (\<lambda>s. Inr (- 1, s))
     | Some ip \<Rightarrow> and_then (iunlockput ip s) (\<lambda>s. and_then (end_op s) (\<lambda>s. Inr (0, s))))"

definition sys_mkdir :: "'a filest_scheme devops \<Rightarrow> u8 list option \<Rightarrow> 'a filest_scheme \<Rightarrow> (int \<times> 'a filest_scheme) kres" where
  "sys_mkdir D path s =
     and_then (begin_op s) (\<lambda>s.
     and_then (case path of None \<Rightarrow> Inr (None, s) | Some path \<Rightarrow> create D path T_DIR 0 0 s) made)"

text \<open>\<^verbatim>\<open>major\<close> and \<^verbatim>\<open>minor\<close> are cut to \<^verbatim>\<open>short\<close>.\<close>

definition sys_mknod :: "'a filest_scheme devops \<Rightarrow> u8 list option \<Rightarrow> u32 option \<Rightarrow> u32 option \<Rightarrow> 'a filest_scheme \<Rightarrow> (int \<times> 'a filest_scheme) kres" where
  "sys_mknod D path major minor s =
     and_then (begin_op s) (\<lambda>s.
     and_then (case (path, major, minor) of
                 (Some path, Some major, Some minor) \<Rightarrow> create D path T_DEV (ucast major) (ucast minor) s
               | _ \<Rightarrow> Inr (None, s)) made)"

definition sys_chdir :: "'a filest_scheme devops \<Rightarrow> u8 list option \<Rightarrow> 'a filest_scheme \<Rightarrow> (int \<times> 'a filest_scheme) kres" where
  "sys_chdir D path s =
     and_then (begin_op s) (\<lambda>s.
     and_then (case path of None \<Rightarrow> Inr (None, s) | Some path \<Rightarrow> namei D path s) (\<lambda>(r, s).
     case r of
       None \<Rightarrow> and_then (end_op s) (\<lambda>s. Inr (- 1, s))
     | Some ip \<Rightarrow>
         and_then (ilock ip s) (\<lambda>s.
         if i_type (icache s ip) \<noteq> T_DIR
         then and_then (iunlockput ip s) (\<lambda>s. and_then (end_op s) (\<lambda>s. Inr (- 1, s)))
         else
           and_then (iunlock ip s) (\<lambda>s.
           and_then (iput (cwd s) s) (\<lambda>s.
           and_then (end_op s) (\<lambda>s. Inr (0, s\<lparr>cwd := ip\<rparr>)))))))"

definition sys_pipe :: "u32 option \<Rightarrow> 'a filest_scheme \<Rightarrow> ((int \<times> int) option \<times> 'a filest_scheme) kres" where
  "sys_pipe p s =
     (case p of
        None \<Rightarrow> Inr (None, s)
      | Some _ \<Rightarrow>
          and_then (pipealloc s) (\<lambda>(r, s).
          case r of
            None \<Rightarrow> Inr (None, s)
          | Some (rfile, wfile) \<Rightarrow>
              let (fd0, s) = fdalloc rfile s;
                  (fd1, s) = (if fd0 < 0 then (- 1, s) else fdalloc wfile s)
              in if fd0 < 0 \<or> fd1 < 0
                 then
                   let s = (if fd0 \<ge> 0 then s\<lparr>ofile := (ofile s)(nat fd0 := None)\<rparr> else s)
                   in and_then (fileclose rfile s) (\<lambda>s. and_then (fileclose wfile s) (\<lambda>s. Inr (None, s)))
                 else Inr (Some (fd0, fd1), s)))"

section \<open>The arguments of exec\<close>

definition MAXARG :: nat where "MAXARG = 32"

text \<open>
  The loop of \<^verbatim>\<open>sys_exec\<close> from argument \<open>i\<close> on: the strings of \<^verbatim>\<open>argv\<close>, or \<open>None\<close> for the result -1.
\<close>

function exec_args :: "nat \<Rightarrow> u32 \<Rightarrow> nat \<Rightarrow> 'a vkst \<Rightarrow> u8 list list option kres" where
  "exec_args c uargv i s =
     (if i \<ge> MAXARG then Inr None
      else and_then (fetchint c (uargv + 4 * of_nat i) s) (\<lambda>r. case r of
        None \<Rightarrow> Inr None
      | Some uarg \<Rightarrow>
          if uarg = 0 then Inr (Some [])
          else and_then (fetchstr c uarg s) (\<lambda>r. case r of
            None \<Rightarrow> Inr None
          | Some (_, a) \<Rightarrow> and_then (exec_args c uargv (i + 1) s) (\<lambda>r. Inr (map_option ((#) a) r)))))"
  by pat_completeness auto
termination by (relation "measure (\<lambda>(_, _, i, _). MAXARG - i)") auto

declare exec_args.simps [simp del]

end
