(* ===== verification/Exec.thy ===== *)
theory Exec
  imports Sysfile
begin

text \<open>
  Loading a program (\<^verbatim>\<open>exec.c\<close>): the new address space, filled from the file and with the
  arguments on its stack. The part of \<^verbatim>\<open>exec\<close> that commits to the new image changes the process
  and is \<open>exec_commit\<close> of theory \<open>Proc\<close>. A header read from the file is the list of its bytes.
\<close>

section \<open>The format of an executable\<close>

definition ELF_MAGIC :: u32 where "ELF_MAGIC = 0x464C457F"
definition ELF_PROG_LOAD :: u32 where "ELF_PROG_LOAD = 1"

text \<open>\<^verbatim>\<open>struct elfhdr\<close> takes 52 bytes and \<^verbatim>\<open>struct proghdr\<close> 32.\<close>

record elfhdr =
  e_magic :: u32
  e_entry :: u32
  e_phoff :: u32
  e_phnum :: u16

record proghdr =
  ph_type :: u32
  ph_off :: u32
  ph_vaddr :: u32
  ph_filesz :: u32
  ph_memsz :: u32

definition elfhdr_of :: "u8 list \<Rightarrow> elfhdr" where
  "elfhdr_of bs = (let d = bytes_of bs
     in \<lparr>e_magic = get32 d 0, e_entry = get32 d 24, e_phoff = get32 d 28, e_phnum = get16 d 44\<rparr>)"

definition proghdr_of :: "u8 list \<Rightarrow> proghdr" where
  "proghdr_of bs = (let d = bytes_of bs
     in \<lparr>ph_type = get32 d 0, ph_off = get32 d 4, ph_vaddr = get32 d 8, ph_filesz = get32 d 16, ph_memsz = get32 d 20\<rparr>)"

section \<open>Loading\<close>

text \<open>An operation on memory, in the state of the file layer.\<close>

definition on_mem :: "(vst \<Rightarrow> ('r \<times> vst) kres) \<Rightarrow> 'a filest_scheme \<Rightarrow> ('r \<times> 'a filest_scheme) kres" where
  "on_mem f s = and_then (f (kmem s)) (\<lambda>(r, k). Inr (r, s\<lparr>kmem := k\<rparr>))"

text \<open>
  The loop over the program headers, \<open>n\<close> of them from offset \<open>off\<close> on; \<open>None\<close> is a jump to \<^verbatim>\<open>bad\<close>.
\<close>

fun load_segs :: "'a filest_scheme devops \<Rightarrow> nat \<Rightarrow> u32 \<Rightarrow> nat \<Rightarrow> u32 \<Rightarrow> u32 \<Rightarrow> 'a filest_scheme \<Rightarrow> (u32 option \<times> 'a filest_scheme) kres" where
  "load_segs D ip pgdir 0 off sz s = Inr (Some sz, s)"
| "load_segs D ip pgdir (Suc n) off sz s =
     and_then (readi D ip off 32 s) (\<lambda>((r, bs), s).
     let ph = proghdr_of bs
     in if r \<noteq> 32 then Inr (None, s)
        else if ph_type ph \<noteq> ELF_PROG_LOAD then load_segs D ip pgdir n (off + 32) sz s
        else if ph_memsz ph < ph_filesz ph then Inr (None, s)
        else if ph_vaddr ph + ph_memsz ph < ph_vaddr ph then Inr (None, s)
        else
          and_then (on_mem (allocuvm pgdir sz (ph_vaddr ph + ph_memsz ph)) s) (\<lambda>(sz, s).
          if sz = 0 then Inr (None, s)
          else if ph_vaddr ph mod PGSIZE \<noteq> 0 then Inr (None, s)
          else
            and_then (loaduvm (readi D ip) pgdir (ph_vaddr ph) (ph_off ph) (ph_filesz ph) (s, kmem s)) (\<lambda>(r, s, k).
            let s = s\<lparr>kmem := k\<rparr>
            in if r < 0 then Inr (None, s) else load_segs D ip pgdir n (off + 32) sz s)))"

text \<open>
  Pushing the argument strings: the new stack pointer and the pointers to the strings.
\<close>

fun push_args :: "u32 \<Rightarrow> nat \<Rightarrow> u32 \<Rightarrow> u8 list list \<Rightarrow> 'a vst_scheme \<Rightarrow> ((u32 \<times> u32 list) option \<times> 'a vst_scheme) kres" where
  "push_args pgdir argc sp [] k = Inr (Some (sp, []), k)"
| "push_args pgdir argc sp (a # as) k =
     (if argc \<ge> MAXARG then Inr (None, k)
      else
        let sp = (sp - (of_nat (length a) + 1)) AND NOT 3
        in and_then (copyout pgdir sp (a @ [0]) k) (\<lambda>(r, k).
           if r < 0 then Inr (None, k)
           else and_then (push_args pgdir (argc + 1) sp as k) (\<lambda>(r, k).
                Inr (map_option (\<lambda>(sp', ps). (sp', sp # ps)) r, k))))"

definition word_bytes :: "u32 \<Rightarrow> u8 list" where
  "word_bytes w = map (get_byte w) [0..<4]"

text \<open>The array \<^verbatim>\<open>ustack\<close>.\<close>

definition ustack :: "u32 \<Rightarrow> u32 list \<Rightarrow> u32 list" where
  "ustack sp ps = [0xFFFFFFFF, of_nat (length ps), sp - (of_nat (length ps) + 1) * 4] @ ps @ [0]"

text \<open>The stack of the new program (lines 63 to 88): its size and its stack pointer.\<close>

definition make_stack :: "u32 \<Rightarrow> u32 \<Rightarrow> u8 list list \<Rightarrow> 'a vst_scheme \<Rightarrow> ((u32 \<times> u32) option \<times> 'a vst_scheme) kres" where
  "make_stack pgdir sz argv k =
     (let sz = PGROUNDUP sz
      in and_then (allocuvm pgdir sz (sz + 2 * PGSIZE) k) (\<lambda>(sz, k).
         if sz = 0 then Inr (None, k)
         else
           and_then (clearpteu pgdir (sz - 2 * PGSIZE) k) (\<lambda>k.
           and_then (push_args pgdir 0 sz argv k) (\<lambda>(r, k).
           case r of
             None \<Rightarrow> Inr (None, k)
           | Some (sp, ps) \<Rightarrow>
               let us = ustack sp ps;
                   sp = sp - (3 + of_nat (length ps) + 1) * 4
               in and_then (copyout pgdir sp (concat (map word_bytes us)) k) (\<lambda>(r, k).
                  if r < 0 then Inr (None, k) else Inr (Some (sz, sp), k))))))"

text \<open>The label \<^verbatim>\<open>bad\<close>.\<close>

definition exec_bad :: "u32 \<Rightarrow> nat option \<Rightarrow> 'a filest_scheme \<Rightarrow> ('r option \<times> 'a filest_scheme) kres" where
  "exec_bad pgdir ip s =
     and_then (if pgdir \<noteq> 0 then and_then (freevm pgdir (kmem s)) (\<lambda>k. Inr (s\<lparr>kmem := k\<rparr>)) else Inr s) (\<lambda>s.
     and_then (case ip of None \<Rightarrow> Inr s | Some ip \<Rightarrow> and_then (iunlockput ip s) end_op) (\<lambda>s.
     Inr (None, s)))"

text \<open>
  \<^verbatim>\<open>exec\<close> up to line 88: the page directory, the size, the entry point and the stack pointer that
  \<open>exec_commit\<close> installs.
\<close>

definition exec_image :: "'a filest_scheme devops \<Rightarrow> u8 list \<Rightarrow> u8 list list \<Rightarrow> 'a filest_scheme \<Rightarrow>
    ((u32 \<times> u32 \<times> u32 \<times> u32) option \<times> 'a filest_scheme) kres" where
  "exec_image D path argv s =
     and_then (begin_op s) (\<lambda>s.
     and_then (namei D path s) (\<lambda>(r, s).
     case r of
       None \<Rightarrow>
         and_then (end_op s) (\<lambda>s.
         Inr (None, s\<lparr>kmem := (kmem s)\<lparr>vm_out := vm_out (kmem s) @ ''exec: fail\<newline>''\<rparr>\<rparr>))
     | Some ip \<Rightarrow>
         and_then (ilock ip s) (\<lambda>s.
         and_then (readi D ip 0 52 s) (\<lambda>((r, bs), s).
         let elf = elfhdr_of bs
         in if r \<noteq> 52 then exec_bad 0 (Some ip) s
            else if e_magic elf \<noteq> ELF_MAGIC then exec_bad 0 (Some ip) s
            else
              and_then (on_mem setupkvm s) (\<lambda>(pgdir, s).
              if pgdir = 0 then exec_bad 0 (Some ip) s
              else
                and_then (load_segs D ip pgdir (unat (e_phnum elf)) (e_phoff elf) 0 s) (\<lambda>(r, s).
                case r of
                  None \<Rightarrow> exec_bad pgdir (Some ip) s
                | Some sz \<Rightarrow>
                    and_then (iunlockput ip s) (\<lambda>s.
                    and_then (end_op s) (\<lambda>s.
                    and_then (on_mem (make_stack pgdir sz argv) s) (\<lambda>(r, s).
                    case r of
                      None \<Rightarrow> exec_bad pgdir None s
                    | Some (sz, sp) \<Rightarrow> Inr (Some (pgdir, sz, e_entry elf, sp), s))))))))))"

end
