(* ===== verification/Console.thy ===== *)
theory Console
  imports Ring File
begin

text \<open>
  The console (\<^verbatim>\<open>console.c\<close>) and the keyboard (\<^verbatim>\<open>kbd.c\<close>, \<^verbatim>\<open>kbd.h\<close>): the screen, the line editor
  that the interrupt handler is, and the device functions that \<^verbatim>\<open>consoleinit\<close> enters into \<^verbatim>\<open>devsw\<close>.

  The registers of the hardware are part of the state: the cursor position and the display
  memory. \<open>uart\<close> collects the bytes that are handed to \<^verbatim>\<open>uartputc\<close>. What the keyboard controller delivers is an argument.
\<close>

section \<open>The screen\<close>

record consst =
  crt :: "int \<Rightarrow> u16"
  crt_pos :: u16
  uart :: "u8 list"
  panicked :: bool
  in_buf :: "nat \<Rightarrow> u8"
  in_r :: u32
  in_w :: u32
  in_e :: u32
  in_wakeups :: nat

definition BACKSPACE :: int where "BACKSPACE = 0x100"
definition INPUT_BUF :: nat where "INPUT_BUF = 128"

text \<open>Scrolling up by one line.\<close>

definition scroll :: "int \<Rightarrow> (int \<Rightarrow> u16) \<Rightarrow> int \<Rightarrow> u16" where
  "scroll pos m = (\<lambda>i. if pos \<le> i \<and> i < 24 * 80 then 0 else if 0 \<le> i \<and> i < 23 * 80 then m (i + 80) else m i)"

definition cgaputc :: "int \<Rightarrow> consst \<Rightarrow> consst kres" where
  "cgaputc c s =
     (let pos = uint (crt_pos s);
          (pos, m) =
            (if c = 10 then (pos + (80 - pos mod 80), crt s)
             else if c = BACKSPACE then (if pos > 0 then pos - 1 else pos, crt s)
             else (pos + 1, (crt s)(pos := (of_int c AND 0xFF) OR 0x0700)))
      in if pos < 0 \<or> pos > 25 * 80 then Inl ''pos under/overflow''
         else
           let (pos, m) = (if pos div 80 \<ge> 24 then (pos - 80, scroll (pos - 80) m) else (pos, m))
           in Inr (s\<lparr>crt_pos := of_int pos, crt := m(pos := 0x20 OR 0x0700)\<rparr>))"

definition to_uart :: "u8 \<Rightarrow> consst \<Rightarrow> consst" where
  "to_uart b s = s\<lparr>uart := uart s @ [b]\<rparr>"

definition consputc :: "int \<Rightarrow> consst \<Rightarrow> consst kres" where
  "consputc c s =
     (if panicked s then Inl ''halt''
      else if c = BACKSPACE then cgaputc c (to_uart 8 (to_uart 32 (to_uart 8 s)))
      else cgaputc c (to_uart (of_int c) s))"

section \<open>The line editor\<close>

text \<open>Storing a character at the edit index and taking one at the read index.\<close>

definition in_put :: "u8 \<Rightarrow> consst \<Rightarrow> consst" where
  "in_put b s = s\<lparr>in_buf := (in_buf s)(unat (in_e s) mod INPUT_BUF := b), in_e := in_e s + 1\<rparr>"

definition in_get :: "consst \<Rightarrow> u8 \<times> consst" where
  "in_get s = (in_buf s (unat (in_r s) mod INPUT_BUF), s\<lparr>in_r := in_r s + 1\<rparr>)"

text \<open>The loop of control-U.\<close>

function kill_line :: "consst \<Rightarrow> consst kres" where
  "kill_line s =
     (if in_e s \<noteq> in_w s \<and> in_buf s (unat (in_e s - 1) mod INPUT_BUF) \<noteq> 10
      then and_then (consputc BACKSPACE (s\<lparr>in_e := in_e s - 1\<rparr>)) (\<lambda>s.
           kill_line s)
      else Inr s)"
  by pat_completeness auto

lemma cgaputc_input:
  assumes "cgaputc c s = Inr t"
  shows "in_e t = in_e s" "in_w t = in_w s" "in_r t = in_r s" "in_buf t = in_buf s" "in_wakeups t = in_wakeups s" "panicked t = panicked s"
  using assms by (auto simp: cgaputc_def Let_def split: prod.splits if_splits)

lemma consputc_input:
  assumes "consputc c s = Inr t"
  shows "in_e t = in_e s" "in_w t = in_w s" "in_r t = in_r s" "in_buf t = in_buf s" "in_wakeups t = in_wakeups s" "panicked t = panicked s"
  using assms by (auto simp: consputc_def to_uart_def split: if_splits dest: cgaputc_input)

termination kill_line
proof (relation "measure (\<lambda>s. unat (in_e s - in_w s))")
  fix s x assume a: "in_e s \<noteq> in_w s \<and> in_buf s (unat (in_e s - 1) mod INPUT_BUF) \<noteq> 10" "consputc BACKSPACE (s\<lparr>in_e := in_e s - 1\<rparr>) = Inr x"
  have "unat (in_e s - in_w s) = unat (in_e s - in_w s - 1) + 1" using a(1) by (intro unat_pred) simp
  moreover have "in_e x - in_w x = in_e s - in_w s - 1" using consputc_input(1,2) [OF a(2)] by simp
  ultimately show "(x, s) \<in> measure (\<lambda>s. unat (in_e s - in_w s))" by simp
qed simp

declare kill_line.simps [simp del]

text \<open>
  One turn of the loop of \<^verbatim>\<open>consoleintr\<close>; the first part of the result is \<^verbatim>\<open>doprocdump\<close>.
\<close>

definition intr_char :: "int \<Rightarrow> bool \<times> consst \<Rightarrow> (bool \<times> consst) kres" where
  "intr_char c st =
     (let (dump, s) = st
      in if c = 0x10 then Inr (True, s)
         else if c = 0x15 then and_then (kill_line s) (\<lambda>s. Inr (dump, s))
         else if c = 8 \<or> c = 0x7F
         then (if in_e s \<noteq> in_w s
               then and_then (consputc BACKSPACE (s\<lparr>in_e := in_e s - 1\<rparr>)) (\<lambda>s. Inr (dump, s))
               else Inr (dump, s))
         else if c \<noteq> 0 \<and> in_e s - in_r s < of_nat INPUT_BUF
         then
           let c = (if c = 13 then 10 else c)
           in and_then (consputc c (in_put (of_int c) s)) (\<lambda>s.
              Inr (dump, if c = 10 \<or> c = 4 \<or> in_e s = in_r s + of_nat INPUT_BUF
                         then s\<lparr>in_w := in_e s, in_wakeups := in_wakeups s + 1\<rparr> else s))
         else Inr (dump, s))"

text \<open>The characters that \<^verbatim>\<open>getc\<close> delivers before it returns a negative number.\<close>

definition consoleintr :: "int list \<Rightarrow> consst \<Rightarrow> (bool \<times> consst) kres" where
  "consoleintr cs s = foldk intr_char cs (False, s)"

section \<open>Reading and writing\<close>

text \<open>How a read ends: it returns, it was killed, or the input is used up and it goes to sleep.\<close>

datatype cread = Line | Killed | Waits

fun read_chars :: "bool \<Rightarrow> nat \<Rightarrow> nat \<Rightarrow> consst \<Rightarrow> cread \<times> u8 list \<times> consst" where
  "read_chars killed target 0 s = (Line, [], s)"
| "read_chars killed target (Suc n) s =
     (if in_r s = in_w s then (if killed then (Killed, [], s) else (Waits, [], s))
      else
        let (c, s) = in_get s
        in if c = 4 then (Line, [], if Suc n < target then s\<lparr>in_r := in_r s - 1\<rparr> else s)
           else if c = 10 then (Line, [c], s)
           else let (x, cs, s) = read_chars killed target n s in (x, c # cs, s))"

text \<open>
  The device functions, on the state of the file layer with the console. A read that would have
  to wait for more input is \<open>Inl ''sleep''\<close>.
\<close>

record confs = filest +
  cons :: consst

definition consoleread :: "nat \<Rightarrow> int \<Rightarrow> 'a confs_scheme \<Rightarrow> ((int \<times> u8 list) \<times> 'a confs_scheme) kres" where
  "consoleread ip n s =
     and_then (iunlock ip s) (\<lambda>s.
     let (x, cs, t) = read_chars (was_killed s) (nat n) (nat n) (cons s);
         s = s\<lparr>cons := t\<rparr>
     in case x of
          Line \<Rightarrow> and_then (ilock ip s) (\<lambda>s. Inr ((int (length cs), cs), s))
        | Killed \<Rightarrow> and_then (ilock ip s) (\<lambda>s. Inr ((- 1, cs), s))
        | Waits \<Rightarrow> Inl ''sleep'')"

definition consolewrite :: "nat \<Rightarrow> u8 list \<Rightarrow> int \<Rightarrow> 'a confs_scheme \<Rightarrow> (int \<times> 'a confs_scheme) kres" where
  "consolewrite ip buf n s =
     and_then (iunlock ip s) (\<lambda>s.
     and_then (foldk (\<lambda>b. consputc (uint b)) (take (nat n) buf) (cons s)) (\<lambda>t.
     and_then (ilock ip (s\<lparr>cons := t\<rparr>)) (\<lambda>s. Inr (n, s))))"

definition CONSOLE :: int where "CONSOLE = 1"

text \<open>The device table: what \<^verbatim>\<open>consoleinit\<close> sets in \<^verbatim>\<open>devsw\<close>, which is otherwise empty.\<close>

definition consoleinit :: "'a confs_scheme devops" where
  "consoleinit = \<lparr>dev_read = (\<lambda>m. if m = CONSOLE then Some (\<lambda>ip n. consoleread ip (sint n)) else None),
     dev_write = (\<lambda>m. if m = CONSOLE then Some (\<lambda>ip src n. consolewrite ip src (sint n)) else None)\<rparr>"

section \<open>The cursor stays on the screen\<close>

lemma cgaputc_ok:
  assumes "uint (crt_pos s) < 24 * 80"
  obtains t where "cgaputc c s = Inr t" "uint (crt_pos t) < 24 * 80" "\<And>i. \<not> (0 \<le> i \<and> i < 24 * 80) \<Longrightarrow> crt t i = crt s i"
proof -
  define p where "p = uint (crt_pos s)"
  have p: "0 \<le> p" "p < 1920" using assms by (simp_all add: p_def)
  define q where "q = (if c = 10 then p + (80 - p mod 80) else if c = BACKSPACE then (if p > 0 then p - 1 else p) else p + 1)"
  define m where "m = (if c = 10 \<or> c = BACKSPACE then crt s else (crt s)(p := (of_int c AND 0xFF) OR 0x0700))"
  have nl: "p + (80 - p mod 80) = 80 * (p div 80) + 80" using mult_div_mod_eq [of 80 p] by linarith
  have d: "0 \<le> p div 80" "p div 80 \<le> 23" using p by (simp_all add: pos_imp_zdiv_nonneg_iff)
  have q: "0 \<le> q" "q \<le> 1920"
    using p d unfolding q_def nl by (auto split: if_splits)
  define q' where "q' = (if q div 80 \<ge> 24 then q - 80 else q)"
  have q': "0 \<le> q'" "q' < 1920" using q by (auto simp: q'_def)
  define m' where "m' = (if q div 80 \<ge> 24 then scroll (q - 80) m else m)"
  have t: "(if c = 10 then (p + (80 - p mod 80), crt s)
      else if c = BACKSPACE then (if p > 0 then p - 1 else p, crt s) else (p + 1, (crt s)(p := (of_int c AND 0xFF) OR 0x0700))) = (q, m)"
    by (simp add: q_def m_def)
  have e: "cgaputc c s = Inr (s\<lparr>crt_pos := of_int q', crt := m'(q' := 0x20 OR 0x0700)\<rparr>)"
    unfolding cgaputc_def Let_def p_def [symmetric] t using q by (simp add: q'_def m'_def)
  have "(m'(q' := 0x20 OR 0x0700)) i = crt s i" if "\<not> (0 \<le> i \<and> i < 24 * 80)" for i
    using that q' p q by (auto simp: m'_def m_def scroll_def)
  moreover have "uint (of_int q' :: u16) < 24 * 80" using q' by (simp add: unsigned_of_int take_bit_int_eq_self)
  ultimately show ?thesis using that [OF e] by simp
qed

lemma consputc_ok:
  assumes "uint (crt_pos s) < 24 * 80" "\<not> panicked s"
  obtains t where "consputc c s = Inr t" "uint (crt_pos t) < 24 * 80" "in_e t = in_e s" "in_w t = in_w s" "in_r t = in_r s"
    "in_buf t = in_buf s" "\<not> panicked t"
proof -
  have p: "crt_pos (to_uart b s') = crt_pos s'" for b s' by (simp add: to_uart_def)
  obtain t where "consputc c s = Inr t" "uint (crt_pos t) < 24 * 80"
  proof (cases "c = BACKSPACE")
    case True
    then show ?thesis
      using that cgaputc_ok [of "to_uart 8 (to_uart 32 (to_uart 8 s))" c] assms by (auto simp: consputc_def p)
  next
    case False
    then show ?thesis using that cgaputc_ok [of "to_uart (of_int c) s" c] assms by (auto simp: consputc_def p)
  qed
  then show ?thesis using that consputc_input assms(2) by simp
qed

section \<open>What the line editor does\<close>

text \<open>
  The input as two sequences: the characters a reader may take, and those of the line that is
  still being edited.
\<close>

definition committed :: "consst \<Rightarrow> u8 list" where
  "committed s = ring_list INPUT_BUF (in_buf s) (in_r s) (in_w s)"

definition edited :: "consst \<Rightarrow> u8 list" where
  "edited s = ring_list INPUT_BUF (in_buf s) (in_w s) (in_e s)"

definition cons_inv :: "consst \<Rightarrow> bool" where
  "cons_inv s \<longleftrightarrow> uint (crt_pos s) < 24 * 80 \<and> \<not> panicked s \<and> unat (in_w s - in_r s) \<le> unat (in_e s - in_r s)
     \<and> unat (in_e s - in_r s) \<le> INPUT_BUF \<and> 10 \<notin> set (edited s)"

text \<open>The line editor on the two sequences, for a character \<open>c\<close>.\<close>

definition edit :: "int \<Rightarrow> u8 list \<times> u8 list \<Rightarrow> u8 list \<times> u8 list" where
  "edit c = (\<lambda>(com, ed).
     if c = 0x10 then (com, ed)
     else if c = 0x15 then (com, [])
     else if c = 8 \<or> c = 0x7F then (com, butlast ed)
     else if c = 0 \<or> length com + length ed \<ge> INPUT_BUF then (com, ed)
     else
       let c = (if c = 13 then 10 else c); ed = ed @ [of_int c]
       in if c = 10 \<or> c = 4 \<or> length com + length ed = INPUT_BUF then (com @ ed, []) else (com, ed))"

lemma INPUT_BUF_ring: "INPUT_BUF dvd 2 ^ 32" "INPUT_BUF < 2 ^ 32"
  by (simp_all add: INPUT_BUF_def)

lemma cons_lengths:
  assumes "cons_inv s"
  shows "unat (in_e s - in_r s) = length (committed s) + length (edited s)" "length (committed s) + length (edited s) \<le> INPUT_BUF"
    "in_e s = in_w s \<longleftrightarrow> edited s = []"
proof -
  show n: "unat (in_e s - in_r s) = length (committed s) + length (edited s)"
    using ring_split(2) [OF INPUT_BUF_ring(1), of "in_w s" "in_r s" "in_e s"] assms by (simp add: cons_inv_def committed_def edited_def)
  then show "length (committed s) + length (edited s) \<le> INPUT_BUF" using assms by (simp add: cons_inv_def)
  show "in_e s = in_w s \<longleftrightarrow> edited s = []"
    by (metis edited_def length_0_conv length_ring_list unat_eq_zero right_minus_eq)
qed

text \<open>Taking back one character.\<close>

lemma rub_out:
  assumes "cons_inv s" "edited s \<noteq> []"
  obtains t where "consputc BACKSPACE (s\<lparr>in_e := in_e s - 1\<rparr>) = Inr t" "cons_inv t" "committed t = committed s"
    "edited t = butlast (edited s)" "in_e t = in_e s - 1" "in_w t = in_w s" "in_buf t = in_buf s" "in_r t = in_r s"
proof -
  have ne: "in_w s \<noteq> in_e s" using assms cons_lengths(3) by metis
  obtain t where t: "consputc BACKSPACE (s\<lparr>in_e := in_e s - 1\<rparr>) = Inr t" "uint (crt_pos t) < 24 * 80" "in_e t = in_e s - 1"
    "in_w t = in_w s" "in_r t = in_r s" "in_buf t = in_buf s" "\<not> panicked t"
    using consputc_ok [of "s\<lparr>in_e := in_e s - 1\<rparr>" BACKSPACE] assms(1) by (auto simp: cons_inv_def)
  have e: "edited t = butlast (edited s)" using ring_drop_last(1) [OF ne] by (simp add: edited_def t)
  have c: "committed t = committed s" by (simp add: committed_def t)
  have nr: "in_r s \<noteq> in_e s"
    using cons_lengths(1) [OF assms(1)] assms(2) by auto
  have "unat (in_e s - in_r s) = unat (in_e s - 1 - in_r s) + 1" using unat_diff_suc [OF nr] by (simp add: algebra_simps)
  then have u: "unat (in_e t - in_r t) + 1 = unat (in_e s - in_r s)" by (simp add: t)
  have "length (committed s) < unat (in_e s - in_r s)" using cons_lengths(1) [OF assms(1)] assms(2) by simp
  then have "unat (in_w t - in_r t) \<le> unat (in_e t - in_r t)" using u by (simp add: committed_def t)
  moreover have "unat (in_e t - in_r t) \<le> INPUT_BUF" using u assms(1) by (simp add: cons_inv_def)
  moreover have "10 \<notin> set (edited t)" using assms(1) unfolding e by (auto simp: cons_inv_def dest: in_set_butlastD)
  ultimately have "cons_inv t" using t by (simp add: cons_inv_def)
  then show ?thesis using that t e c by blast
qed

lemma kill_line_ok:
  assumes "cons_inv s"
  obtains t where "kill_line s = Inr t" "cons_inv t" "committed t = committed s" "edited t = []"
proof -
  have "\<exists>t. kill_line s = Inr t \<and> cons_inv t \<and> committed t = committed s \<and> edited t = []"
    using assms
  proof (induction "length (edited s)" arbitrary: s)
    case 0
    then show ?case using cons_lengths(3) [OF 0(2)] by (subst kill_line.simps) auto
  next
    case (Suc n)
    then have ne: "edited s \<noteq> []" by auto
    obtain u where u: "consputc BACKSPACE (s\<lparr>in_e := in_e s - 1\<rparr>) = Inr u" "cons_inv u" "committed u = committed s"
      "edited u = butlast (edited s)" using rub_out [OF Suc(3) ne] .
    have w: "in_w s \<noteq> in_e s" using cons_lengths(3) [OF Suc(3)] ne by metis
    have "unat (in_e s - 1) mod INPUT_BUF = (unat (in_w s) + unat (in_e s - 1 - in_w s)) mod INPUT_BUF"
      by (rule ring_index [OF INPUT_BUF_ring(1)])
    then have "in_buf s (unat (in_e s - 1) mod INPUT_BUF) = last (edited s)"
      using ring_drop_last(2) [OF w, of INPUT_BUF "in_buf s"] by (simp add: edited_def)
    then have "in_buf s (unat (in_e s - 1) mod INPUT_BUF) \<noteq> 10"
      using Suc(3) last_in_set [OF ne] by (auto simp: cons_inv_def)
    then have "kill_line s = kill_line u" using w u(1) by (subst kill_line.simps) auto
    then show ?case using Suc(1) [of u] Suc(2) u by simp
  qed
  then show ?thesis using that by blast
qed

text \<open>All characters that are in the ring form a byte stream.\<close>

definition typed :: "consst \<Rightarrow> u8 list" where
  "typed s = ring_list INPUT_BUF (in_buf s) (in_r s) (in_e s)"

definition typed_inv :: "consst \<Rightarrow> bool" where
  "typed_inv s \<longleftrightarrow> unat (in_e s - in_r s) \<le> INPUT_BUF"

lemma length_typed: "length (typed s) = unat (in_e s - in_r s)"
  by (simp add: typed_def)

interpretation console_stream: byte_stream typed_inv typed INPUT_BUF in_put in_get
proof
  show "length (typed s) \<le> INPUT_BUF" if "typed_inv s" for s using that by (simp add: length_typed typed_inv_def)
next
  fix s b assume a: "typed_inv s" "length (typed s) < INPUT_BUF"
  then show t: "typed (in_put b s) = typed s @ [b]"
    using ring_put [OF INPUT_BUF_ring, of "in_e s" "in_r s"] by (simp add: typed_def in_put_def)
  show "typed_inv (in_put b s)" using a(2) length_typed [of "in_put b s"] unfolding t by (simp add: typed_inv_def)
next
  fix s assume a: "typed_inv s" "typed s \<noteq> []"
  then have "in_r s \<noteq> in_e s" by (metis ring_list_empty typed_def)
  then show t: "typed s = fst (in_get s) # typed (snd (in_get s))"
    using ring_get [OF INPUT_BUF_ring(1), of "in_r s" "in_e s"] by (simp add: typed_def in_get_def)
  have "length (typed (snd (in_get s))) \<le> INPUT_BUF" using a(1) t length_typed [of s] by (simp add: typed_inv_def)
  then show "typed_inv (snd (in_get s))" by (simp add: length_typed typed_inv_def)
qed

lemma typed_split:
  assumes "unat (in_w s - in_r s) \<le> unat (in_e s - in_r s)"
  shows "typed s = committed s @ edited s"
  using ring_split(1) [OF INPUT_BUF_ring(1) assms] by (simp add: typed_def committed_def edited_def)

text \<open>Typing one character.\<close>

lemma type_char:
  assumes inv: "cons_inv s" and room: "length (committed s) + length (edited s) < INPUT_BUF"
  shows "committed (in_put b s) = committed s" "edited (in_put b s) = edited s @ [b]" "typed (in_put b s) = committed s @ edited s @ [b]"
    "unat (in_e (in_put b s) - in_r (in_put b s)) = length (committed s) + length (edited s) + 1"
    "unat (in_w (in_put b s) - in_r (in_put b s)) \<le> unat (in_e (in_put b s) - in_r (in_put b s))"
proof -
  have s: "typed s = committed s @ edited s" using inv by (intro typed_split) (simp add: cons_inv_def)
  have n: "typed_inv s" "length (typed s) < INPUT_BUF" "unat (in_e s - in_w s) < INPUT_BUF"
    using inv room by (simp_all add: s cons_inv_def typed_inv_def edited_def)
  show all: "typed (in_put b s) = committed s @ edited s @ [b]" using console_stream.put_contents [OF n(1,2), of b] s by simp
  show u: "unat (in_e (in_put b s) - in_r (in_put b s)) = length (committed s) + length (edited s) + 1"
    using length_typed [of "in_put b s"] unfolding all by simp
  show l: "unat (in_w (in_put b s) - in_r (in_put b s)) \<le> unat (in_e (in_put b s) - in_r (in_put b s))"
    unfolding u by (simp add: in_put_def committed_def)
  show e: "edited (in_put b s) = edited s @ [b]"
    using ring_put [OF INPUT_BUF_ring n(3)] by (simp add: edited_def in_put_def)
  show "committed (in_put b s) = committed s" using typed_split [OF l] unfolding all e by simp
qed

lemma intr_char_ok:
  assumes inv: "cons_inv s" and c: "0 \<le> c" "c < 256"
  obtains t where "intr_char c (dump, s) = Inr (dump \<or> c = 0x10, t)" "cons_inv t" "(committed t, edited t) = edit c (committed s, edited s)"
proof -
  consider "c = 0x10" | "c = 0x15" | "c = 8 \<or> c = 0x7F" | "c \<noteq> 0x10" "c \<noteq> 0x15" "\<not> (c = 8 \<or> c = 0x7F)" by blast
  then show ?thesis
  proof cases
    case 1
    then show ?thesis using that [of s] inv by (simp add: intr_char_def edit_def)
  next
    case 2
    obtain t where "kill_line s = Inr t" "cons_inv t" "committed t = committed s" "edited t = []" using kill_line_ok [OF inv] .
    then show ?thesis using that [of t] 2 by (simp add: intr_char_def edit_def)
  next
    case 3
    show ?thesis
    proof (cases "edited s = []")
      case True
      then have "in_e s = in_w s" using cons_lengths(3) [OF inv] by blast
      then show ?thesis using that [of s] 3 True inv by (auto simp: intr_char_def edit_def)
    next
      case False
      obtain t where "consputc BACKSPACE (s\<lparr>in_e := in_e s - 1\<rparr>) = Inr t" "cons_inv t" "committed t = committed s"
        "edited t = butlast (edited s)" using rub_out [OF inv False] .
      moreover have "in_e s \<noteq> in_w s" using False cons_lengths(3) [OF inv] by blast
      ultimately show ?thesis using that [of t] 3 by (auto simp: intr_char_def edit_def)
    qed
  next
    case 4
    have full: "in_e s - in_r s < of_nat INPUT_BUF \<longleftrightarrow> length (committed s) + length (edited s) < INPUT_BUF"
      using cons_lengths(1) [OF inv] by (simp add: word_less_nat_alt INPUT_BUF_def)
    show ?thesis
    proof (cases "c \<noteq> 0 \<and> length (committed s) + length (edited s) < INPUT_BUF")
      case False
      then show ?thesis using that [of s] 4 inv full by (auto simp: intr_char_def edit_def)
    next
      case True
      define c' where "c' = (if c = 13 then 10 else c)"
      define s1 where "s1 = in_put (of_int c') s"
      note ty = type_char [OF inv True [THEN conjunct2], of "of_int c'", folded s1_def]
      obtain u where u: "consputc c' s1 = Inr u" "uint (crt_pos u) < 24 * 80" "in_e u = in_e s1" "in_w u = in_w s1" "in_r u = in_r s1"
        "in_buf u = in_buf s1" "\<not> panicked u"
        using consputc_ok [of s1 c'] inv by (auto simp: s1_def in_put_def cons_inv_def)
      have cu: "committed u = committed s" "edited u = edited s @ [of_int c']"
        using ty(1,2) by (simp_all add: committed_def edited_def u)
      have c10: "(of_int c' :: u8) = 10 \<longleftrightarrow> c' = 10"
        using c by (auto simp: c'_def word_uint_eq_iff unsigned_of_int take_bit_int_eq_self split: if_splits)
      have le: "unat (in_e u - in_r u) = length (committed s) + length (edited s) + 1"
        using ty(4) by (simp add: u)
      have eq: "in_e u = in_r u + of_nat INPUT_BUF \<longleftrightarrow> length (committed s) + length (edited s) + 1 = INPUT_BUF"
        unfolding le [symmetric] by (rule ring_full [OF INPUT_BUF_ring(2)])
      define t where "t = (if c' = 10 \<or> c' = 4 \<or> in_e u = in_r u + of_nat INPUT_BUF
                           then u\<lparr>in_w := in_e u, in_wakeups := in_wakeups u + 1\<rparr> else u)"
      have "intr_char c (dump, s) = Inr (dump \<or> c = 0x10, t)"
        using 4 True full u(1) by (simp add: intr_char_def Let_def t_def flip: c'_def s1_def)
      moreover have ct: "(committed t, edited t) = edit c (committed s, edited s)"
        using 4 True cu ty(3) eq by (auto simp: edit_def t_def c'_def committed_def edited_def typed_def u Let_def)
      moreover have "cons_inv t"
        using u(2,7) le True ty(5) inv cu(2) c10
        by (auto simp: cons_inv_def t_def u edited_def)
      ultimately show ?thesis using that by blast
    qed
  qed
qed

section \<open>What a reader gets\<close>

text \<open>A read on the sequence of committed characters: how it ends, what it delivers, what is left.\<close>

fun take_line :: "bool \<Rightarrow> nat \<Rightarrow> nat \<Rightarrow> u8 list \<Rightarrow> cread \<times> u8 list \<times> u8 list" where
  "take_line killed target 0 xs = (Line, [], xs)"
| "take_line killed target (Suc n) [] = (if killed then Killed else Waits, [], [])"
| "take_line killed target (Suc n) (c # xs) =
     (if c = 4 then (Line, [], if Suc n < target then c # xs else xs)
      else if c = 10 then (Line, [c], xs)
      else let (x, cs, rest) = take_line killed target n xs in (x, c # cs, rest))"

lemma get_committed:
  assumes "cons_inv s" "in_r s \<noteq> in_w s"
  shows "cons_inv (snd (in_get s))" "committed s = fst (in_get s) # committed (snd (in_get s))" "edited (snd (in_get s)) = edited s"
proof -
  have c: "committed s = fst (in_get s) # committed (snd (in_get s))"
    using ring_get [OF INPUT_BUF_ring(1) assms(2)] by (simp add: committed_def in_get_def)
  have "in_r s \<noteq> in_e s" using cons_lengths(1) [OF assms(1)] c by auto
  then have "unat (in_e s - in_r s) = unat (in_e s - (in_r s + 1)) + 1" by (rule unat_diff_suc)
  moreover have "unat (in_w s - in_r s) = unat (in_w s - (in_r s + 1)) + 1" by (rule unat_diff_suc [OF assms(2)])
  ultimately show "cons_inv (snd (in_get s))" using assms(1) by (simp add: cons_inv_def in_get_def edited_def)
  show "edited (snd (in_get s)) = edited s" by (simp add: in_get_def edited_def)
qed (simp add: ring_get [OF INPUT_BUF_ring(1) assms(2)] committed_def in_get_def)

lemma read_chars_ok:
  assumes "cons_inv s" "read_chars killed target n s = (x, cs, t)"
  shows "cons_inv t \<and> edited t = edited s \<and> take_line killed target n (committed s) = (x, cs, committed t)"
  using assms
proof (induction n arbitrary: s cs)
  case (Suc n)
  show ?case
  proof (cases "in_r s = in_w s")
    case True
    then have "committed s = []" by (simp add: committed_def)
    then show ?thesis using True Suc.prems by (auto split: if_splits)
  next
    case False
    note g = get_committed [OF Suc.prems(1) False]
    obtain c s1 where cs: "in_get s = (c, s1)" by fastforce
    have undo: "s1\<lparr>in_r := in_r s1 - 1\<rparr> = s" using cs by (auto simp: in_get_def)
    show ?thesis
    proof (cases "c = 4 \<or> c = 10")
      case True
      then show ?thesis using False Suc.prems g cs undo by (auto split: if_splits)
    next
      case neq: False
      obtain ds where "read_chars killed target n s1 = (x, ds, t)" "cs = c # ds"
        using Suc.prems(2) False neq cs by (auto split: prod.splits)
      then show ?thesis using Suc.IH [of s1 ds] g cs neq by auto
    qed
  qed
qed simp

section \<open>Properties\<close>

lemma intr_list:
  assumes "cons_inv s" "\<forall>c \<in> set cs. 0 \<le> c \<and> c < 256"
  shows "\<exists>t. foldk intr_char cs (dump, s) = Inr (dump \<or> 0x10 \<in> set cs, t) \<and> cons_inv t
     \<and> (committed t, edited t) = fold edit cs (committed s, edited s)"
  using assms
proof (induction cs arbitrary: s dump)
  case (Cons c cs)
  then have "0 \<le> c" "c < 256" by simp_all
  then obtain u where u: "intr_char c (dump, s) = Inr (dump \<or> c = 0x10, u)" "cons_inv u" "(committed u, edited u) = edit c (committed s, edited s)"
    using intr_char_ok [OF Cons.prems(1)] by blast
  obtain t where "foldk intr_char cs (dump \<or> c = 0x10, u) = Inr ((dump \<or> c = 0x10) \<or> 0x10 \<in> set cs, t)" "cons_inv t"
    "(committed t, edited t) = fold edit cs (committed u, edited u)"
    using Cons.IH [OF u(2), of "dump \<or> c = 0x10"] Cons.prems(2) by auto
  then show ?case using u by (auto simp: disj_assoc)
qed simp

text \<open>C39: The interrupt handler of the console is a line editor. For every sequence of characters it returns, the
  ring buffer holds what the editor on two sequences computes (characters are added while fewer than 128 are
  waiting, backspace and control-U take back only characters of the current line, and a newline, control-D or a full
  buffer hands the line over), and the cursor stays in the first 24 lines of the screen.\<close>
theorem consoleintr_edits:
  assumes "cons_inv s" "\<forall>c \<in> set cs. 0 \<le> c \<and> c < 256"
  shows "\<exists>t. consoleintr cs s = Inr (0x10 \<in> set cs, t) \<and> cons_inv t \<and> uint (crt_pos t) < 24 * 80
     \<and> (ring_list INPUT_BUF (in_buf t) (in_r t) (in_w t), ring_list INPUT_BUF (in_buf t) (in_w t) (in_e t))
       = fold edit cs (ring_list INPUT_BUF (in_buf s) (in_r s) (in_w s), ring_list INPUT_BUF (in_buf s) (in_w s) (in_e s))"
proof -
  obtain t where "foldk intr_char cs (False, s) = Inr (0x10 \<in> set cs, t)" "cons_inv t"
    "(committed t, edited t) = fold edit cs (committed s, edited s)"
    using intr_list [OF assms, of False] by auto
  then show ?thesis unfolding consoleintr_def committed_def edited_def by (auto simp: cons_inv_def)
qed

definition blank :: consst where
  "blank = \<lparr>crt = (\<lambda>_. 0), crt_pos = 0, uart = [], panicked = False, in_buf = (\<lambda>_. 0), in_r = 0xFFFFFFFE, in_w = 0xFFFFFFFE,
     in_e = 0xFFFFFFFE, in_wakeups = 0\<rparr>"

lemma blank_inv: "cons_inv blank"
  by (simp add: cons_inv_def blank_def edited_def)

text \<open>The read counter wraps around while a line with a correction is typed.\<close>

theorem consoleintr_edits_witness:
  "\<exists>t. consoleintr [0x61, 0x62, 0x08, 0x63, 0x0D] blank = Inr (False, t)
     \<and> ring_list INPUT_BUF (in_buf t) (in_r t) (in_w t) = [0x61, 0x63, 0x0A]"
  using consoleintr_edits [OF blank_inv, of "[0x61, 0x62, 0x08, 0x63, 0x0D]"]
  by (auto simp: edit_def INPUT_BUF_def blank_def)

definition plain :: "int \<Rightarrow> bool" where
  "plain c \<longleftrightarrow> 0 < c \<and> c < 256 \<and> c \<notin> {4, 8, 10, 13, 0x10, 0x15, 0x7F}"

lemma plainD: "plain c \<Longrightarrow> 0 \<le> c" "plain c \<Longrightarrow> c < 256" "plain c \<Longrightarrow> c \<noteq> 0x10" "plain c \<Longrightarrow> c \<noteq> 4" "plain c \<Longrightarrow> c \<noteq> 10"
  unfolding plain_def by (simp, blast+)

lemma edit_plain:
  assumes "\<forall>c \<in> set ls. plain c" "length com + length ed + length ls < INPUT_BUF"
  shows "fold edit ls (com, ed) = (com, ed @ map of_int ls)"
  using assms by (induction ls arbitrary: ed) (auto simp: edit_def plain_def)

lemma take_line_plain:
  assumes "4 \<notin> set xs" "10 \<notin> set xs" "length xs < n"
  shows "take_line k target n (xs @ [10]) = (Line, xs @ [10], [])"
  using assms
proof (induction xs arbitrary: n)
  case Nil
  then show ?case by (cases n) simp_all
next
  case (Cons x xs)
  then show ?case by (cases n) auto
qed

lemma of_int_byte:
  assumes "0 \<le> c" "c < 256" "0 \<le> d" "d < 256"
  shows "(of_int c :: u8) = of_int d \<longleftrightarrow> c = d"
  using assms by (simp add: word_uint_eq_iff unsigned_of_int take_bit_int_eq_self)

text \<open>C40: What is typed is what is read: a line of ordinary characters, finished with the return key at an idle
  console, is what the next read of a large enough buffer returns, with a newline at its end, and nothing is
  left over. This holds also while the counters of the ring buffer wrap around.\<close>
theorem typed_line_read:
  assumes "cons_inv s" "in_r s = in_w s" "in_w s = in_e s" "\<forall>c \<in> set ls. plain c" "length ls < 127" "length ls < n"
  shows "\<exists>t u. consoleintr (ls @ [13]) s = Inr (False, t) \<and> read_chars killed n n t = (Line, map of_int ls @ [10], u)
     \<and> in_r u = in_w u \<and> in_w u = in_e u"
proof -
  have e: "committed s = []" "edited s = []" using assms(2,3) by (simp_all add: committed_def edited_def)
  have cs: "\<forall>c \<in> set (ls @ [13]). 0 \<le> c \<and> c < 256" using assms(4) plainD(1,2) by auto
  have p: "0x10 \<notin> set (ls @ [13])" using assms(4) plainD(3) by auto
  have f: "fold edit (ls @ [13]) ([], []) = (map of_int ls @ [10], [])"
    using edit_plain [OF assms(4), of "[]" "[]"] assms(5) by (simp add: edit_def INPUT_BUF_def)
  obtain t where t: "consoleintr (ls @ [13]) s = Inr (False, t)" "cons_inv t" "committed t = map of_int ls @ [10]" "edited t = []"
    using intr_list [OF assms(1) cs, of False] p unfolding e f consoleintr_def by auto
  have m: "4 \<notin> set (map of_int ls :: u8 list)" "10 \<notin> set (map of_int ls :: u8 list)"
    using assms(4) of_int_byte [of 4] of_int_byte [of 10] plainD by fastforce+
  obtain x ds u where u: "read_chars killed n n t = (x, ds, u)" by (metis prod_cases3)
  note ok = read_chars_ok [OF t(2) u]
  have "take_line killed n n (map of_int ls @ [10]) = (Line, map of_int ls @ [10], [])"
    by (rule take_line_plain [OF m]) (use assms(6) in simp)
  then have r: "x = Line" "ds = map of_int ls @ [10]" "committed u = []" "edited u = []" "cons_inv u" using ok t(3,4) by auto
  have "in_r u = in_w u" using r(3) by (metis committed_def length_0_conv length_ring_list right_minus_eq unat_eq_zero)
  moreover have "in_w u = in_e u" using cons_lengths(3) [OF r(5)] r(4) by simp
  ultimately show ?thesis using t(1) u r by blast
qed

theorem typed_line_read_witness:
  "\<exists>t u. consoleintr [0x6C, 0x73, 13] blank = Inr (False, t) \<and> read_chars False 100 100 t = (Line, [0x6C, 0x73, 10], u) \<and> in_r u = in_w u"
  using typed_line_read [OF blank_inv, of "[0x6C, 0x73]" 100 False] by (auto simp: plain_def blank_def)

end
