(* ===== verification/Kbd.thy ===== *)
theory Kbd
  imports Console
begin

text \<open>
  The keyboard (\<^verbatim>\<open>kbd.c\<close>, \<^verbatim>\<open>kbd.h\<close>): the tables that translate scan codes, the decoder with its
  modifier state, and the interrupt handler. The argument of \<open>kbdgetc\<close> is what the controller holds:
  a byte, or nothing.
\<close>

section \<open>Tables\<close>

definition SHIFT :: u32 where "SHIFT = 1"
definition CTL :: u32 where "CTL = 2"
definition ALT :: u32 where "ALT = 4"
definition CAPSLOCK :: u32 where "CAPSLOCK = 8"
definition NUMLOCK :: u32 where "NUMLOCK = 16"
definition SCROLLLOCK :: u32 where "SCROLLLOCK = 32"
definition E0ESC :: u32 where "E0ESC = 64"

definition shiftcode :: "nat \<Rightarrow> u32" where
  "shiftcode d =
     (if d = 0x1D then CTL else if d = 0x2A then SHIFT else if d = 0x36 then SHIFT
      else if d = 0x38 then ALT else if d = 0x9D then CTL else if d = 0xB8 then ALT else 0)"

definition togglecode :: "nat \<Rightarrow> u32" where
  "togglecode d = (if d = 0x3A then CAPSLOCK else if d = 0x45 then NUMLOCK else if d = 0x46 then SCROLLLOCK else 0)"

text \<open>
  A map is given by its first entries and by the entries for the keys with an \<^verbatim>\<open>0xE0\<close> prefix, whose
  codes have the bit \<^verbatim>\<open>0x80\<close>; every other entry is \<^verbatim>\<open>NO\<close>.
\<close>

definition key_table :: "u8 list \<Rightarrow> (nat \<times> u8) list \<Rightarrow> nat \<Rightarrow> u8" where
  "key_table ks es d = (case map_of es d of Some c \<Rightarrow> c | None \<Rightarrow> if d < length ks then ks ! d else 0)"

definition chars :: "string \<Rightarrow> u8 list" where
  "chars cs = map of_char cs"

definition special_keys :: "(nat \<times> u8) list" where
  "special_keys = [(0xC8, 0xE2), (0xD0, 0xE3), (0xC9, 0xE6), (0xD1, 0xE7), (0xCB, 0xE4), (0xCD, 0xE5),
     (0x97, 0xE0), (0xCF, 0xE1), (0xD2, 0xE8), (0xD3, 0xE9)]"

definition keypad :: "u8 list" where
  "keypad = chars ''789-456+1230.'' @ [0, 0, 0, 0]"

definition normalmap :: "nat \<Rightarrow> u8" where
  "normalmap = key_table
     ([0, 0x1B] @ chars ''1234567890-='' @ [8, 9] @ chars ''qwertyuiop[]'' @ [10, 0] @ chars ''asdfghjkl;'' @ [39, 96, 0, 92]
      @ chars ''zxcvbnm,./'' @ [0, 42, 0, 32] @ replicate 13 0 @ keypad)
     ([(0x9C, 10), (0xB5, 47)] @ special_keys)"

definition shiftmap :: "nat \<Rightarrow> u8" where
  "shiftmap = key_table
     ([0, 0x1B] @ chars ''!@#$%^&*()_+'' @ [8, 9] @ chars ''QWERTYUIOP{}'' @ [10, 0] @ chars ''ASDFGHJKL:'' @ [34, 126, 0, 124]
      @ chars ''ZXCVBNM<>?'' @ [0, 42, 0, 32] @ replicate 13 0 @ keypad)
     ([(0x9C, 10), (0xB5, 47)] @ special_keys)"

text \<open>\<^verbatim>\<open>C(x)\<close> is the character minus 64, as an unsigned byte.\<close>

definition ctls :: "string \<Rightarrow> u8 list" where
  "ctls cs = map (\<lambda>c. of_char c - 64) cs"

definition ctlmap :: "nat \<Rightarrow> u8" where
  "ctlmap = key_table
     (replicate 16 0 @ ctls ''QWERTYUIOP'' @ [0, 0, 13, 0] @ ctls ''ASDFGHJKL'' @ [0, 0, 0, 0, 0x1C] @ ctls ''ZXCVBNM'' @ [0, 0, 0xEF, 0, 0])
     ([(0x9C, 13), (0xB5, 0xEF)] @ special_keys)"

definition charcode :: "u32 \<Rightarrow> nat \<Rightarrow> u8" where
  "charcode k = (if k = 0 then normalmap else if k = 1 then shiftmap else ctlmap)"

section \<open>The decoder\<close>

text \<open>The result is the character, or -1, and the new value of \<^verbatim>\<open>shift\<close>.\<close>

definition kbdgetc :: "u8 option \<Rightarrow> u32 \<Rightarrow> int \<times> u32" where
  "kbdgetc port shift =
     (case port of
        None \<Rightarrow> (- 1, shift)
      | Some b \<Rightarrow>
          let data = ucast b :: u32
          in if data = 0xE0 then (0, shift OR E0ESC)
             else if data AND 0x80 \<noteq> 0
             then let data = (if shift AND E0ESC \<noteq> 0 then data else data AND 0x7F)
                  in (0, shift AND NOT (shiftcode (unat data) OR E0ESC))
             else
               let (data, shift) = (if shift AND E0ESC \<noteq> 0 then (data OR 0x80, shift AND NOT E0ESC) else (data, shift));
                   shift = shift OR shiftcode (unat data);
                   shift = shift XOR togglecode (unat data);
                   c = uint (charcode (shift AND (CTL OR SHIFT)) (unat data));
                   c = (if shift AND CAPSLOCK \<noteq> 0
                        then (if 97 \<le> c \<and> c \<le> 122 then c - 32 else if 65 \<le> c \<and> c \<le> 90 then c + 32 else c)
                        else c)
               in (c, shift))"

text \<open>The characters for the bytes that the controller delivers one after the other.\<close>

fun kbd_chars :: "u8 list \<Rightarrow> u32 \<Rightarrow> int list \<times> u32" where
  "kbd_chars [] shift = ([], shift)"
| "kbd_chars (b # bs) shift =
     (let (c, shift) = kbdgetc (Some b) shift; (cs, shift) = kbd_chars bs shift in (c # cs, shift))"

definition kbdintr :: "u8 list \<Rightarrow> u32 \<Rightarrow> consst \<Rightarrow> ((bool \<times> consst) \<times> u32) kres" where
  "kbdintr bs shift s = (let (cs, shift) = kbd_chars bs shift in and_then (consoleintr cs s) (\<lambda>r. Inr (r, shift)))"

section \<open>The decoder and the console\<close>

text \<open>Every character is a byte, so the line editor's contract applies to whatever is typed.\<close>

lemma uint_u8: "0 \<le> uint (x :: u8)" "uint (x :: u8) < 256"
  using uint_lt2p [of x] by simp_all

lemma kbdgetc_range: "kbdgetc (Some b) shift = (c, sh) \<Longrightarrow> 0 \<le> c \<and> c < 256"
  using uint_u8 by (auto simp: kbdgetc_def Let_def split: if_splits prod.splits)

lemma kbd_chars_range: "kbd_chars bs shift = (cs, sh) \<Longrightarrow> \<forall>c \<in> set cs. 0 \<le> c \<and> c < 256"
proof (induction bs arbitrary: shift cs)
  case (Cons b bs)
  obtain c s1 where c: "kbdgetc (Some b) shift = (c, s1)" by fastforce
  obtain ds where "kbd_chars bs s1 = (ds, sh)" "cs = c # ds" using Cons.prems c by (auto split: prod.splits)
  then show ?case using Cons.IH [of s1 ds] kbdgetc_range [OF c] by auto
qed simp

lemma kbdintr_ok:
  assumes "cons_inv s"
  shows "\<exists>r. kbdintr bs shift s = Inr r \<and> cons_inv (snd (fst r))"
proof -
  obtain cs sh where c: "kbd_chars bs shift = (cs, sh)" by fastforce
  show ?thesis using intr_list [OF assms kbd_chars_range [OF c], of False] by (auto simp: kbdintr_def c consoleintr_def)
qed

text \<open>A word typed with the keyboard: the keys l, s and enter, each pressed and released.\<close>

lemma kbd_types_ls: "kbd_chars [0x26, 0xA6, 0x1F, 0x9F, 0x1C, 0x9C] 0 = ([108, 0, 115, 0, 10, 0], 0)"
  by code_simp

end
