(* ===== verification/Spec2Isabelle.thy ===== *)
theory Spec2Isabelle
  imports ProcSpec Trap FsSpec Exec Kbd
begin

text \<open>
  A verification library for the kernel in \<^verbatim>\<open>src/xv6 modified\<close>, a Unix for x86 processors with four
  schedulers (round robin, first come first served, feedback queues, priorities).

  \<^bold>\<open>The parts and how they interact.\<close> A trap enters the kernel (\<^verbatim>\<open>trap.c\<close>): a timer tick accounts time and
  preempts, a system call (\<^verbatim>\<open>syscall.c\<close>, \<^verbatim>\<open>sysproc.c\<close>, \<^verbatim>\<open>sysfile.c\<close>) fetches its arguments from user memory and
  runs. The process layer (\<^verbatim>\<open>proc.c\<close>) owns the process table and the feedback queues; the scheduler takes
  processes from them. Memory comes from \<^verbatim>\<open>kalloc.c\<close> and is arranged in page tables by \<^verbatim>\<open>vm.c\<close>. Files are
  layered: open files and pipes (\<^verbatim>\<open>file.c\<close>, \<^verbatim>\<open>pipe.c\<close>) over inodes, directories and paths (\<^verbatim>\<open>fs.c\<close>) over the
  log (\<^verbatim>\<open>log.c\<close>) over the buffer cache (\<^verbatim>\<open>bio.c\<close>) over the disk (\<^verbatim>\<open>memide.c\<close>). \<^verbatim>\<open>exec.c\<close> builds an address space
  from a file. The console (\<^verbatim>\<open>console.c\<close>) is a device of the file system, fed by the keyboard (\<^verbatim>\<open>kbd.c\<close>).

  \<^bold>\<open>Conventions.\<close> An operation that can panic has a result of type \<open>string + 'a\<close>: \<open>Inl\<close> carries the message of
  the panic, or \<open>''trap''\<close> for a fault of the kernel, \<open>''sleep''\<close> where the process would have to wait for another,
  \<open>''diverges''\<close> for a loop that never ends, \<open>''overflow''\<close> for a process id past \<open>INT_MAX\<close>, \<open>''spins''\<close> on a lock
  of another processor. A C \<^verbatim>\<open>int\<close> is an integer (\<^verbatim>\<open>nextpid\<close>, \<^verbatim>\<open>atoi\<close> and \<^verbatim>\<open>strlen\<close>, which can count past
  \<open>INT_MAX\<close>, have a branch for the overflow; the accounting fields of a process have none), an \<^verbatim>\<open>uint\<close>, \<^verbatim>\<open>short\<close> or \<^verbatim>\<open>uchar\<close> a word of its
  width, an array a function of the index, a pointer into a table the index. States are records; the states of
  the layers of the file system extend each other (\<open>bst\<close>, \<open>logst\<close>, \<open>fsst\<close>, \<open>filest\<close>, \<open>confs\<close>), and an operation of
  a lower layer runs on the states of all higher ones. An operation of the process layer is a critical section
  of \<^verbatim>\<open>ptable.lock\<close>; the state of the locks is followed where \<^verbatim>\<open>sched\<close> checks it, in \<^verbatim>\<open>yield\<close>, \<^verbatim>\<open>sleep\<close>, \<^verbatim>\<open>exit\<close>,
  \<^verbatim>\<open>wait\<close>, \<^verbatim>\<open>waitx\<close> and \<^verbatim>\<open>sys_sleep\<close>, and not elsewhere. The process layer takes what it needs of memory and files as a record of operations (\<open>kops\<close>), the
  file system the device table as the record \<open>devops\<close>, which \<open>consoleinit\<close> provides.

  \<^bold>\<open>Theories.\<close>
  \<^item> \<open>Prelude\<close>: results with errors, folds with errors, word arithmetic, the measure for loops that count upwards.
  \<^item> \<open>Printf\<close>: \<^verbatim>\<open>printint\<close>, \<^verbatim>\<open>cprintf\<close> (\<^verbatim>\<open>console.c\<close>), \<^verbatim>\<open>printf.c\<close> and \<^verbatim>\<open>atoi\<close>; printing a number and reading it back.
  \<^item> \<open>ProcDefs\<close>: the structures of \<^verbatim>\<open>proc.h\<close> and the globals of \<^verbatim>\<open>proc.c\<close>.
  \<^item> \<open>Mlfq\<close>: \<^verbatim>\<open>push\<close>, \<^verbatim>\<open>pop\<close> and \<^verbatim>\<open>remove\<close> on the ring buffers of the feedback queues. The locale \<open>queue_array\<close> is the
    contract of a family of queues; the interpretation \<open>mlfq\<close> shows that the ring buffers provide it.
  \<^item> \<open>Spinlock\<close>: \<^verbatim>\<open>spinlock.c\<close>: locks, the nesting of \<^verbatim>\<open>pushcli\<close> and the interrupt flag, with their panics; a
    critical section gives back the interrupt flag it found.
  \<^item> \<open>Sched\<close>: \<^verbatim>\<open>scheduler\<close>, \<^verbatim>\<open>sched\<close>, \<^verbatim>\<open>yield\<close> and the aging of processes, for all four policies; which process each
    policy runs, and that aging promotes exactly the processes that waited too long.
  \<^item> \<open>Proc\<close>: \<^verbatim>\<open>fork\<close>, \<^verbatim>\<open>exit\<close>, \<^verbatim>\<open>wait\<close>, \<^verbatim>\<open>waitx\<close>, \<^verbatim>\<open>sleep\<close>, \<^verbatim>\<open>wakeup\<close>, \<^verbatim>\<open>kill\<close>, \<^verbatim>\<open>growproc\<close>, \<^verbatim>\<open>userinit\<close>, the listings, and the end of \<^verbatim>\<open>exec\<close>.
  \<^item> \<open>ProcInv\<close>, \<open>ProcSteps\<close>: the invariant of the process table, the step relation \<open>kstep\<close> of all operations on all
    processors in any order, and what holds in every reachable state; \<open>ProcSpec\<close>: what fork, exit and wait do.
  \<^item> \<open>Vm\<close>: \<^verbatim>\<open>kalloc.c\<close> and \<^verbatim>\<open>vm.c\<close>, with the access of the kernel to user memory.
  \<^item> \<open>Syscall\<close>, \<open>Trap\<close>: arguments and dispatch of system calls, \<^verbatim>\<open>sysproc.c\<close>, and \<^verbatim>\<open>trap.c\<close>; the entries by
    process calls, the timer and faults are sequences of steps of \<open>kstep\<close>. The calls of \<^verbatim>\<open>sysfile.c\<close>, with what is
    left of them after a sleep, and the device handlers are parameters there: their models work on the state of
    the file system and of the console, and the two are not joined.
  \<^item> \<open>Bio\<close>, \<open>BioInv\<close>: \<^verbatim>\<open>bio.c\<close>, \<^verbatim>\<open>sleeplock.c\<close> and \<^verbatim>\<open>memide.c\<close>; the linked list of buffers as a list, the contents of
    the blocks as the file system sees them (\<open>view\<close>), and the contract of \<^verbatim>\<open>bread\<close>, \<^verbatim>\<open>bwrite\<close> and \<^verbatim>\<open>brelse\<close>.
  \<^item> \<open>Log\<close>, \<open>LogInv\<close>, \<open>LogSpec\<close>: \<^verbatim>\<open>log.c\<close>; a commit as the sequence of its block writes, recovery after any prefix of
    them, and the contract of a change of one block inside a transaction (\<open>log_update\<close>).
  \<^item> \<open>Strings\<close>: \<^verbatim>\<open>string.c\<close> and the string functions of \<^verbatim>\<open>ulib.c\<close>.
  \<^item> \<open>Fs\<close>: all of \<^verbatim>\<open>fs.c\<close> on the bytes of the blocks. \<open>FsInv\<close>, \<open>FsSpec\<close>: files as sequences of bytes, directories as
    sequences of entries; reading, writing, lookup, linking, and inodes on the disk in terms of them.
  \<^item> \<open>Ring\<close>: ring buffers whose counters wrap around, and the locale \<open>byte_stream\<close>, interpreted for pipes
    (\<open>pipe_stream\<close>) and for the input of the console (\<open>console_stream\<close>).
  \<^item> \<open>Pipe\<close>: \<^verbatim>\<open>pipe.c\<close> and the system of a writer and a reader that sleep and wake each other, as a step relation.
  \<^item> \<open>File\<close>, \<open>Sysfile\<close>, \<open>Exec\<close>: \<^verbatim>\<open>file.c\<close>, \<^verbatim>\<open>sysfile.c\<close> and \<^verbatim>\<open>exec.c\<close>, composed from the layers below.
  \<^item> \<open>Console\<close>, \<open>Kbd\<close>: the screen, the line editor and the device functions of \<^verbatim>\<open>console.c\<close>, and the keyboard
    decoder; the interrupt handler refines an editor on two sequences of characters.

  \<^bold>\<open>What the theorems show.\<close> The queues are queues, and the schedulers run the process their policy names; in
  every reachable state a process runs on at most one processor, queued processes are runnable and queued once,
  process ids are unique (as long as \<^verbatim>\<open>nextpid\<close> does not overflow), and a process without spin locks passes all
  checks of \<^verbatim>\<open>sched\<close> when it yields, sleeps with one lock or exits. The trap handler returns to user mode only with
  a process that has not been killed; a new process, which returns through \<^verbatim>\<open>forkret\<close>, is not checked. A commit is atomic for a crash at any point. The buffer
  cache replaces the least recently released buffer and delivers the contents last written. Files, directories
  and inodes keep what was stored in them. A pipe delivers what was sent, in order, and its ends never sleep at the
  same time. The console hands over the line that was typed and keeps its cursor on the screen.

  \<^bold>\<open>What the code does not do.\<close> Some theorems state a defect: a stale slot of a feedback queue makes the aging pass
  drop a runnable process; \<^verbatim>\<open>kill(0)\<close> kills the next child that is made; under priority scheduling every timer
  interrupt preempts; a writer that is killed in a full pipe does not wake the reader; the \<^verbatim>\<open>memmove\<close> of the user
  library damages overlapping areas; \<^verbatim>\<open>atoi\<close> overflows on the 48 largest numbers.

  \<^bold>\<open>Bounds.\<close> The model has no fuel except in the scan of the linked list of buffers, which is given one turn more
  than the list has buffers, enough for every list the invariant allows. Loops whose counter can wrap around end in
  \<open>''diverges''\<close> at the turn that would not advance. String scans by pointers that may not end are partial
  functions; \<^verbatim>\<open>strlen\<close>, which counts in an \<^verbatim>\<open>int\<close>, is total.

  The contract of reading and writing covers the blocks a file has; that a write past the end of the file
  allocates blocks is part of the model (\<open>bmap\<close>, \<open>balloc\<close>), and no theorem is stated about it. The theorems about the
  file system are for one process inside it.

  \<^bold>\<open>Not modelled.\<close> The spinning on locks and the memory model; the IDE driver, the interrupt controllers, the serial port and
  the start of further processors (device registers); boot and context switch (assembler); \<^verbatim>\<open>mkfs.c\<close>; the user
  programs, the shell and the user allocator, which are clients of the system calls; the tests. The programs of
  the other directories under \<^verbatim>\<open>src\<close> are host programs over threads, sockets and files of the host system.
\<close>

end
